(* ===== verification/Prelude.thy ===== *)
theory Prelude
  imports Main "HOL-Library.Word"
begin

unbundle bit_operations_syntax

text \<open>
  Shared vocabulary of the development: the widths of Go's integers, the interface
  \<open>io.ReaderAt\<close> through which every package reads files, Go's \<open>sort.Search\<close>, and the
  lemmas on words and byte lists that several components use.

  Offsets and lengths (Go's \<open>int\<close> and \<open>int64\<close>) are \<open>int\<close> or \<open>nat\<close>: they are sums of file
  offsets and of element sizes below \<open>2 ^ 56\<close> and stay far inside 64 bits.  Values whose
  wrap-around can be observed are words (timestamps, IDs, encoded integers), or their sums go
  through \<open>wrap64\<close> (the offsets of a layout, which are decoded from a file).
\<close>

section \<open>Machine integers\<close>

type_synonym byte = "8 word"
type_synonym u16 = "16 word"
type_synonym u32 = "32 word"
type_synonym u64 = "64 word"

text \<open>An \<open>int64\<close> that may wrap is a \<open>64 word\<close> read through \<open>sint\<close>.\<close>

type_synonym i64 = "64 word"

text \<open>What Go's \<open>int64\<close> arithmetic makes of an integer result.\<close>

definition wrap64 :: "int \<Rightarrow> int" where
  "wrap64 n = sint (word_of_int n :: i64)"

lemma wrap64_eq: "wrap64 n = (n + 2 ^ 63) mod 2 ^ 64 - 2 ^ 63"
  by (simp add: wrap64_def sint_sbintrunc' signed_take_bit_eq_take_bit_shift take_bit_eq_mod)

lemma wrap64_id: "- (2 ^ 63) \<le> n \<Longrightarrow> n < 2 ^ 63 \<Longrightarrow> wrap64 n = n"
  by (simp add: wrap64_eq)

lemma wrap64_nonneg: "0 \<le> n \<Longrightarrow> n < 2 ^ 63 \<Longrightarrow> wrap64 n = n"
  by (simp add: wrap64_eq)

lemma wrap64_add: "wrap64 (wrap64 a + b) = wrap64 (a + b)"
  unfolding wrap64_def by simp

lemma wrap64_wrap64 [simp]: "wrap64 (wrap64 n) = wrap64 n"
  unfolding wrap64_def by simp

lemma wrap64_0 [simp]: "wrap64 0 = 0"
  by (simp add: wrap64_def)

named_theorems word_nat "unat of the word operations the code uses"

lemma unat_byte_lt: "unat (c :: byte) < 256"
proof -
  have "unat c < 2 ^ LENGTH(8)" by (rule unsigned_less)
  then show ?thesis by simp
qed

lemma unat_ucast_byte:
  assumes "8 \<le> LENGTH('a::len)"
  shows "unat (ucast (c :: byte) :: 'a word) = unat c"
proof -
  have "unat c < 2 ^ 8" using unat_byte_lt [of c] by simp
  also have "(2::nat) ^ 8 \<le> 2 ^ LENGTH('a)" using assms by (intro power_increasing) auto
  finally show ?thesis by (simp add: unsigned_ucast_eq take_bit_nat_eq_self)
qed

lemma unat_ucast_byte_64 [word_nat]: "unat (ucast (c :: byte) :: u64) = unat c"
  by (simp add: unat_ucast_byte)

lemma unat_ucast_byte_32 [word_nat]: "unat (ucast (c :: byte) :: u32) = unat c"
  by (simp add: unat_ucast_byte)

lemma unat_to_byte [word_nat]: "unat (ucast (v :: 'a::len word) :: byte) = unat v mod 256"
  by (simp add: unsigned_ucast_eq take_bit_eq_mod)

lemma unat_drop [word_nat]: "unat (drop_bit n (v :: 'a::len word)) = unat v div 2 ^ n"
  by (simp add: unat_drop_bit_eq) (simp add: drop_bit_eq_div)

lemma unat_bound_64: "unat (v :: u64) < 2 ^ 64"
proof -
  have "unat v < 2 ^ LENGTH(64)" by (rule unsigned_less)
  then show ?thesis by simp
qed

section \<open>Big-endian bytes\<close>

text \<open>One step of the loops \<open>v = v<<8 | uint64(c)\<close> (also at 32 bits).\<close>

definition shift_in :: "'a::len word \<Rightarrow> byte \<Rightarrow> 'a word" where
  "shift_in v c = push_bit 8 v OR ucast c"

definition be_nat :: "byte list \<Rightarrow> nat" where
  "be_nat bs = foldl (\<lambda>n c. n * 256 + unat c) 0 bs"

text \<open>The \<open>w\<close> low bytes of a word, most significant first: \<open>byte(v >> (8*i))\<close> for \<open>i\<close> from
  \<open>w - 1\<close> down to 0.\<close>

definition be_bytes :: "nat \<Rightarrow> 'a::len word \<Rightarrow> byte list" where
  "be_bytes w v = map (\<lambda>i. ucast (drop_bit (8 * i) v)) (rev [0..<w])"

lemma unat_shift_in:
  assumes "8 \<le> LENGTH('a::len)"
  shows "unat (shift_in (v :: 'a word) c) = (unat v * 256 + unat c) mod 2 ^ LENGTH('a)"
proof -
  have "push_bit 8 v AND (ucast c :: 'a word) = 0"
    by (rule bit_word_eqI) (auto simp: bit_simps dest: bit_imp_le_length)
  then have "push_bit 8 v OR ucast c = push_bit 8 v + (ucast c :: 'a word)"
    by (rule disjunctive_add_eq_or [symmetric])
  moreover have "push_bit 8 v = v * 256" by (simp add: push_bit_eq_mult)
  ultimately have "shift_in v c = of_nat (unat v * 256 + unat c)"
    by (simp add: shift_in_def)
  then show ?thesis by (simp only: unat_of_nat)
qed

lemma be_nat_Nil [simp]: "be_nat [] = 0"
  by (simp add: be_nat_def)

lemma be_nat_snoc [simp]: "be_nat (bs @ [c]) = be_nat bs * 256 + unat c"
  by (simp add: be_nat_def)

lemma be_nat_append: "be_nat (as @ bs) = be_nat as * 256 ^ length bs + be_nat bs"
proof (induction bs rule: rev_induct)
  case (snoc c bs)
  then show ?case
    by (simp del: append_assoc add: append_assoc [symmetric] algebra_simps)
qed simp

lemma be_nat_Cons: "be_nat (c # bs) = unat c * 256 ^ length bs + be_nat bs"
  using be_nat_append [of "[c]" bs] be_nat_snoc [of "[]" c] by simp

lemma be_nat_bound: "be_nat bs < 256 ^ length bs"
proof (induction bs rule: rev_induct)
  case (snoc c bs)
  then show ?case using unat_byte_lt [of c] by simp
qed simp

lemma unat_foldl_shift_in:
  assumes "8 \<le> LENGTH('a::len)"
  shows "unat (foldl shift_in (v :: 'a word) bs)
    = (unat v * 256 ^ length bs + be_nat bs) mod 2 ^ LENGTH('a)"
proof (induction bs rule: rev_induct)
  case (snoc c bs)
  let ?m = "2 ^ LENGTH('a) :: nat" and ?n = "unat v * 256 ^ length bs + be_nat bs"
  have "unat (foldl shift_in v (bs @ [c])) = (?n mod ?m * 256 + unat c) mod ?m"
    by (simp add: unat_shift_in [OF assms] snoc)
  also have "\<dots> = (?n * 256 + unat c) mod ?m"
    by (metis mod_add_left_eq mod_mult_left_eq)
  finally show ?case by (simp add: algebra_simps)
qed (simp add: take_bit_nat_eq_self flip: take_bit_eq_mod)

lemma length_be_bytes [simp]: "length (be_bytes w v) = w"
  by (simp add: be_bytes_def)

lemma be_bytes_0 [simp]: "be_bytes 0 v = []"
  by (simp add: be_bytes_def)

lemma be_bytes_Suc: "be_bytes (Suc w) v = ucast (drop_bit (8 * w) v) # be_bytes w v"
  by (simp add: be_bytes_def)

lemma be_nat_be_bytes [simp]: "be_nat (be_bytes w v) = unat v mod 256 ^ w"
proof (induction w)
  case (Suc w)
  have "unat v mod 256 ^ Suc w = unat v div 256 ^ w mod 256 * 256 ^ w + unat v mod 256 ^ w"
    by (metis mod_mult2_eq mult.commute power_Suc)
  moreover have "(2::nat) ^ (8 * w) = 256 ^ w" by (simp add: power_mult)
  ultimately show ?case
    by (simp add: be_bytes_Suc be_nat_Cons Suc word_nat)
qed simp

text \<open>A two-digit number is the largest one exactly when both digits are.\<close>

lemma top_digits:
  fixes a b t k :: nat
  assumes "a < t" "b < k"
  shows "a * k + b = t * k - 1 \<longleftrightarrow> a = t - 1 \<and> b = k - 1"
proof
  assume eq: "a * k + b = t * k - 1"
  have "0 < t * k" using assms by simp
  with eq have sum: "a * k + b + 1 = t * k" by simp
  show "a = t - 1 \<and> b = k - 1"
  proof (cases "a = t - 1")
    case True
    then have "t * k = a * k + k" using assms(1) by (cases t) auto
    with True sum show ?thesis by simp
  next
    case False
    with assms(1) have "a + 2 \<le> t" by simp
    then have "(a + 2) * k \<le> t * k" by (rule mult_le_mono1)
    with sum assms(2) show ?thesis by simp
  qed
next
  assume "a = t - 1 \<and> b = k - 1"
  with assms show "a * k + b = t * k - 1" by (cases t) auto
qed

section \<open>The io.ReaderAt interface\<close>

text \<open>
  \<open>ReadAt(buf, off)\<close> with \<open>len(buf) = n\<close> is \<open>r off n\<close>: the bytes it stored at the front of
  the buffer and the error, if any.
\<close>

datatype io_err = EOF | UnexpectedEOF | IOError string

type_synonym reader = "int \<Rightarrow> nat \<Rightarrow> byte list \<times> io_err option"

text \<open>
  The contract of \<open>io.ReaderAt\<close> for a file with the given content: a request inside the
  file is filled with the file's bytes, a request across the end is cut there and reports
  an error.
\<close>

locale reader_at =
  fixes r :: reader and content :: "byte list"
  assumes read_bytes: "0 \<le> off \<Longrightarrow> fst (r off n) = take n (drop (nat off) content)"
    and read_short: "0 \<le> off \<Longrightarrow> length (fst (r off n)) < n \<Longrightarrow> snd (r off n) \<noteq> None"
begin

lemma read_full:
  assumes "0 \<le> off" "nat off + n \<le> length content"
  shows "fst (r off n) = take n (drop (nat off) content)"
    and "length (fst (r off n)) = n"
  using assms by (simp_all add: read_bytes)

lemma read_length_le: "0 \<le> off \<Longrightarrow> length (fst (r off n)) \<le> length content - nat off"
  by (simp add: read_bytes)

lemma read_full_inside:
  assumes "0 \<le> off" "length (fst (r off n)) = n" "0 < n"
  shows "nat off + n \<le> length content"
proof -
  have "n \<le> length content - nat off" using read_length_le [OF assms(1), of n] assms(2) by simp
  with assms(3) show ?thesis by linarith
qed

end

text \<open>\<open>bytes.Reader.ReadAt\<close> and \<open>os.File.ReadAt\<close> on a file with that content.\<close>

definition file_reader :: "byte list \<Rightarrow> reader" where
  "file_reader content off n =
     (if off < 0 then ([], Some (IOError ''negative offset''))
      else if int (length content) \<le> off then ([], Some EOF)
      else let got = take n (drop (nat off) content)
           in (got, if length got < n then Some EOF else None))"

interpretation file_reader: reader_at "file_reader content" content for content
  by unfold_locales (auto simp: file_reader_def Let_def split: if_splits)

section \<open>sort.Search\<close>

text \<open>The binary search of Go's \<open>sort\<close> package, with its midpoint.  Whatever the predicate
  is, it stops at a boundary: the element before is false, the element itself true; on a
  monotone predicate that is the first true index.\<close>

function SearchFrom :: "(nat \<Rightarrow> bool) \<Rightarrow> nat \<Rightarrow> nat \<Rightarrow> nat" where
  "SearchFrom f i j =
     (if i < j then
        (let h = (i + j) div 2 in if \<not> f h then SearchFrom f (Suc h) j else SearchFrom f i h)
      else i)"
  by pat_completeness auto
termination
  by (relation "measure (\<lambda>(f, i, j). j - i)") auto

declare SearchFrom.simps [simp del]

definition sort_Search :: "nat \<Rightarrow> (nat \<Rightarrow> bool) \<Rightarrow> nat" where
  "sort_Search n f = SearchFrom f 0 n"

lemma SearchFrom_boundary:
  assumes "i \<le> j" "j \<le> n" "i = 0 \<or> \<not> f (i - 1)" "j = n \<or> f j"
  shows "i \<le> SearchFrom f i j \<and> SearchFrom f i j \<le> j
    \<and> (SearchFrom f i j = 0 \<or> \<not> f (SearchFrom f i j - 1))
    \<and> (SearchFrom f i j = n \<or> f (SearchFrom f i j))"
  using assms
proof (induction f i j rule: SearchFrom.induct)
  case (1 f i j)
  let ?h = "(i + j) div 2"
  show ?case
  proof (cases "i < j")
    case True
    then have h: "i \<le> ?h" "?h < j" by auto
    show ?thesis
    proof (cases "f ?h")
      case True
      with "1.IH"(2) [OF \<open>i < j\<close> refl] "1.prems" h show ?thesis
        by (simp add: SearchFrom.simps [of f i j] Let_def) linarith
    next
      case False
      with "1.IH"(1) [OF \<open>i < j\<close> refl] "1.prems" h show ?thesis
        by (simp add: SearchFrom.simps [of f i j] Let_def) linarith
    qed
  next
    case False
    with "1.prems" show ?thesis by (simp add: SearchFrom.simps [of f j j])
  qed
qed

lemma sort_Search_le: "sort_Search n f \<le> n"
  using SearchFrom_boundary [of 0 n n f] by (simp add: sort_Search_def)

lemma sort_Search_before: "0 < sort_Search n f \<Longrightarrow> \<not> f (sort_Search n f - 1)"
  using SearchFrom_boundary [of 0 n n f] by (simp add: sort_Search_def)

lemma sort_Search_at: "sort_Search n f < n \<Longrightarrow> f (sort_Search n f)"
  using SearchFrom_boundary [of 0 n n f] by (auto simp: sort_Search_def)

lemma sort_Search_least:
  assumes "\<And>i j. i \<le> j \<Longrightarrow> j < n \<Longrightarrow> f i \<Longrightarrow> f j"
  shows "k < n \<Longrightarrow> f k \<longleftrightarrow> sort_Search n f \<le> k"
proof -
  assume k: "k < n"
  show "f k \<longleftrightarrow> sort_Search n f \<le> k"
  proof
    assume "f k"
    show "sort_Search n f \<le> k"
    proof (rule ccontr)
      assume "\<not> sort_Search n f \<le> k"
      then have "k \<le> sort_Search n f - 1" "0 < sort_Search n f" by auto
      with assms [of k "sort_Search n f - 1"] \<open>f k\<close> sort_Search_before sort_Search_le [of n f]
      show False by force
    qed
  next
    assume "sort_Search n f \<le> k"
    with k assms [of "sort_Search n f" k] sort_Search_at [of n f] show "f k" by simp
  qed
qed

end
