(* ===== verification/Float64.thy ===== *)
theory Float64
  imports Prelude Complex_Main
begin

text \<open>
  Go's \<open>float64\<close>, as far as the program uses it: IEEE 754 binary64 with rounding to nearest,
  ties to even.  A finite value is the rational it stands for; the sign of zero is not kept
  (nothing in the program observes it).  Every operation computes, so times and durations
  evaluate exactly as on the machine.
\<close>

section \<open>Rounding\<close>

datatype f64 = Fin rat | PInf | NInf | NaN

text \<open>The exponent of the leading bit of a positive integer and of a positive rational.\<close>

function ilog2 :: "int \<Rightarrow> nat" where
  "ilog2 n = (if n < 2 then 0 else Suc (ilog2 (n div 2)))"
  by pat_completeness auto
termination
  by (relation "measure nat") auto

declare ilog2.simps [simp del]

definition flog2 :: "rat \<Rightarrow> int" where
  "flog2 x =
     (case quotient_of x of (p, q) \<Rightarrow>
        let d = int (ilog2 p) - int (ilog2 q)
        in if 2 powi d \<le> x then d else d - 1)"

definition round_even :: "rat \<Rightarrow> int" where
  "round_even y =
     (let f = \<lfloor>y\<rfloor>; d = y - of_int f
      in if d < 1 / 2 then f else if 1 / 2 < d then f + 1 else if even f then f else f + 1)"

definition f64_exp :: "rat \<Rightarrow> int" where
  "f64_exp a = max (flog2 a - 52) (-1074)"

definition f64_round :: "rat \<Rightarrow> f64" where
  "f64_round x =
     (if x = 0 then Fin 0
      else let e = f64_exp \<bar>x\<bar>; y = of_int (round_even (\<bar>x\<bar> / 2 powi e)) * 2 powi e
           in if 0 < y \<and> 1023 < flog2 y then (if x < 0 then NInf else PInf)
              else Fin (if x < 0 then - y else y))"

section \<open>Operations\<close>

fun f64_sgn :: "f64 \<Rightarrow> int" where
  "f64_sgn (Fin a) = (if a < 0 then -1 else if 0 < a then 1 else 0)"
| "f64_sgn PInf = 1"
| "f64_sgn NInf = -1"
| "f64_sgn NaN = 0"

definition f64_inf :: "int \<Rightarrow> f64" where
  "f64_inf s = (if s < 0 then NInf else if 0 < s then PInf else NaN)"

fun f64_mul :: "f64 \<Rightarrow> f64 \<Rightarrow> f64" where
  "f64_mul (Fin a) (Fin b) = f64_round (a * b)"
| "f64_mul NaN y = NaN"
| "f64_mul x NaN = NaN"
| "f64_mul x y = f64_inf (f64_sgn x * f64_sgn y)"

fun f64_div :: "f64 \<Rightarrow> f64 \<Rightarrow> f64" where
  "f64_div (Fin a) (Fin b) = (if b = 0 then f64_inf (f64_sgn (Fin a)) else f64_round (a / b))"
| "f64_div NaN y = NaN"
| "f64_div x NaN = NaN"
| "f64_div (Fin a) y = Fin 0"
| "f64_div x (Fin b) = f64_inf (f64_sgn x * (if b < 0 then -1 else 1))"
| "f64_div x y = NaN"

fun f64_less :: "f64 \<Rightarrow> f64 \<Rightarrow> bool" where
  "f64_less (Fin a) (Fin b) = (a < b)"
| "f64_less NaN y = False"
| "f64_less x NaN = False"
| "f64_less x y = (x \<noteq> y \<and> (x = NInf \<or> y = PInf))"

definition f64_le :: "f64 \<Rightarrow> f64 \<Rightarrow> bool" where
  "f64_le x y = (f64_less x y \<or> x = y \<and> x \<noteq> NaN)"

fun f64_sub :: "f64 \<Rightarrow> f64 \<Rightarrow> f64" where
  "f64_sub (Fin a) (Fin b) = f64_round (a - b)"
| "f64_sub NaN y = NaN"
| "f64_sub x NaN = NaN"
| "f64_sub PInf y = (if y = PInf then NaN else PInf)"
| "f64_sub NInf y = (if y = NInf then NaN else NInf)"
| "f64_sub (Fin a) PInf = NInf"
| "f64_sub (Fin a) NInf = PInf"

definition f64_of_int :: "int \<Rightarrow> f64" where
  "f64_of_int n = f64_round (of_int n)"

text \<open>\<open>math.Round\<close>: half away from zero.\<close>

fun f64_Round :: "f64 \<Rightarrow> f64" where
  "f64_Round (Fin a) = Fin (of_int (if a < 0 then - \<lfloor>- a + 1 / 2\<rfloor> else \<lfloor>a + 1 / 2\<rfloor>))"
| "f64_Round x = x"

text \<open>\<open>uint64(x)\<close> truncates; outside the range of \<open>uint64\<close> the language leaves the result to
  the implementation, which is the parameter \<open>oor\<close>.\<close>

fun f64_to_u64 :: "(f64 \<Rightarrow> u64) \<Rightarrow> f64 \<Rightarrow> u64" where
  "f64_to_u64 oor (Fin a) =
     (if -1 < a \<and> a < 2 ^ 64 then (if a < 0 then 0 else word_of_int \<lfloor>a\<rfloor>) else oor (Fin a))"
| "f64_to_u64 oor x = oor x"

section \<open>Bit patterns\<close>

definition f64_of_bits :: "u64 \<Rightarrow> f64" where
  "f64_of_bits b =
     (let m = unat b mod 2 ^ 52; e = unat b div 2 ^ 52 mod 2 ^ 11; neg = 2 ^ 63 \<le> unat b;
          a = (if e = 0 then of_nat m * 2 powi (-1074)
               else of_nat (2 ^ 52 + m) * 2 powi (int e - 1075))
      in if e = 2047 then (if m \<noteq> 0 then NaN else if neg then NInf else PInf)
         else Fin (if neg then - a else a))"

definition f64_of_bits32 :: "u32 \<Rightarrow> f64" where
  "f64_of_bits32 b =
     (let m = unat b mod 2 ^ 23; e = unat b div 2 ^ 23 mod 2 ^ 8; neg = 2 ^ 31 \<le> unat b;
          a = (if e = 0 then of_nat m * 2 powi (-149)
               else of_nat (2 ^ 23 + m) * 2 powi (int e - 150))
      in if e = 255 then (if m \<noteq> 0 then NaN else if neg then NInf else PInf)
         else Fin (if neg then - a else a))"

definition f64_bits_abs :: "rat \<Rightarrow> nat" where
  "f64_bits_abs a =
     (if a = 0 then 0
      else let m = nat \<lfloor>a / 2 powi f64_exp a\<rfloor>
           in if m < 2 ^ 52 then m else nat (f64_exp a + 1075) * 2 ^ 52 + (m - 2 ^ 52))"

fun f64_bits :: "f64 \<Rightarrow> u64" where
  "f64_bits (Fin a) = word_of_nat ((if a < 0 then 2 ^ 63 else 0) + f64_bits_abs \<bar>a\<bar>)"
| "f64_bits PInf = 0x7FF0000000000000"
| "f64_bits NInf = 0xFFF0000000000000"
| "f64_bits NaN = 0x7FF8000000000001"

section \<open>The exponent\<close>

lemma ilog2_bounds: "1 \<le> n \<Longrightarrow> 2 ^ ilog2 n \<le> n \<and> n < 2 ^ Suc (ilog2 n)"
proof (induction n rule: ilog2.induct)
  case (1 n)
  show ?case
  proof (cases "n < 2")
    case True
    with "1.prems" show ?thesis by (simp add: ilog2.simps [of n])
  next
    case False
    then have "2 ^ ilog2 (n div 2) \<le> n div 2 \<and> n div 2 < 2 ^ Suc (ilog2 (n div 2))"
      using "1.IH" by auto
    with False show ?thesis by (simp add: ilog2.simps [of n]) presburger
  qed
qed

lemma powi_mono: "a \<le> b \<Longrightarrow> (2::rat) powi a \<le> 2 powi b"
  by (simp add: power_int_increasing)

lemma powi_strict_mono: "a < b \<Longrightarrow> (2::rat) powi a < 2 powi b"
  by (simp add: power_int_strict_increasing)

lemma powi_less_iff: "(2::rat) powi a < 2 powi b \<longleftrightarrow> a < b"
  using powi_mono powi_strict_mono by (metis linorder_not_less)

lemma powi_pos [simp]: "0 < (2::rat) powi a"
  by (simp add: zero_less_power_int)

lemma flog2_bounds:
  assumes "0 < x"
  shows "2 powi flog2 x \<le> x" "x < 2 powi (flog2 x + 1)"
proof -
  obtain p q where pq: "quotient_of x = (p, q)" by fastforce
  have q: "0 < q" and x: "x = of_int p / of_int q"
    using quotient_of_denom_pos [OF pq] quotient_of_div [OF pq] by auto
  have p: "0 < p" using assms q by (simp add: x zero_less_divide_iff)
  let ?a = "ilog2 p" and ?b = "ilog2 q"
  let ?d = "int ?a - int ?b"
  have "2 ^ ?a \<le> p" "p < 2 ^ Suc ?a" "2 ^ ?b \<le> q" "q < 2 ^ Suc ?b"
    using ilog2_bounds [of p] ilog2_bounds [of q] p q by auto
  then have bounds: "(2::rat) ^ ?a \<le> of_int p" "of_int p < (2::rat) ^ Suc ?a"
    "(2::rat) ^ ?b \<le> of_int q" "of_int q < (2::rat) ^ Suc ?b"
    by (metis of_int_le_iff of_int_less_iff of_int_numeral of_int_power)+
  have low: "2 powi (?d - 1) \<le> x"
  proof -
    have "(2::rat) powi (?d - 1) = 2 ^ ?a / 2 ^ Suc ?b"
      by (simp add: power_int_diff)
    also have "\<dots> \<le> of_int p / of_int q"
      using bounds p q by (intro frac_le) auto
    finally show ?thesis by (simp add: x)
  qed
  have high: "x < 2 powi (?d + 1)"
  proof -
    have "of_int p / of_int q < (2::rat) ^ Suc ?a / 2 ^ ?b"
      using bounds q p by (intro frac_less) auto
    also have "\<dots> = 2 powi (?d + 1)" by (simp add: power_int_diff power_int_add)
    finally show ?thesis by (simp add: x)
  qed
  show "2 powi flog2 x \<le> x" "x < 2 powi (flog2 x + 1)"
    using low high by (auto simp: flog2_def pq Let_def)
qed

lemma flog2_eqI:
  assumes "2 powi k \<le> x" "x < 2 powi (k + 1)"
  shows "flog2 x = k"
proof -
  have "0 < x" using assms(1) powi_pos [of k] by linarith
  with flog2_bounds [OF this] assms
  have "(2::rat) powi k < 2 powi (flog2 x + 1)" "(2::rat) powi flog2 x < 2 powi (k + 1)"
    by linarith+
  then show ?thesis by (simp add: powi_less_iff)
qed

lemma flog2_less_iff: "0 < x \<Longrightarrow> flog2 x < k \<longleftrightarrow> x < 2 powi k"
proof
  assume "0 < x" "flog2 x < k"
  then have "(2::rat) powi (flog2 x + 1) \<le> 2 powi k" by (intro powi_mono) simp
  with flog2_bounds(2) [OF \<open>0 < x\<close>] show "x < 2 powi k" by linarith
next
  assume "0 < x" "x < 2 powi k"
  with flog2_bounds(1) [OF \<open>0 < x\<close>] have "(2::rat) powi flog2 x < 2 powi k" by linarith
  then show "flog2 x < k" by (simp add: powi_less_iff)
qed

section \<open>Rounding\<close>

lemma round_even_of_int [simp]: "round_even (of_int n) = n"
  by (simp add: round_even_def)

lemma round_even_dist: "\<bar>of_int (round_even y) - y\<bar> \<le> 1 / 2"
proof -
  have "of_int \<lfloor>y\<rfloor> \<le> y" "y < of_int \<lfloor>y\<rfloor> + 1" by linarith+
  then show ?thesis by (auto simp: round_even_def Let_def abs_le_iff)
qed

lemma round_even_mono: "x \<le> y \<Longrightarrow> round_even x \<le> round_even y"
proof -
  assume "x \<le> y"
  then have "\<lfloor>x\<rfloor> \<le> \<lfloor>y\<rfloor>" by (rule floor_mono)
  then consider "\<lfloor>x\<rfloor> = \<lfloor>y\<rfloor>" | "\<lfloor>x\<rfloor> + 1 \<le> \<lfloor>y\<rfloor>" by linarith
  then show ?thesis
  proof cases
    case 1
    with \<open>x \<le> y\<close> show ?thesis by (auto simp: round_even_def Let_def)
  next
    case 2
    then show ?thesis by (auto simp: round_even_def Let_def)
  qed
qed

text \<open>A positive value that \<open>float64\<close> holds exactly: a 53-bit integer times a power of two
  in the exponent range.\<close>

definition f64_repr :: "rat \<Rightarrow> bool" where
  "f64_repr x \<longleftrightarrow>
     (\<exists>m j. x = of_int m * 2 powi j \<and> \<bar>m\<bar> < 2 ^ 53 \<and> -1074 \<le> j \<and> \<bar>x\<bar> < 2 powi 1024)"

lemma powi_nonneg_int: "0 \<le> k \<Longrightarrow> (2::rat) powi k = of_int (2 ^ nat k)"
  by (simp add: power_int_def)

lemma scaled_to_int:
  fixes x :: rat
  assumes "x = of_int m * 2 powi j" "e \<le> j"
  shows "\<exists>n. x / 2 powi e = of_int n"
proof -
  have "x / 2 powi e = of_int m * 2 powi (j - e)"
    by (simp add: assms(1) power_int_diff)
  also have "\<dots> = of_int (m * 2 ^ nat (j - e))"
    using assms(2) by (simp add: powi_nonneg_int)
  finally show ?thesis by blast
qed

lemma repr_exp_le:
  assumes "0 < x" "x = of_int m * 2 powi j" "\<bar>m\<bar> < 2 ^ 53" "-1074 \<le> j"
  shows "f64_exp x \<le> j"
proof -
  have "of_int m < (2::rat) ^ 53"
    using assms(3) by (metis abs_less_iff of_int_less_iff of_int_numeral of_int_power)
  then have "x < 2 ^ 53 * 2 powi j" by (simp add: assms(2))
  also have "\<dots> = 2 powi (j + 53)" by (simp add: power_int_add)
  finally have "flog2 x < j + 53" using assms(1) by (simp add: flog2_less_iff)
  with assms(4) show ?thesis by (simp add: f64_exp_def)
qed

lemma f64_round_repr:
  assumes "f64_repr x"
  shows "f64_round x = Fin x"
proof (cases "x = 0")
  case False
  obtain m j where mj: "x = of_int m * 2 powi j" "\<bar>m\<bar> < 2 ^ 53" "-1074 \<le> j"
    and lt: "\<bar>x\<bar> < 2 powi 1024"
    using assms by (auto simp: f64_repr_def)
  have abs: "\<bar>x\<bar> = of_int \<bar>m\<bar> * 2 powi j" by (simp add: mj(1) abs_mult)
  have pos: "0 < \<bar>x\<bar>" using False by simp
  obtain n where n: "\<bar>x\<bar> / 2 powi f64_exp \<bar>x\<bar> = of_int n"
    using scaled_to_int [OF abs repr_exp_le [OF pos abs]] mj by auto
  then have v: "of_int (round_even (\<bar>x\<bar> / 2 powi f64_exp \<bar>x\<bar>)) * 2 powi f64_exp \<bar>x\<bar> = \<bar>x\<bar>"
    by (metis nonzero_eq_divide_eq less_irrefl powi_pos round_even_of_int)
  have "\<not> 1023 < flog2 \<bar>x\<bar>" using flog2_less_iff [OF pos, of 1024] lt by linarith
  with False show ?thesis unfolding f64_round_def Let_def v by simp
qed (simp add: f64_round_def)

lemma f64_repr_of_int:
  assumes "\<bar>n\<bar> < 2 ^ 53"
  shows "f64_repr (of_int n)"
proof -
  have "\<bar>of_int n\<bar> < (2::rat) ^ 53"
    using assms by (metis of_int_abs of_int_less_iff of_int_numeral of_int_power)
  also have "(2::rat) ^ 53 = 2 powi 53" by simp
  also have "(2::rat) powi 53 \<le> 2 powi 1024" by (rule powi_mono) simp
  finally show ?thesis
    unfolding f64_repr_def using assms by (intro exI [of _ n] exI [of _ 0]) simp
qed

lemma f64_of_int_exact: "\<bar>n\<bar> < 2 ^ 53 \<Longrightarrow> f64_of_int n = Fin (of_int n)"
  by (simp add: f64_of_int_def f64_round_repr f64_repr_of_int)

lemma f64_round_numeral: "numeral k < (2 ^ 53 :: int) \<Longrightarrow> f64_round (numeral k) = Fin (numeral k)"
  using f64_round_repr [OF f64_repr_of_int [of "numeral k"]] by simp

text \<open>Rounding a value in the normal range errs by at most one part in \<open>2 ^ 53\<close>.\<close>

lemma f64_round_error:
  assumes "2 powi (-1022) \<le> x" "x < 2 powi 1023"
  obtains y where "f64_round x = Fin y" "\<bar>y - x\<bar> \<le> x / 2 ^ 53" "0 < y"
proof -
  have x: "0 < x" using assms(1) powi_pos [of "-1022"] by linarith
  have "\<not> flog2 x < -1022" using assms(1) by (simp add: flog2_less_iff [OF x] not_less)
  then have e: "f64_exp x = flog2 x - 52" by (simp add: f64_exp_def)
  let ?u = "2 powi f64_exp x :: rat"
  let ?y = "of_int (round_even (x / ?u)) * ?u"
  have u: "?u = 2 powi flog2 x / 2 ^ 52" by (simp add: e power_int_diff)
  have "?y - x = (of_int (round_even (x / ?u)) - x / ?u) * ?u"
    using powi_pos [of "f64_exp x"] by (simp add: left_diff_distrib)
  then have "\<bar>?y - x\<bar> = \<bar>of_int (round_even (x / ?u)) - x / ?u\<bar> * ?u"
    using powi_pos [of "f64_exp x"] by (simp only: abs_mult abs_of_pos)
  also have "\<dots> \<le> 1 / 2 * ?u"
    by (intro mult_right_mono round_even_dist) (simp add: less_imp_le)
  also have "\<dots> = 2 powi flog2 x / 2 ^ 53" by (simp add: u)
  also have "\<dots> \<le> x / 2 ^ 53" by (intro divide_right_mono flog2_bounds x) simp
  finally have err: "\<bar>?y - x\<bar> \<le> x / 2 ^ 53" .
  moreover have "x / 2 ^ 53 < x" using x by simp
  ultimately have y: "0 < ?y" "?y < 2 * x" by linarith+
  have "2 * x < 2 * 2 powi 1023" using assms(2) by simp
  also have "\<dots> = (2::rat) powi 1024"
    using power_int_add [of "2::rat" 1023 1] by simp
  finally have "\<not> 1023 < flog2 ?y"
    using flog2_less_iff [OF y(1), of 1024] y(2) by linarith
  with x have "f64_round x = Fin ?y" by (simp add: f64_round_def Let_def)
  with err y(1) show ?thesis by (intro that)
qed

section \<open>Bit patterns round trip\<close>

lemma f64_bits_abs_fields:
  assumes "f64_repr a" "0 < a"
  obtains n where "a = of_nat n * 2 powi f64_exp a" "n < 2 ^ 53"
    "n < 2 ^ 52 \<Longrightarrow> f64_exp a = -1074" "-1074 \<le> f64_exp a" "f64_exp a \<le> 971"
    "f64_bits_abs a = (if n < 2 ^ 52 then n else nat (f64_exp a + 1075) * 2 ^ 52 + (n - 2 ^ 52))"
proof -
  let ?e = "f64_exp a"
  obtain m j where mj: "a = of_int m * 2 powi j" "\<bar>m\<bar> < 2 ^ 53" "-1074 \<le> j"
    and lt: "a < 2 powi 1024"
    using assms by (auto simp: f64_repr_def)
  obtain k where k: "a / 2 powi ?e = of_int k"
    using scaled_to_int [OF mj(1) repr_exp_le [OF assms(2) mj]] by auto
  have "0 < a / 2 powi ?e" using assms(2) by simp
  then have kpos: "0 < k" unfolding k by simp
  define n where "n = nat k"
  have kn: "k = int n" using kpos by (simp add: n_def)
  have a: "a = of_nat n * 2 powi ?e"
    using k powi_pos [of ?e] by (simp add: kn nonzero_divide_eq_eq less_imp_neq [symmetric])
  have e_ge: "-1074 \<le> ?e" "flog2 a - 52 \<le> ?e" by (simp_all add: f64_exp_def)
  have "flog2 a < 1024" using lt by (simp add: flog2_less_iff assms(2))
  then have e_le: "?e \<le> 971" by (simp add: f64_exp_def)
  have "a < 2 powi (flog2 a + 1)" by (rule flog2_bounds) fact
  also have "\<dots> \<le> 2 powi (?e + 53)" using e_ge by (intro powi_mono) simp
  also have "\<dots> = 2 ^ 53 * 2 powi ?e" by (simp add: power_int_add)
  finally have "of_nat n * 2 powi ?e < 2 ^ 53 * (2::rat) powi ?e" using a by simp
  then have "of_nat n < (2::rat) ^ 53" by (simp only: mult_less_cancel_right_pos [OF powi_pos])
  then have n53: "n < 2 ^ 53" by (metis of_nat_less_iff of_nat_numeral of_nat_power)
  have sub: "?e = -1074" if "n < 2 ^ 52"
  proof (rule ccontr)
    assume "?e \<noteq> -1074"
    then have e: "?e = flog2 a - 52" by (simp add: f64_exp_def max_def split: if_splits)
    have "of_nat n < (2::rat) ^ 52" using that by (metis of_nat_less_iff of_nat_numeral of_nat_power)
    then have "a < 2 ^ 52 * 2 powi ?e" by (subst a) simp
    also have "\<dots> = 2 powi flog2 a" by (simp add: e power_int_diff)
    finally show False using flog2_bounds(1) [OF assms(2)] by simp
  qed
  have "f64_bits_abs a = (if n < 2 ^ 52 then n else nat (?e + 1075) * 2 ^ 52 + (n - 2 ^ 52))"
    using assms(2) by (simp add: f64_bits_abs_def k kn Let_def)
  with a n53 sub e_ge e_le show ?thesis by (intro that)
qed

lemma digits_below:
  fixes k h m :: nat
  assumes "m < k"
  shows "(h * k + m) mod k = m" "(h * k + m) div k = h"
  using assms by simp_all

lemma f64_of_bits_fields:
  fixes s :: bool
  assumes "E < 2047" "M < 2 ^ 52"
  defines "N \<equiv> (of_bool s * 2 ^ 11 + E) * 2 ^ 52 + M"
  shows "N = of_bool s * 2 ^ 63 + (E * 2 ^ 52 + M)" "E * 2 ^ 52 + M < 2 ^ 63"
    and "f64_of_bits (word_of_nat N) =
      (let a = (if E = 0 then of_nat M * 2 powi (-1074)
                else of_nat (2 ^ 52 + M) * 2 powi (int E - 1075))
       in Fin (if s then - a else a))"
proof -
  show N: "N = of_bool s * 2 ^ 63 + (E * 2 ^ 52 + M)"
    by (simp add: N_def add_mult_distrib)
  have "(E + 1) * 2 ^ 52 \<le> 2 ^ 11 * (2 ^ 52 :: nat)"
    using assms(1) by (intro mult_le_mono1) simp
  with assms(2) show lt: "E * 2 ^ 52 + M < 2 ^ 63" by simp
  then have "N < 2 ^ 64" by (cases s) (simp_all add: N)
  then have uN: "unat (word_of_nat N :: u64) = N"
    by (simp add: unat_of_nat)
  have m: "N mod 2 ^ 52 = M" and d: "N div 2 ^ 52 = of_bool s * 2 ^ 11 + E"
    unfolding N_def by (rule digits_below, fact)+
  have e: "(of_bool s * 2 ^ 11 + E) mod 2 ^ 11 = E"
    by (rule digits_below) (use assms(1) in simp)
  have neg: "2 ^ 63 \<le> N \<longleftrightarrow> s" using lt by (cases s) (simp_all add: N)
  have E: "E \<noteq> 2047" using assms(1) by simp
  show "f64_of_bits (word_of_nat N) =
      (let a = (if E = 0 then of_nat M * 2 powi (-1074)
                else of_nat (2 ^ 52 + M) * 2 powi (int E - 1075))
       in Fin (if s then - a else a))"
    unfolding f64_of_bits_def Let_def uN m d e neg if_not_P [OF E] ..
qed

lemma f64_of_bits_abs:
  assumes "f64_repr a" "0 \<le> a"
  shows "f64_bits_abs a < 2 ^ 63"
    and "f64_of_bits (word_of_nat (of_bool s * 2 ^ 63 + f64_bits_abs a)) =
      Fin (if s then - a else a)"
proof -
  obtain E M where EM: "E < 2047" "M < 2 ^ 52" "f64_bits_abs a = E * 2 ^ 52 + M"
    and a: "(if E = 0 then of_nat M * 2 powi (-1074)
        else of_nat (2 ^ 52 + M) * 2 powi (int E - 1075)) = a"
  proof (cases "a = 0")
    case True
    then show ?thesis by (intro that [of 0 0]) (simp_all add: f64_bits_abs_def)
  next
    case False
    with assms(2) have "0 < a" by simp
    then obtain n where n: "a = of_nat n * 2 powi f64_exp a" "n < 2 ^ 53"
      "n < 2 ^ 52 \<Longrightarrow> f64_exp a = -1074" "-1074 \<le> f64_exp a" "f64_exp a \<le> 971"
      and b: "f64_bits_abs a
        = (if n < 2 ^ 52 then n else nat (f64_exp a + 1075) * 2 ^ 52 + (n - 2 ^ 52))"
      using f64_bits_abs_fields [OF assms(1)] by blast
    show ?thesis
    proof (cases "n < 2 ^ 52")
      case True
      with n(1,3) b show ?thesis by (intro that [of 0 n]) simp_all
    next
      case False
      let ?E = "nat (f64_exp a + 1075)" and ?M = "n - 2 ^ 52"
      have "?E \<noteq> 0" "int ?E - 1075 = f64_exp a" "2 ^ 52 + ?M = n" "?E < 2047"
        using False n(4,5) by auto
      moreover have "?M < 2 ^ 52" using n(2) by simp
      moreover have "f64_bits_abs a = ?E * 2 ^ 52 + ?M" using b False by (simp only: if_False)
      ultimately show ?thesis
        using n(1) by (intro that [of ?E ?M]) (simp_all only: if_False)
    qed
  qed
  note f = f64_of_bits_fields [OF EM(1,2)]
  show "f64_bits_abs a < 2 ^ 63" using f(2) by (simp only: EM(3))
  show "f64_of_bits (word_of_nat (of_bool s * 2 ^ 63 + f64_bits_abs a)) =
      Fin (if s then - a else a)"
    unfolding EM(3) f(1) [symmetric] f(3) a Let_def ..
qed

lemma f64_of_bits_f64_bits:
  assumes "f64_repr x"
  shows "f64_of_bits (f64_bits (Fin x)) = Fin x"
proof -
  have "f64_repr \<bar>x\<bar>"
  proof -
    obtain m j where mj: "x = of_int m * 2 powi j" "\<bar>m\<bar> < 2 ^ 53" "-1074 \<le> j"
      and lt: "\<bar>x\<bar> < 2 powi 1024"
      using assms unfolding f64_repr_def by blast
    have "\<bar>x\<bar> = of_int \<bar>m\<bar> * 2 powi j" by (simp add: mj(1) abs_mult)
    with mj lt show ?thesis
      unfolding f64_repr_def by (intro exI [of _ "\<bar>m\<bar>"] exI [of _ j] conjI) simp_all
  qed
  then have "f64_of_bits (word_of_nat (of_bool (x < 0) * 2 ^ 63 + f64_bits_abs \<bar>x\<bar>)) =
      Fin (if x < 0 then - \<bar>x\<bar> else \<bar>x\<bar>)"
    by (rule f64_of_bits_abs) simp
  moreover have "of_bool (x < 0) * 2 ^ 63 = (if x < 0 then 2 ^ 63 else 0 :: nat)"
    by (simp only: of_bool_def if_distribR split: if_split) simp
  moreover have "(if x < 0 then - \<bar>x\<bar> else \<bar>x\<bar>) = x" by simp
  ultimately show ?thesis by (simp only: f64_bits.simps)
qed

text \<open>What rounding returns is representable, so it survives being written to a file.\<close>

lemma f64_repr_scaled:
  assumes "0 \<le> k" "k \<le> 2 ^ 53" "-1074 \<le> e" "\<bar>of_int k * 2 powi e\<bar> < (2::rat) powi 1024"
  shows "f64_repr (of_int k * 2 powi e)"
proof (cases "k < 2 ^ 53")
  case True
  with assms show ?thesis unfolding f64_repr_def by (intro exI [of _ k] exI [of _ e]) simp
next
  case False
  then have k: "k = 2 ^ 53" using assms(2) by simp
  have eq: "of_int k * 2 powi e = of_int 1 * (2::rat) powi (e + 53)"
    by (simp add: k power_int_add)
  show ?thesis
    unfolding f64_repr_def
    by (intro exI [of _ 1] exI [of _ "e + 53"] conjI eq assms(4)) (use assms(3) in simp_all)
qed

lemma f64_repr_uminus: "f64_repr x \<Longrightarrow> f64_repr (- x)"
  unfolding f64_repr_def
  by (elim exE conjE, rule_tac x = "- m" in exI, rule_tac x = j in exI) simp

lemma f64_round_is_repr:
  assumes "f64_round x = Fin y"
  shows "f64_repr y"
proof (cases "x = 0")
  case True
  with assms have "y = of_int 0" by (simp add: f64_round_def)
  then show ?thesis using f64_repr_of_int [of 0] by simp
next
  case False
  let ?e = "f64_exp \<bar>x\<bar>"
  let ?k = "round_even (\<bar>x\<bar> / 2 powi ?e)"
  let ?y = "of_int ?k * 2 powi ?e :: rat"
  have pos: "0 < \<bar>x\<bar>" using False by simp
  have e: "-1074 \<le> ?e" "flog2 \<bar>x\<bar> - 52 \<le> ?e" by (simp_all add: f64_exp_def)
  have "\<bar>x\<bar> < 2 powi (flog2 \<bar>x\<bar> + 1)" by (rule flog2_bounds) fact
  also have "\<dots> \<le> 2 powi (?e + 53)" using e by (intro powi_mono) simp
  also have "\<dots> = 2 ^ 53 * 2 powi ?e" by (simp add: power_int_add)
  finally have "\<bar>x\<bar> / 2 powi ?e \<le> 2 ^ 53"
    by (simp only: pos_divide_le_eq [OF powi_pos] less_imp_le)
  then have "?k \<le> round_even (of_int (2 ^ 53))"
    by (intro round_even_mono) simp
  then have k: "?k \<le> 2 ^ 53" by (simp only: round_even_of_int)
  have "round_even (of_int 0) \<le> ?k"
    by (intro round_even_mono) simp
  then have k0: "0 \<le> ?k" by (simp only: round_even_of_int)
  have y: "\<not> (0 < ?y \<and> 1023 < flog2 ?y)" "y = (if x < 0 then - ?y else ?y)"
    using assms False unfolding f64_round_def Let_def by (auto split: if_splits)
  have "0 \<le> ?y" using k0 powi_pos [of ?e] by (simp add: zero_le_mult_iff)
  moreover have "?y < 2 powi 1024" if "0 < ?y"
    using y(1) that flog2_less_iff [OF that, of 1024] by linarith
  moreover have "(0::rat) < 2 powi 1024" by (rule powi_pos)
  ultimately have "\<bar>?y\<bar> < 2 powi 1024" by linarith
  then have "f64_repr ?y" by (intro f64_repr_scaled k k0 e)
  with y(2) show ?thesis by (auto intro: f64_repr_uminus)
qed

text \<open>A finite product or quotient is therefore representable too.\<close>

lemma f64_mul_repr: "f64_mul x y = Fin z \<Longrightarrow> f64_repr z"
  by (cases x; cases y) (auto simp: f64_inf_def intro: f64_round_is_repr split: if_splits)

lemma f64_div_repr: "f64_div x y = Fin z \<Longrightarrow> f64_repr z"
proof -
  have zero: "f64_repr 0" using f64_repr_of_int [of 0] by simp
  show "f64_div x y = Fin z \<Longrightarrow> f64_repr z"
    using zero by (cases x; cases y)
      (auto simp: f64_inf_def intro: f64_round_is_repr split: if_splits)
qed

end
