(* ===== verification/Ebml.thy ===== *)
theory Ebml
  imports Prelude Float64
begin

text \<open>
  \<^verbatim>\<open>internal/ebml/ebml.go\<close>: the EBML element framing of Matroska.  An element is an ID (a
  variable-length integer whose marker bit is kept), a size (a variable-length integer whose
  all-ones value is reserved for "unknown") and a payload.  The readers come first, then the
  writers, then the laws that connect them: every writer is undone by its reader whatever
  bytes follow, and splitting a buffer into elements loses no byte.
\<close>

section \<open>Constants and types\<close>

abbreviation IDEBML :: u32 where "IDEBML \<equiv> 0x1A45DFA3"
abbreviation IDSegment :: u32 where "IDSegment \<equiv> 0x18538067"
abbreviation IDSeekHead :: u32 where "IDSeekHead \<equiv> 0x114D9B74"
abbreviation IDSeek :: u32 where "IDSeek \<equiv> 0x4DBB"
abbreviation IDSeekID :: u32 where "IDSeekID \<equiv> 0x53AB"
abbreviation IDSeekPosition :: u32 where "IDSeekPosition \<equiv> 0x53AC"
abbreviation IDInfo :: u32 where "IDInfo \<equiv> 0x1549A966"
abbreviation IDTimestampScale :: u32 where "IDTimestampScale \<equiv> 0x2AD7B1"
abbreviation IDDuration :: u32 where "IDDuration \<equiv> 0x4489"
abbreviation IDTitle :: u32 where "IDTitle \<equiv> 0x7BA9"
abbreviation IDTracks :: u32 where "IDTracks \<equiv> 0x1654AE6B"
abbreviation IDTrackEntry :: u32 where "IDTrackEntry \<equiv> 0xAE"
abbreviation IDTrackNumber :: u32 where "IDTrackNumber \<equiv> 0xD7"
abbreviation IDTrackType :: u32 where "IDTrackType \<equiv> 0x83"
abbreviation IDCues :: u32 where "IDCues \<equiv> 0x1C53BB6B"
abbreviation IDCuePoint :: u32 where "IDCuePoint \<equiv> 0xBB"
abbreviation IDCueTime :: u32 where "IDCueTime \<equiv> 0xB3"
abbreviation IDCueTrackPositions :: u32 where "IDCueTrackPositions \<equiv> 0xB7"
abbreviation IDCueTrack :: u32 where "IDCueTrack \<equiv> 0xF7"
abbreviation IDCueClusterPosition :: u32 where "IDCueClusterPosition \<equiv> 0xF1"
abbreviation IDCluster :: u32 where "IDCluster \<equiv> 0x1F43B675"
abbreviation IDTimestamp :: u32 where "IDTimestamp \<equiv> 0xE7"
abbreviation IDSimpleBlock :: u32 where "IDSimpleBlock \<equiv> 0xA3"
abbreviation IDBlockGroup :: u32 where "IDBlockGroup \<equiv> 0xA0"
abbreviation IDBlock :: u32 where "IDBlock \<equiv> 0xA1"
abbreviation IDEncryptedBlock :: u32 where "IDEncryptedBlock \<equiv> 0xAF"
abbreviation IDCRC32 :: u32 where "IDCRC32 \<equiv> 0xBF"
abbreviation IDVoid :: u32 where "IDVoid \<equiv> 0xEC"
abbreviation IDAttachments :: u32 where "IDAttachments \<equiv> 0x1941A469"
abbreviation IDChapters :: u32 where "IDChapters \<equiv> 0x1043A770"
abbreviation IDTags :: u32 where "IDTags \<equiv> 0x1254C367"

definition UnknownSize :: int where
  "UnknownSize = -1"

datatype ebml_err =
    ErrShort
  | InvalidID byte
  | InvalidSize byte
  | SizeOverflow u64
  | UnknownInSized u32
  | Overrun u32
  | UintWidth nat
  | FloatWidth nat
  | ReadErr io_err

record header =
  h_id :: u32
  h_size :: int
  h_len :: nat

text \<open>
  A child element is a pair of slices of its parent's buffer.  \<open>e_pos\<close> is where the raw
  slice starts in that buffer: Go keeps this in the slice's capacity, and \<open>readBlocks\<close> uses
  it to find where a block's payload lies in its element.
\<close>

record element =
  e_id :: u32
  e_data :: "byte list"
  e_raw :: "byte list"
  e_pos :: nat

section \<open>Readers\<close>

definition vintLen :: "byte \<Rightarrow> nat" where
  "vintLen b0 =
     (case find (\<lambda>n. b0 AND drop_bit (n - 1) 0x80 \<noteq> 0) [1..<9] of Some n \<Rightarrow> n | None \<Rightarrow> 0)"

definition ReadID :: "byte list \<Rightarrow> ebml_err + u32 \<times> nat" where
  "ReadID b =
     (if b = [] then Inl ErrShort
      else let n = vintLen (hd b) in
        if n = 0 \<or> 4 < n then Inl (InvalidID (hd b))
        else if length b < n then Inl ErrShort
        else Inr (foldl shift_in 0 (take n b), n))"

definition ReadSize :: "byte list \<Rightarrow> ebml_err + int \<times> nat" where
  "ReadSize b =
     (if b = [] then Inl ErrShort
      else let n = vintLen (hd b) in
        if n = 0 then Inl (InvalidSize (hd b))
        else if length b < n then Inl ErrShort
        else let m = drop_bit n 0xFF; v0 = ucast (hd b) AND m;
                 (v, allOnes) = foldl (\<lambda>(v, ones) c. (shift_in v c, ones \<and> c = 0xFF))
                   (v0 :: u64, v0 = m) (take (n - 1) (tl b))
             in if allOnes then Inr (UnknownSize, n)
                else if 0x7FFFFFFFFFFFFFFF < v then Inl (SizeOverflow v)
                else Inr (uint v, n))"

definition ParseHeader :: "byte list \<Rightarrow> ebml_err + header" where
  "ParseHeader b =
     (case ReadID b of Inl e \<Rightarrow> Inl e
      | Inr (i, il) \<Rightarrow>
        (case ReadSize (drop il b) of Inl e \<Rightarrow> Inl e
         | Inr (sz, sl) \<Rightarrow> Inr \<lparr>h_id = i, h_size = sz, h_len = il + sl\<rparr>))"

definition ReadHeaderAt :: "reader \<Rightarrow> int \<Rightarrow> ebml_err + header" where
  "ReadHeaderAt r off =
     (case r off 12 of (buf, err) \<Rightarrow>
        (case (buf, err) of
           ([], Some e) \<Rightarrow> Inl (ReadErr e)
         | _ \<Rightarrow> ParseHeader buf))"

section \<open>The length marker\<close>

lemma vintLen_table:
  "list_all (\<lambda>k. vintLen (of_nat k) =
     (if 128 \<le> k then 1 else if 64 \<le> k then 2 else if 32 \<le> k then 3 else if 16 \<le> k then 4
      else if 8 \<le> k then 5 else if 4 \<le> k then 6 else if 2 \<le> k then 7 else if 1 \<le> k then 8
      else 0)) [0..<256]"
  by code_simp

lemma vintLen_unat:
  "vintLen b =
     (if 128 \<le> unat b then 1 else if 64 \<le> unat b then 2 else if 32 \<le> unat b then 3
      else if 16 \<le> unat b then 4 else if 8 \<le> unat b then 5 else if 4 \<le> unat b then 6
      else if 2 \<le> unat b then 7 else if 1 \<le> unat b then 8 else 0)"
proof -
  have "unat b \<in> set [0..<256]" using unat_byte_lt [of b] by simp
  from vintLen_table [unfolded list_all_iff, THEN bspec, OF this] show ?thesis by simp
qed

lemma vintLen_le_8: "vintLen b \<le> 8"
  by (simp add: vintLen_unat)

lemma upto_8: "n \<le> 8 \<Longrightarrow> n \<in> {0, 1, 2, 3, 4, 5, 6, 7, 8::nat}"
  by auto

lemma vintLen_marker:
  assumes "1 \<le> n" "n \<le> 8" "x < 2 ^ (8 - n)" "unat b = 2 ^ (8 - n) + x"
  shows "vintLen b = n"
  using upto_8 [OF assms(2)] assms by (auto simp: vintLen_unat)

lemma vintLen_bounds:
  assumes "vintLen b = n" "n \<noteq> 0"
  shows "2 ^ (8 - n) \<le> unat b" and "unat b < 2 ^ (9 - n)"
  using assms unat_byte_lt [of b] by (auto simp: vintLen_unat split: if_splits)

text \<open>The mask \<open>0xFF >> n\<close> that strips the marker.\<close>

lemma size_mask: "n \<le> 8 \<Longrightarrow> drop_bit n (0xFF :: u64) = mask (8 - n)"
  using upto_8 [of n] by (auto simp: mask_eq_exp_minus_1)

lemma unat_strip_marker:
  assumes "n \<le> 8"
  shows "unat ((ucast (c :: byte) :: u64) AND drop_bit n 0xFF) = unat c mod 2 ^ (8 - n)"
  using assms
  by (simp add: size_mask unsigned_take_bit_eq word_nat flip: take_bit_eq_mask take_bit_eq_mod)

lemma unat_size_mask: "n \<le> 8 \<Longrightarrow> unat (drop_bit n (0xFF :: u64)) = 2 ^ (8 - n) - 1"
  using upto_8 [of n] by (auto simp: word_nat)

lemma foldl_pair:
  "foldl (\<lambda>(v, ones) c. (f v c, ones \<and> P c)) (v, b) cs = (foldl f v cs, b \<and> list_all P cs)"
  by (induction cs arbitrary: v b) auto

lemma be_nat_all_ones: "be_nat cs = 256 ^ length cs - 1 \<longleftrightarrow> list_all (\<lambda>c. c = 0xFF) cs"
proof (induction cs)
  case (Cons c cs)
  have "unat c = 255 \<longleftrightarrow> c = 0xFF" by (simp add: word_unat_eq_iff)
  with Cons show ?case
    using top_digits [OF unat_byte_lt [of c] be_nat_bound [of cs]] by (simp add: be_nat_Cons)
qed simp

section \<open>What the size reader computes\<close>

lemma marker_shift: "1 \<le> n \<Longrightarrow> n \<le> 8 \<Longrightarrow> (2::nat) ^ (8 - n) * 256 ^ (n - 1) = 2 ^ (7 * n)"
  using upto_8 [of n] by auto

lemma size_value_bound:
  assumes "1 \<le> n" "n \<le> 8" "length cs = n - 1"
  shows "unat c mod 2 ^ (8 - n) * 256 ^ (n - 1) + be_nat cs < 2 ^ (7 * n)"
proof -
  let ?a = "unat c mod 2 ^ (8 - n)" and ?k = "256 ^ (n - 1) :: nat"
  have "?a + 1 \<le> 2 ^ (8 - n)" by (simp add: Suc_le_eq)
  then have "(?a + 1) * ?k \<le> 2 ^ (8 - n) * ?k" by (rule mult_le_mono1)
  then have "?a * ?k + ?k \<le> 2 ^ (7 * n)"
    by (simp only: marker_shift [OF assms(1,2)] add_mult_distrib nat_mult_1)
  moreover have "be_nat cs < ?k" using be_nat_bound [of cs] assms(3) by simp
  ultimately show ?thesis by linarith
qed

lemma ReadSize_eq:
  assumes n: "vintLen c = n" "1 \<le> n" and cs: "length cs = n - 1"
  defines "v \<equiv> unat c mod 2 ^ (8 - n) * 256 ^ (n - 1) + be_nat cs"
  shows "ReadSize (c # cs @ rest) = Inr (if v = 2 ^ (7 * n) - 1 then UnknownSize else int v, n)"
proof -
  have n8: "n \<le> 8" using n vintLen_le_8 [of c] by simp
  let ?m = "drop_bit n 0xFF :: u64" and ?a = "unat c mod 2 ^ (8 - n)"
  let ?w = "ucast c AND ?m :: u64"
  let ?v = "foldl shift_in ?w cs"
  have v_lt: "v < 2 ^ (7 * n)" unfolding v_def by (rule size_value_bound) fact+
  also have "(2::nat) ^ (7 * n) \<le> 2 ^ 56" using n8 by (intro power_increasing) auto
  finally have v56: "v < 2 ^ 56" .
  have uv: "unat ?v = v"
    using v56 cs by (simp add: unat_foldl_shift_in unat_strip_marker [OF n8] v_def)
  have "?w = ?m \<longleftrightarrow> ?a = 2 ^ (8 - n) - 1"
    by (simp only: word_unat_eq_iff unat_strip_marker [OF n8] unat_size_mask [OF n8])
  moreover have "list_all (\<lambda>c. c = 0xFF) cs \<longleftrightarrow> be_nat cs = 256 ^ (n - 1) - 1"
    using be_nat_all_ones [of cs] cs by simp
  moreover have "v = 2 ^ (7 * n) - 1 \<longleftrightarrow> ?a = 2 ^ (8 - n) - 1 \<and> be_nat cs = 256 ^ (n - 1) - 1"
    unfolding v_def marker_shift [OF n(2) n8, symmetric]
    by (rule top_digits) (use be_nat_bound [of cs] cs in auto)
  ultimately have ones: "?w = ?m \<and> list_all (\<lambda>c. c = 0xFF) cs \<longleftrightarrow> v = 2 ^ (7 * n) - 1"
    by simp
  have small: "\<not> 0x7FFFFFFFFFFFFFFF < ?v"
    using v56 by (simp add: word_less_nat_alt uv)
  have "uint ?v = int v" unfolding uv [symmetric] by simp
  then show ?thesis
    using n cs ones small
    by (auto simp add: ReadSize_def Let_def foldl_pair)
qed

text \<open>Every outcome of the size reader is one of these; a decoded size is below \<open>2 ^ 56\<close>,
  so the overflow check of the code never fires.\<close>

lemma ReadSize_cases:
  obtains (short) "ReadSize b = Inl ErrShort" "length b < 8"
  | (invalid) c where "ReadSize b = Inl (InvalidSize c)" "b \<noteq> []" "hd b = c" "vintLen c = 0"
  | (size) c cs rest n where "b = c # cs @ rest" "vintLen c = n" "1 \<le> n" "n \<le> 8"
      "length cs = n - 1"
proof (cases b)
  case Nil
  then show ?thesis by (intro short) (simp_all add: ReadSize_def)
next
  case (Cons c bs)
  let ?n = "vintLen c"
  consider "?n = 0" | "?n \<noteq> 0" "length b < ?n" | "1 \<le> ?n" "?n \<le> length b" by linarith
  then show ?thesis
  proof cases
    case 1
    with Cons show ?thesis by (intro invalid) (simp_all add: ReadSize_def Let_def)
  next
    case 2
    with Cons vintLen_le_8 [of c] show ?thesis
      by (intro short) (simp_all add: ReadSize_def Let_def)
  next
    case 3
    with Cons show ?thesis
      by (intro size [of c "take (?n - 1) bs" "drop (?n - 1) bs" ?n])
        (simp_all add: vintLen_le_8 le_diff_conv)
  qed
qed

lemma ReadSize_bounds:
  assumes "ReadSize b = Inr (s, n)"
  shows "1 \<le> n" "n \<le> 8" "n \<le> length b" "s = UnknownSize \<or> 0 \<le> s \<and> s < 2 ^ 56"
proof -
  have "1 \<le> n \<and> n \<le> 8 \<and> n \<le> length b \<and> (s = UnknownSize \<or> 0 \<le> s \<and> s < 2 ^ 56)"
  proof (cases rule: ReadSize_cases [of b])
    case (size c cs rest m)
    let ?v = "unat c mod 2 ^ (8 - m) * 256 ^ (m - 1) + be_nat cs"
    have "?v < 2 ^ (7 * m)" by (rule size_value_bound) fact+
    also have "(2::nat) ^ (7 * m) \<le> 2 ^ 56" using size by (intro power_increasing) auto
    finally have "int ?v < int (2 ^ 56)" by (simp only: of_nat_less_iff)
    then have "int ?v < 2 ^ 56" by (simp only: of_nat_power of_nat_numeral)
    with assms ReadSize_eq [OF size(2,3,5)] size show ?thesis by auto
  qed (use assms in auto)
  then show "1 \<le> n" "n \<le> 8" "n \<le> length b" "s = UnknownSize \<or> 0 \<le> s \<and> s < 2 ^ 56"
    by auto
qed

lemma ReadSize_local:
  assumes "ReadSize b = Inr (s, n)"
  shows "ReadSize (take n b @ rest) = Inr (s, n)"
proof (cases rule: ReadSize_cases [of b])
  case (size c cs rest' m)
  then have "ReadSize b = ReadSize (c # cs @ rest)"
    using ReadSize_eq [OF size(2,3,5)] by simp
  moreover have "m = n" using assms ReadSize_eq [OF size(2,3,5)] size by simp
  ultimately show ?thesis using assms size by (cases n) auto
qed (use assms in auto)

lemma ReadSize_take: "8 \<le> k \<Longrightarrow> ReadSize (take k b) = ReadSize b"
proof (cases b)
  case (Cons c bs)
  assume k: "8 \<le> k"
  with vintLen_le_8 [of c] have "vintLen c \<le> k" by simp
  with Cons k show ?thesis
    by (cases k) (auto simp: ReadSize_def Let_def min_def)
qed simp

section \<open>Element IDs\<close>

lemma ReadID_cases:
  assumes "ReadID b = Inr (i, n)"
  obtains c cs rest where "b = c # cs @ rest" "vintLen c = n" "1 \<le> n" "n \<le> 4"
    "length cs = n - 1" "i = foldl shift_in 0 (c # cs)"
proof (cases b)
  case Nil
  with assms show ?thesis by (simp add: ReadID_def)
next
  case (Cons c bs)
  with assms have *: "vintLen c = n" "1 \<le> n" "n \<le> 4" "n \<le> Suc (length bs)"
      "i = foldl shift_in 0 (take n (c # bs))"
    by (auto simp: ReadID_def Let_def split: if_splits)
  then have "take n (c # bs) = c # take (n - 1) bs" by (cases n) auto
  with * Cons show ?thesis
    by (intro that [of c "take (n - 1) bs" "drop (n - 1) bs"]) (auto simp: min_def)
qed

lemma ReadID_eq:
  assumes "vintLen c = n" "1 \<le> n" "n \<le> 4" "length cs = n - 1"
  shows "ReadID (c # cs @ rest) = Inr (foldl shift_in 0 (c # cs), n)"
  using assms by (cases n) (auto simp: ReadID_def Let_def)

lemma ReadID_take: "4 \<le> k \<Longrightarrow> ReadID (take k b) = ReadID b"
  by (auto simp: ReadID_def Let_def hd_take min_def)

lemma ReadID_bounds: "ReadID b = Inr (i, n) \<Longrightarrow> 1 \<le> n \<and> n \<le> 4 \<and> n \<le> length b"
  by (erule ReadID_cases) auto

lemma ReadID_local: "ReadID b = Inr (i, n) \<Longrightarrow> ReadID (take n b @ rest) = Inr (i, n)"
proof (erule ReadID_cases)
  fix c cs tl'
  assume *: "b = c # cs @ tl'" "vintLen c = n" "1 \<le> n" "n \<le> 4" "length cs = n - 1"
    "i = foldl shift_in 0 (c # cs)"
  then have "take n b @ rest = c # cs @ rest" by (cases n) auto
  with * show "ReadID (take n b @ rest) = Inr (i, n)" by (simp only: ReadID_eq)
qed

section \<open>Headers\<close>

lemma ParseHeader_split:
  "ParseHeader b = Inr h \<longleftrightarrow>
     (\<exists>il sl. ReadID b = Inr (h_id h, il) \<and> ReadSize (drop il b) = Inr (h_size h, sl)
        \<and> h_len h = il + sl)"
  by (cases h) (auto simp: ParseHeader_def split: sum.splits prod.splits)

lemma ParseHeader_bounds:
  assumes "ParseHeader b = Inr h"
  shows "2 \<le> h_len h" "h_len h \<le> 12" "h_len h \<le> length b"
    "h_size h = UnknownSize \<or> 0 \<le> h_size h \<and> h_size h < 2 ^ 56"
proof -
  obtain il sl where *: "ReadID b = Inr (h_id h, il)" "ReadSize (drop il b) = Inr (h_size h, sl)"
    "h_len h = il + sl"
    using assms by (auto simp: ParseHeader_split)
  with ReadID_bounds [OF *(1)] ReadSize_bounds [OF *(2)]
  show "2 \<le> h_len h" "h_len h \<le> 12" "h_len h \<le> length b"
    "h_size h = UnknownSize \<or> 0 \<le> h_size h \<and> h_size h < 2 ^ 56"
    by auto
qed

lemma ParseHeader_size_nonneg:
  "ParseHeader b = Inr h \<Longrightarrow> h_size h \<noteq> UnknownSize \<Longrightarrow> 0 \<le> h_size h"
  using ParseHeader_bounds(4) by auto

text \<open>A header is decoded from its own bytes only.\<close>

lemma ParseHeader_local:
  assumes "ParseHeader b = Inr h"
  shows "ParseHeader (take (h_len h) b @ rest) = Inr h"
proof -
  obtain il sl where *: "ReadID b = Inr (h_id h, il)" "ReadSize (drop il b) = Inr (h_size h, sl)"
    "h_len h = il + sl"
    using assms by (auto simp: ParseHeader_split)
  then have le: "il \<le> length b" "sl \<le> length (drop il b)"
    using ReadID_bounds ReadSize_bounds(3) by blast+
  have t: "take (h_len h) b = take il b @ take sl (drop il b)"
    by (simp add: *(3) take_add)
  have "ReadID (take (h_len h) b @ rest) = Inr (h_id h, il)"
    unfolding t append_assoc by (rule ReadID_local) fact
  moreover have "drop il (take (h_len h) b @ rest) = take sl (drop il b) @ rest"
    using le by (simp add: t)
  ultimately show ?thesis
    using ReadSize_local [OF *(2)] *(3) by (auto simp: ParseHeader_split)
qed

lemma ParseHeader_take: "12 \<le> k \<Longrightarrow> ParseHeader (take k b) = ParseHeader b"
proof -
  assume k: "12 \<le> k"
  have "ReadSize (drop il (take k b)) = ReadSize (drop il b)" if "il \<le> 4" for il
    using that k by (simp add: drop_take ReadSize_take)
  with k show ?thesis
    by (auto simp: ParseHeader_def ReadID_take split: sum.splits dest: ReadID_bounds)
qed

text \<open>On a file, reading a header is parsing the bytes at the offset.\<close>

context reader_at
begin

lemma ReadHeaderAt_eq:
  assumes "0 \<le> off" "nat off < length content"
  shows "ReadHeaderAt r off = ParseHeader (drop (nat off) content)"
proof -
  obtain buf err where ro: "r off 12 = (buf, err)" by (cases "r off 12")
  then have "buf = take 12 (drop (nat off) content)" using read_bytes [OF assms(1), of 12] by simp
  moreover from this have "buf \<noteq> []" using assms(2) by auto
  moreover from this have "ReadHeaderAt r off = ParseHeader buf"
    using ro by (auto simp: ReadHeaderAt_def split: list.splits option.splits)
  ultimately show ?thesis by (simp add: ParseHeader_take)
qed

lemma ReadHeaderAt_Inr:
  assumes "0 \<le> off" "ReadHeaderAt r off = Inr h"
  shows "ParseHeader (drop (nat off) content) = Inr h" "nat off < length content"
proof -
  have "nat off < length content"
  proof (rule ccontr)
    assume "\<not> nat off < length content"
    then have "fst (r off 12) = []" by (simp add: read_bytes [OF assms(1)])
    moreover from this have "snd (r off 12) \<noteq> None" using read_short [OF assms(1), of 12] by simp
    ultimately show False
      using assms(2) by (cases "r off 12") (auto simp: ReadHeaderAt_def)
  qed
  with ReadHeaderAt_eq [OF assms(1)] assms(2)
  show "ParseHeader (drop (nat off) content) = Inr h" "nat off < length content" by auto
qed

end

section \<open>Children of a master element\<close>

text \<open>The loop of \<open>Children\<close> from position \<open>p\<close> of the buffer.\<close>

function ChildrenFrom :: "byte list \<Rightarrow> nat \<Rightarrow> ebml_err + element list" where
  "ChildrenFrom b p =
     (if p < length b then
        (case ParseHeader (drop p b) of Inl e \<Rightarrow> Inl e
         | Inr h \<Rightarrow>
           if h_size h = UnknownSize then Inl (UnknownInSized (h_id h))
           else let stop = p + h_len h + nat (h_size h) in
             if int (length b) < h_size h \<or> length b < stop then Inl (Overrun (h_id h))
             else (case ChildrenFrom b stop of Inl e \<Rightarrow> Inl e
               | Inr out \<Rightarrow> Inr (\<lparr>e_id = h_id h,
                   e_data = take (stop - (p + h_len h)) (drop (p + h_len h) b),
                   e_raw = take (stop - p) (drop p b), e_pos = p\<rparr> # out)))
      else Inr [])"
  by pat_completeness auto
termination
  by (relation "measure (\<lambda>(b, p). length b - p)") (auto dest: ParseHeader_bounds(1))

declare ChildrenFrom.simps [simp del]

definition Children :: "byte list \<Rightarrow> ebml_err + element list" where
  "Children b = ChildrenFrom b 0"

definition Uint :: "byte list \<Rightarrow> ebml_err + u64" where
  "Uint b = (if 8 < length b then Inl (UintWidth (length b)) else Inr (foldl shift_in 0 b))"

definition Float :: "byte list \<Rightarrow> ebml_err + f64" where
  "Float b =
     (if length b = 0 then Inr (Fin 0)
      else if length b = 4 then Inr (f64_of_bits32 (foldl shift_in 0 b))
      else if length b = 8 then Inr (f64_of_bits (foldl shift_in 0 b))
      else Inl (FloatWidth (length b)))"

text \<open>Splitting a buffer into children loses nothing: the raw slices are the buffer.\<close>

lemma ChildrenFrom_Inr_cases:
  assumes "ChildrenFrom b p = Inr es"
  obtains "length b \<le> p" "es = []"
  | h es' where "p < length b" "ParseHeader (drop p b) = Inr h" "h_size h \<noteq> UnknownSize"
      "p + h_len h + nat (h_size h) \<le> length b"
      "ChildrenFrom b (p + h_len h + nat (h_size h)) = Inr es'"
      "es = \<lparr>e_id = h_id h, e_data = take (nat (h_size h)) (drop (p + h_len h) b),
          e_raw = take (h_len h + nat (h_size h)) (drop p b), e_pos = p\<rparr> # es'"
proof (cases "p < length b")
  case False
  with assms that(1) show ?thesis by (simp add: ChildrenFrom.simps)
next
  case True
  with assms that(2) show ?thesis
    by (subst (asm) ChildrenFrom.simps) (auto simp: Let_def split: sum.splits if_splits)
qed

lemma ChildrenFrom_concat:
  "ChildrenFrom b p = Inr es \<Longrightarrow> concat (map e_raw es) = drop p b"
proof (induction b p arbitrary: es rule: ChildrenFrom.induct)
  case (1 b p)
  from "1.prems" show ?case
  proof (cases rule: ChildrenFrom_Inr_cases)
    case 1
    then show ?thesis by simp
  next
    case (2 h es')
    let ?stop = "p + h_len h + nat (h_size h)"
    have "concat (map e_raw es') = drop ?stop b"
      using "1.IH" [OF 2(1,2,3) refl _ 2(5)] 2(4) ParseHeader_size_nonneg [OF 2(2,3)] by auto
    moreover have "take (h_len h + nat (h_size h)) (drop p b) @ drop ?stop b = drop p b"
      by (metis append_take_drop_id drop_drop add.assoc add.commute)
    ultimately show ?thesis using 2 by simp
  qed
qed



text \<open>Each child records its place in the buffer, and its header is what the parser reads
  there.\<close>

definition child_at :: "byte list \<Rightarrow> element \<Rightarrow> bool" where
  "child_at b e \<longleftrightarrow>
     (\<exists>h. ParseHeader (drop (e_pos e) b) = Inr h \<and> h_id h = e_id e
        \<and> h_size h = int (length (e_data e))
        \<and> e_pos e + length (e_raw e) \<le> length b
        \<and> e_raw e = take (length (e_raw e)) (drop (e_pos e) b)
        \<and> e_raw e = take (h_len h) (e_raw e) @ e_data e
        \<and> length (e_raw e) = h_len h + length (e_data e) \<and> 2 \<le> h_len h)"

lemma ChildrenFrom_child_at:
  "ChildrenFrom b p = Inr es \<Longrightarrow> e \<in> set es \<Longrightarrow> child_at b e \<and> p \<le> e_pos e"
proof (induction b p arbitrary: es rule: ChildrenFrom.induct)
  case (1 b p)
  from "1.prems"(1) show ?case
  proof (cases rule: ChildrenFrom_Inr_cases)
    case 1
    with "1.prems" show ?thesis by simp
  next
    case (2 h es')
    let ?stop = "p + h_len h + nat (h_size h)"
    have rest: "e \<in> set es' \<Longrightarrow> child_at b e \<and> ?stop \<le> e_pos e"
      using "1.IH" [OF 2(1,2,3) refl _ 2(5)] 2(4) ParseHeader_size_nonneg [OF 2(2,3)] by auto
    have nn: "0 \<le> h_size h" by (rule ParseHeader_size_nonneg) fact+
    let ?e = "hd es"
    have raw: "e_raw ?e = take (h_len h) (drop p b) @ e_data ?e" and pos: "e_pos ?e = p"
      and len: "length (e_raw ?e) = h_len h + nat (h_size h)" "length (e_data ?e) = nat (h_size h)"
      and idh: "e_id ?e = h_id h" and raw': "e_raw ?e = take (h_len h + nat (h_size h)) (drop p b)"
      using 2(4,6) by (simp_all add: take_add add.commute)
    have "take (h_len h) (e_raw ?e) = take (h_len h) (drop p b)"
      unfolding raw' by simp
    with raw have raw_split: "e_raw ?e = take (h_len h) (e_raw ?e) @ e_data ?e" by (simp only:)
    have "child_at b ?e"
      unfolding child_at_def
    proof (intro exI [of _ h] conjI)
      show "e_raw ?e = take (length (e_raw ?e)) (drop (e_pos ?e) b)"
        unfolding len(1) pos by (rule raw')
      show "ParseHeader (drop (e_pos ?e) b) = Inr h" by (simp only: pos 2(2))
      show "h_id h = e_id ?e" by (rule idh [symmetric])
      show "h_size h = int (length (e_data ?e))" by (simp only: len nat_0_le [OF nn])
      show "e_pos ?e + length (e_raw ?e) \<le> length b" using 2(4) by (simp only: pos len add.assoc)
      show "e_raw ?e = take (h_len h) (e_raw ?e) @ e_data ?e" by (rule raw_split)
      show "length (e_raw ?e) = h_len h + length (e_data ?e)" by (simp only: len)
      show "2 \<le> h_len h" by (rule ParseHeader_bounds(1)) fact
    qed
    moreover have "e = ?e \<or> e \<in> set es'" using "1.prems"(2) by (simp add: 2(6))
    ultimately show ?thesis using rest pos by fastforce
  qed
qed

lemma Children_child_at: "Children b = Inr es \<Longrightarrow> e \<in> set es \<Longrightarrow> child_at b e"
  by (simp add: Children_def ChildrenFrom_child_at)

section \<open>Writers\<close>

definition AppendID :: "byte list \<Rightarrow> u32 \<Rightarrow> byte list" where
  "AppendID dst i =
     (if 0xFFFFFF < i then
        dst @ [ucast (drop_bit 24 i), ucast (drop_bit 16 i), ucast (drop_bit 8 i), ucast i]
      else if 0xFFFF < i then
        dst @ [ucast (drop_bit 16 i), ucast (drop_bit 8 i), ucast i]
      else if 0xFF < i then dst @ [ucast (drop_bit 8 i), ucast i]
      else dst @ [ucast i])"

definition AppendSizeWidth :: "byte list \<Rightarrow> int \<Rightarrow> nat \<Rightarrow> byte list" where
  "AppendSizeWidth dst n width =
     dst @ be_bytes width ((word_of_int n OR push_bit (7 * width) 1) :: u64)"

function SizeWidthFrom :: "int \<Rightarrow> nat \<Rightarrow> nat" where
  "SizeWidthFrom n w =
     (if w < 8 \<and> push_bit (7 * w) 1 - 1 \<le> (word_of_int n :: u64) then SizeWidthFrom n (Suc w)
      else w)"
  by pat_completeness auto
termination
  by (relation "measure (\<lambda>(n, w). 8 - w)") auto

declare SizeWidthFrom.simps [simp del]

definition SizeWidth :: "int \<Rightarrow> nat" where
  "SizeWidth n = SizeWidthFrom n 1"

definition AppendElement :: "byte list \<Rightarrow> u32 \<Rightarrow> byte list \<Rightarrow> byte list" where
  "AppendElement dst i payload =
     AppendSizeWidth (AppendID dst i) (int (length payload)) (SizeWidth (int (length payload)))
       @ payload"

text \<open>The loop of \<open>AppendUintWidth\<close> fills its buffer from the last byte, shifting \<open>v\<close>.\<close>

fun uint_buf :: "nat \<Rightarrow> u64 \<Rightarrow> byte list" where
  "uint_buf 0 v = []"
| "uint_buf (Suc k) v = uint_buf k (drop_bit 8 v) @ [ucast v]"

definition AppendUintWidth :: "byte list \<Rightarrow> u32 \<Rightarrow> u64 \<Rightarrow> nat \<Rightarrow> byte list" where
  "AppendUintWidth dst i v width = AppendElement dst i (uint_buf width v)"

function UintLenFrom :: "u64 \<Rightarrow> nat \<Rightarrow> nat" where
  "UintLenFrom v n = (if n < 8 \<and> drop_bit (8 * n) v \<noteq> 0 then UintLenFrom v (Suc n) else n)"
  by pat_completeness auto
termination
  by (relation "measure (\<lambda>(v, n). 8 - n)") auto

declare UintLenFrom.simps [simp del]

definition AppendUint :: "byte list \<Rightarrow> u32 \<Rightarrow> u64 \<Rightarrow> byte list" where
  "AppendUint dst i v = AppendUintWidth dst i v (UintLenFrom v 1)"

text \<open>Every writer appends to its destination.\<close>

lemma AppendID_append: "AppendID dst i = dst @ AppendID [] i"
  by (simp add: AppendID_def)

lemma AppendSizeWidth_append: "AppendSizeWidth dst n w = dst @ AppendSizeWidth [] n w"
  by (simp add: AppendSizeWidth_def)

lemma AppendElement_append: "AppendElement dst i p = dst @ AppendElement [] i p"
  by (simp add: AppendElement_def AppendID_append [of dst] AppendSizeWidth_def)

lemma AppendUintWidth_append: "AppendUintWidth dst i v w = dst @ AppendUintWidth [] i v w"
  by (simp add: AppendUintWidth_def AppendElement_append [of dst])

lemma AppendUint_append: "AppendUint dst i v = dst @ AppendUint [] i v"
  by (simp add: AppendUint_def AppendUintWidth_append [of dst])

lemma AppendID_be_bytes:
  "AppendID [] i = be_bytes (if 0xFFFFFF < i then 4 else if 0xFFFF < i then 3
     else if 0xFF < i then 2 else 1) i"
  by (simp add: AppendID_def be_bytes_def upt_rec)

lemma length_AppendSizeWidth [simp]: "length (AppendSizeWidth dst n w) = length dst + w"
  by (simp add: AppendSizeWidth_def)

lemma be_bytes_snoc: "be_bytes (Suc k) v = be_bytes k (drop_bit 8 v) @ [ucast v]"
proof (induction k)
  case (Suc k)
  have "be_bytes (Suc (Suc k)) v = ucast (drop_bit (8 * Suc k) v) # be_bytes (Suc k) v"
    by (rule be_bytes_Suc)
  also have "\<dots> = ucast (drop_bit (8 * k) (drop_bit 8 v)) # be_bytes k (drop_bit 8 v) @ [ucast v]"
    by (simp add: Suc drop_bit_drop_bit add.commute)
  finally show ?case by (simp add: be_bytes_Suc)
qed (simp add: be_bytes_Suc)

lemma uint_buf_be_bytes: "uint_buf k v = be_bytes k v"
  by (induction k v rule: uint_buf.induct) (simp_all add: be_bytes_snoc)

section \<open>Codecs\<close>

text \<open>
  The contract between the writers and the readers: what \<open>enc\<close> writes, \<open>dec\<close> reads back
  from the front of any longer buffer.  Unique decoding follows.
\<close>

locale prefix_codec =
  fixes enc :: "'a \<Rightarrow> byte list" and dec :: "byte list \<Rightarrow> 'e + 'a \<times> nat"
    and valid :: "'a \<Rightarrow> bool"
  assumes dec_enc: "valid x \<Longrightarrow> dec (enc x @ rest) = Inr (x, length (enc x))"
begin

lemma unique_decoding:
  assumes "valid x" "valid y" "enc x @ s = enc y @ t"
  shows "x = y" "s = t"
proof -
  have "Inr (x, length (enc x)) = (Inr (y, length (enc y)) :: 'e + 'a \<times> nat)"
    using dec_enc [OF assms(1), of s] dec_enc [OF assms(2), of t] assms(3) by simp
  then show "x = y" by simp
  with assms(3) show "s = t" by simp
qed

lemma inj_on_valid: "inj_on enc (Collect valid)"
  using unique_decoding(1) [of _ _ "[]" "[]"] by (auto simp: inj_on_def)

end

text \<open>Two codecs in sequence, as in an element header.\<close>

locale codec_pair = first: prefix_codec enc1 dec1 valid1 + second: prefix_codec enc2 dec2 valid2
  for enc1 :: "'a \<Rightarrow> byte list" and dec1 :: "byte list \<Rightarrow> 'e + 'a \<times> nat" and valid1
    and enc2 :: "'b \<Rightarrow> byte list" and dec2 :: "byte list \<Rightarrow> 'e + 'b \<times> nat" and valid2
begin

lemma dec_both:
  assumes "valid1 x" "valid2 y"
  shows "dec1 (enc1 x @ enc2 y @ rest) = Inr (x, length (enc1 x))"
    and "dec2 (drop (length (enc1 x)) (enc1 x @ enc2 y @ rest)) = Inr (y, length (enc2 y))"
  using first.dec_enc [OF assms(1), of "enc2 y @ rest"] second.dec_enc [OF assms(2), of rest]
  by simp_all

end

text \<open>IDs: the first byte's marker has to tell the length, as it does for every Matroska ID.\<close>

definition valid_id :: "u32 \<Rightarrow> bool" where
  "valid_id i \<longleftrightarrow> vintLen (hd (AppendID [] i)) = length (AppendID [] i)"

lemma AppendID_length: "1 \<le> length (AppendID [] i) \<and> length (AppendID [] i) \<le> 4"
  by (simp add: AppendID_def)

lemma unat_lt_AppendID: "unat i < 256 ^ length (AppendID [] i)"
proof -
  have "unat i < 2 ^ LENGTH(32)" by (rule unsigned_less)
  then show ?thesis by (simp add: AppendID_def word_less_nat_alt)
qed

lemma foldl_shift_in_be_bytes:
  assumes "unat (v :: 'a::len word) < 256 ^ k" "8 \<le> LENGTH('a)"
  shows "foldl shift_in 0 (be_bytes k v) = v"
proof -
  have "unat v < 2 ^ LENGTH('a)" by (rule unsigned_less)
  then have "unat (foldl shift_in (0 :: 'a word) (be_bytes k v)) = unat v"
    using assms(1) unat_foldl_shift_in [OF assms(2), of 0 "be_bytes k v"] by simp
  then show ?thesis by (simp add: word_unat_eq_iff)
qed

lemma ReadID_AppendID:
  assumes "valid_id i"
  shows "ReadID (AppendID [] i @ rest) = Inr (i, length (AppendID [] i))"
proof -
  let ?k = "length (AppendID [] i)"
  have eq: "AppendID [] i = be_bytes ?k i" by (simp add: AppendID_be_bytes)
  obtain c cs where ccs: "AppendID [] i = c # cs" and k: "?k = Suc (length cs)"
    using AppendID_length [of i] by (cases "AppendID [] i") auto
  have "foldl shift_in 0 (c # cs) = i"
    unfolding ccs [symmetric] by (subst eq) (simp add: foldl_shift_in_be_bytes unat_lt_AppendID)
  moreover have "vintLen c = Suc (length cs)" using assms ccs by (simp add: valid_id_def)
  ultimately show ?thesis
    using ReadID_eq [of c "Suc (length cs)" cs rest] AppendID_length [of i] ccs by simp
qed

text \<open>Sizes, in any width that holds them without reaching the reserved value.\<close>

definition fits_width :: "nat \<Rightarrow> int \<Rightarrow> bool" where
  "fits_width w n \<longleftrightarrow> 1 \<le> w \<and> w \<le> 8 \<and> 0 \<le> n \<and> n < 2 ^ (7 * w) - 1"

lemma unat_marked:
  assumes "1 \<le> w" "w \<le> 8" "m < 2 ^ (7 * w)"
  shows "unat ((word_of_nat m OR push_bit (7 * w) 1) :: u64) = m + 2 ^ (7 * w)"
proof -
  have "(2::nat) ^ (7 * w) \<le> 2 ^ 56" using assms by (intro power_increasing) auto
  with assms have "m + 2 ^ (7 * w) < 2 ^ 56 + 2 ^ 56" by linarith
  then have bounds: "m + 2 ^ (7 * w) < 2 ^ 64" by simp
  have "bit (word_of_nat m :: u64) k \<Longrightarrow> k \<noteq> 7 * w" for k
    using assms(3) bit_iff_odd [of m "7 * w"] by (auto simp: bit_of_nat_iff)
  then have "(word_of_nat m AND push_bit (7 * w) 1 :: u64) = 0"
    by (intro bit_word_eqI) (auto simp: bit_simps)
  then have "(word_of_nat m OR push_bit (7 * w) 1 :: u64) = word_of_nat m + push_bit (7 * w) 1"
    by (rule disjunctive_add_eq_or [symmetric])
  also have "\<dots> = word_of_nat (m + 2 ^ (7 * w))"
    by (simp add: push_bit_eq_mult)
  finally show ?thesis using bounds by (simp only: unat_of_nat) simp
qed

lemma ReadSize_AppendSizeWidth:
  assumes "fits_width w n"
  shows "ReadSize (AppendSizeWidth [] n w @ rest) = Inr (n, w)"
proof -
  define m where "m = nat n"
  have w: "1 \<le> w" "w \<le> 8" and n: "n = int m" and m: "m < 2 ^ (7 * w) - 1"
    using assms by (auto simp: fits_width_def m_def nat_less_iff of_nat_diff)
  define v :: u64 where "v = word_of_nat m OR push_bit (7 * w) 1"
  obtain k where k: "w = Suc k" using w by (cases w) auto
  have uv: "unat v = m + 2 ^ (7 * w)" unfolding v_def using w m by (intro unat_marked) auto
  have shift: "2 ^ (7 * w) = (2 ^ (8 - w) :: nat) * 256 ^ k"
    using marker_shift [OF w] k by simp
  have top: "m div 256 ^ k < 2 ^ (8 - w)"
    using m shift by (simp add: less_mult_imp_div_less)
  let ?c = "ucast (drop_bit (8 * k) v) :: byte" and ?cs = "be_bytes k v"
  have "AppendSizeWidth [] n w = ?c # ?cs"
    by (simp add: AppendSizeWidth_def n v_def k be_bytes_Suc)
  moreover have c: "unat ?c = 2 ^ (8 - w) + m div 256 ^ k"
  proof -
    have "unat v = m + 2 ^ (8 - w) * 256 ^ k" unfolding uv by (simp only: shift)
    then have "unat v div 2 ^ (8 * k) = 2 ^ (8 - w) + m div 256 ^ k"
      by (simp add: power_mult)
    moreover have "(2::nat) ^ (8 - w) \<le> 2 ^ 7" using w by (intro power_increasing) auto
    ultimately show ?thesis using top by (simp add: word_nat)
  qed
  moreover have "be_nat ?cs = m mod 256 ^ k"
  proof -
    have "unat v = m + 2 ^ (8 - w) * 256 ^ k" unfolding uv by (simp only: shift)
    then show ?thesis by simp
  qed
  moreover have "vintLen ?c = w" using w top c by (intro vintLen_marker) auto
  ultimately have "ReadSize (AppendSizeWidth [] n w @ rest) = Inr (if m div 256 ^ k * 256 ^ k + m mod 256 ^ k = 2 ^ (7 * w) - 1
      then UnknownSize else int (m div 256 ^ k * 256 ^ k + m mod 256 ^ k), w)"
    using ReadSize_eq [of ?c w ?cs rest] w k top by simp
  then show ?thesis unfolding div_mult_mod_eq using m n by simp
qed

interpretation id_codec: prefix_codec "AppendID []" ReadID valid_id
  by unfold_locales (rule ReadID_AppendID)

interpretation size_codec: prefix_codec "\<lambda>n. AppendSizeWidth [] n w" ReadSize "fits_width w" for w
  by unfold_locales (simp add: ReadSize_AppendSizeWidth)

interpretation header_codec: codec_pair "AppendID []" ReadID valid_id
  "\<lambda>n. AppendSizeWidth [] n w" ReadSize "fits_width w" for w ..

section \<open>Minimal sizes, elements and unsigned payloads\<close>

lemma size_limit_le:
  assumes "0 \<le> n" "n < 2 ^ 63" "w < 8"
  shows "push_bit (7 * w) 1 - 1 \<le> (word_of_int n :: u64) \<longleftrightarrow> 2 ^ (7 * w) - 1 \<le> n"
proof -
  have "(2::nat) ^ (7 * w) \<le> 2 ^ 49" using assms by (intro power_increasing) auto
  then have lt: "(2::nat) ^ (7 * w) < 2 ^ 64" by simp
  have "(push_bit (7 * w) 1 - 1 :: u64) = word_of_nat (2 ^ (7 * w) - 1)"
    by (simp add: push_bit_eq_mult of_nat_diff)
  then have "unat (push_bit (7 * w) 1 - 1 :: u64) = 2 ^ (7 * w) - 1"
    using lt by (simp only: unat_of_nat) simp
  moreover have "unat (word_of_int n :: u64) = nat n"
    using assms by (simp add: unsigned_of_int take_bit_int_eq_self)
  moreover have "2 ^ (7 * w) - 1 \<le> nat n \<longleftrightarrow> 2 ^ (7 * w) - 1 \<le> n"
    using assms(1) by (simp add: nat_le_iff le_nat_iff of_nat_diff)
  ultimately show ?thesis by (simp add: word_le_nat_alt)
qed

lemma SizeWidthFrom_spec:
  assumes "0 \<le> n" "n < 2 ^ 63" "1 \<le> w" "w \<le> 8"
    and "\<And>k. 1 \<le> k \<Longrightarrow> k < w \<Longrightarrow> 2 ^ (7 * k) - 1 \<le> n"
  shows "w \<le> SizeWidthFrom n w \<and> SizeWidthFrom n w \<le> 8
    \<and> (SizeWidthFrom n w < 8 \<longrightarrow> n < 2 ^ (7 * SizeWidthFrom n w) - 1)
    \<and> (\<forall>k. 1 \<le> k \<longrightarrow> k < SizeWidthFrom n w \<longrightarrow> 2 ^ (7 * k) - 1 \<le> n)"
  using assms
proof (induction n w rule: SizeWidthFrom.induct)
  case (1 n w)
  let ?more = "w < 8 \<and> push_bit (7 * w) 1 - 1 \<le> (word_of_int n :: u64)"
  show ?case
  proof (cases ?more)
    case True
    then have "2 ^ (7 * w) - 1 \<le> n" using size_limit_le [OF "1.prems"(1,2), of w] by blast
    then have "\<And>k. 1 \<le> k \<Longrightarrow> k < Suc w \<Longrightarrow> 2 ^ (7 * k) - 1 \<le> n"
      using "1.prems"(5) by (auto simp: less_Suc_eq)
    with "1.IH" [OF True] "1.prems" True show ?thesis
      by (simp add: SizeWidthFrom.simps [of n w])
  next
    case False
    then have "w < 8 \<Longrightarrow> n < 2 ^ (7 * w) - 1" using size_limit_le [OF "1.prems"(1,2)] by force
    moreover from False have "SizeWidthFrom n w = w"
      by (simp only: SizeWidthFrom.simps [of n w] if_False)
    ultimately show ?thesis using "1.prems" by simp
  qed
qed

lemma SizeWidth_spec:
  assumes "0 \<le> n" "n < 2 ^ 56 - 1"
  shows "fits_width (SizeWidth n) n" "fits_width w n \<Longrightarrow> SizeWidth n \<le> w"
proof -
  let ?w = "SizeWidth n"
  have spec: "1 \<le> ?w" "?w \<le> 8" "?w < 8 \<Longrightarrow> n < 2 ^ (7 * ?w) - 1"
    and below: "\<And>k. 1 \<le> k \<Longrightarrow> k < ?w \<Longrightarrow> 2 ^ (7 * k) - 1 \<le> n"
    using SizeWidthFrom_spec [of n 1] assms by (auto simp: SizeWidth_def)
  show "fits_width ?w n"
  proof (cases "?w < 8")
    case True
    with spec assms show ?thesis by (simp add: fits_width_def)
  next
    case False
    with spec(2) have "?w = 8" by simp
    with assms show ?thesis by (simp add: fits_width_def)
  qed
  show "fits_width w n \<Longrightarrow> SizeWidth n \<le> w"
    using below [of w] by (force simp: fits_width_def not_less)
qed

lemma SizeWidth_le_8: "0 \<le> n \<Longrightarrow> n < 2 ^ 56 - 1 \<Longrightarrow> SizeWidth n \<le> 8"
  using SizeWidth_spec(1) [of n] by (simp add: fits_width_def)

text \<open>A written header parses back, whatever follows it.\<close>

lemma ParseHeader_written:
  assumes "valid_id i" "fits_width w n"
  shows "ParseHeader (AppendSizeWidth (AppendID [] i) n w @ rest) =
    Inr \<lparr>h_id = i, h_size = n, h_len = length (AppendID [] i) + w\<rparr>"
  unfolding AppendSizeWidth_append [of "AppendID [] i"]
  using header_codec.dec_both [OF assms, of rest]
  by (simp add: ParseHeader_def)

definition element_fits :: "u32 \<Rightarrow> byte list \<Rightarrow> bool" where
  "element_fits i payload \<longleftrightarrow> valid_id i \<and> int (length payload) < 2 ^ 56 - 1"

lemma ParseHeader_AppendElement:
  assumes "element_fits i payload"
  shows "ParseHeader (AppendElement [] i payload @ rest) =
    Inr \<lparr>h_id = i, h_size = int (length payload),
         h_len = length (AppendID [] i) + SizeWidth (int (length payload))\<rparr>"
  unfolding AppendElement_def append_assoc
  using assms SizeWidth_spec(1) [of "int (length payload)"]
  by (intro ParseHeader_written) (auto simp: element_fits_def)

lemma length_AppendElement:
  "length (AppendElement dst i payload) = length dst + length (AppendID [] i)
     + SizeWidth (int (length payload)) + length payload"
  by (subst AppendElement_append) (simp add: AppendElement_def)

lemma length_AppendElement_le:
  assumes "int (length payload) < 2 ^ 56 - 1"
  shows "length (AppendElement [] i payload) \<le> length payload + 12"
  using AppendID_length [of i] SizeWidth_le_8 [of "int (length payload)"] assms
  by (simp add: length_AppendElement)

text \<open>Parsing a concatenation of written elements gives the elements back.\<close>

lemma ChildrenFrom_written:
  assumes "\<And>i p. (i, p) \<in> set es \<Longrightarrow> element_fits i p"
  shows "\<exists>out. ChildrenFrom (pre @ concat (map (\<lambda>(i, p). AppendElement [] i p) es)) (length pre)
      = Inr out \<and> map (\<lambda>e. (e_id e, e_data e)) out = es"
  using assms
proof (induction es arbitrary: pre)
  case Nil
  then show ?case by (simp add: ChildrenFrom.simps)
next
  case (Cons e es)
  obtain i p where e: "e = (i, p)" by fastforce
  let ?f = "\<lambda>(i, p). AppendElement [] i p"
  let ?el = "AppendElement [] i p" and ?tl = "concat (map ?f es)"
  let ?b = "pre @ ?el @ ?tl"
  have fits: "element_fits i p" using Cons.prems e by simp
  obtain out where out: "ChildrenFrom ?b (length pre + length ?el) = Inr out"
      "map (\<lambda>e. (e_id e, e_data e)) out = es"
    using Cons.IH [of "pre @ ?el"] Cons.prems by auto
  let ?hl = "length (AppendID [] i) + SizeWidth (int (length p))"
  have ph: "ParseHeader (?el @ ?tl) =
      Inr \<lparr>h_id = i, h_size = int (length p), h_len = ?hl\<rparr>"
    by (rule ParseHeader_AppendElement) fact
  have el: "?el = take ?hl ?el @ p"
    by (simp add: AppendElement_def)
  have len: "length ?el = ?hl + length p" by (simp add: length_AppendElement)
  have "0 < length ?el" using len AppendID_length [of i] by linarith
  then have pos: "length pre < length ?b" by simp
  have data: "take (length p) (drop ?hl (?el @ ?tl)) = p"
    using len by (subst el) (simp del: length_AppendElement)
  let ?e = "\<lparr>e_id = i, e_data = p, e_raw = ?el, e_pos = length pre\<rparr>"
  have "ChildrenFrom ?b (length pre) = Inr (?e # out)"
    using pos ph out(1) data len
    by (subst ChildrenFrom.simps) (simp add: UnknownSize_def Let_def add.assoc)
  with out(2) e show ?case by simp
qed

lemma Children_written:
  assumes "\<And>i p. (i, p) \<in> set es \<Longrightarrow> element_fits i p"
  shows "\<exists>out. Children (concat (map (\<lambda>(i, p). AppendElement [] i p) es)) = Inr out
    \<and> map (\<lambda>e. (e_id e, e_data e)) out = es"
  using ChildrenFrom_written [of es "[]"] assms by (simp add: Children_def)

lemma UintLenFrom_spec:
  assumes "1 \<le> n" "n \<le> 8" "n = 1 \<or> 256 ^ (n - 1) \<le> unat v"
  shows "n \<le> UintLenFrom v n \<and> UintLenFrom v n \<le> 8 \<and> unat v < 256 ^ UintLenFrom v n
    \<and> (UintLenFrom v n = 1 \<or> 256 ^ (UintLenFrom v n - 1) \<le> unat v)"
  using assms
proof (induction v n rule: UintLenFrom.induct)
  case (1 v n)
  have pow: "(2::nat) ^ (8 * n) = 256 ^ n" by (simp add: power_mult)
  have zero: "drop_bit (8 * n) v = 0 \<longleftrightarrow> unat v < 256 ^ n"
    by (simp add: word_unat_eq_iff word_nat pow div_eq_0_iff)
  show ?case
  proof (cases "n < 8 \<and> drop_bit (8 * n) v \<noteq> 0")
    case True
    with "1.IH" [OF True] zero "1.prems" show ?thesis
      by (simp only: UintLenFrom.simps [of v n] if_True) auto
  next
    case False
    then have eq: "UintLenFrom v n = n" by (simp only: UintLenFrom.simps [of v n] if_False)
    have "n = 8 \<Longrightarrow> unat v < 256 ^ n" using unat_bound_64 [of v] by simp
    with False zero "1.prems" have "unat v < 256 ^ n" by fastforce
    with "1.prems" show ?thesis by (simp add: eq)
  qed
qed

lemma UintLen_spec:
  shows "1 \<le> UintLenFrom v 1" "UintLenFrom v 1 \<le> 8" "unat v < 256 ^ UintLenFrom v 1"
  using UintLenFrom_spec [of 1 v] by auto

lemma AppendUintWidth_eq: "AppendUintWidth dst i v w = dst @ AppendElement [] i (be_bytes w v)"
  by (simp add: AppendUintWidth_def uint_buf_be_bytes AppendElement_append [of dst])

lemma AppendUint_eq: "AppendUint dst i v = dst @ AppendElement [] i (be_bytes (UintLenFrom v 1) v)"
  by (simp add: AppendUint_def AppendUintWidth_eq)

lemma Uint_be_bytes:
  assumes "w \<le> 8" "unat v < 256 ^ w"
  shows "Uint (be_bytes w v) = Inr v"
  using assms foldl_shift_in_be_bytes [of v w] by (simp add: Uint_def)

lemma Uint_be_bytes_8 [simp]: "Uint (be_bytes 8 v) = Inr v"
  using unat_bound_64 [of v] by (intro Uint_be_bytes) simp_all

lemma Uint_AppendUint [simp]: "Uint (be_bytes (UintLenFrom v 1) v) = Inr v"
  by (intro Uint_be_bytes UintLen_spec)

lemma element_fits_be_bytes: "valid_id i \<Longrightarrow> w \<le> 8 \<Longrightarrow> element_fits i (be_bytes w v)"
  by (simp add: element_fits_def)

definition AppendFloat :: "byte list \<Rightarrow> u32 \<Rightarrow> f64 \<Rightarrow> byte list" where
  "AppendFloat dst i f = AppendElement dst i (be_bytes 8 (f64_bits f))"

lemma AppendFloat_eq: "AppendFloat dst i f = dst @ AppendElement [] i (be_bytes 8 (f64_bits f))"
  by (simp add: AppendFloat_def AppendElement_append [of dst])

lemma Float_be_bytes: "f64_repr x \<Longrightarrow> Float (be_bytes 8 (f64_bits (Fin x))) = Inr (Fin x)"
proof -
  assume x: "f64_repr x"
  have "foldl shift_in 0 (be_bytes 8 (f64_bits (Fin x))) = f64_bits (Fin x)"
    using unat_bound_64 [of "f64_bits (Fin x)"] by (intro foldl_shift_in_be_bytes) simp_all
  then show ?thesis by (simp add: Float_def f64_of_bits_f64_bits [OF x] del: f64_bits.simps)
qed

text \<open>Fixed-length digit strings are determined by their value, so IDs re-encode to the
  bytes they were read from.\<close>

lemma be_nat_inj: "length as = length bs \<Longrightarrow> be_nat as = be_nat bs \<Longrightarrow> as = bs"
proof (induction as bs rule: list_induct2)
  case (Cons a as b bs)
  have lt: "be_nat as < 256 ^ length as" "be_nat bs < 256 ^ length as"
    using be_nat_bound [of as] be_nat_bound [of bs] Cons.hyps by simp_all
  have eq: "unat a * 256 ^ length as + be_nat as = unat b * 256 ^ length as + be_nat bs"
    using Cons.prems Cons.hyps by (simp add: be_nat_Cons)
  from arg_cong [OF eq, of "\<lambda>n. n div 256 ^ length as"] lt have "unat a = unat b" by simp
  moreover from this eq have "be_nat as = be_nat bs" by simp
  ultimately show ?case using Cons.IH by (simp add: word_unat_eq_iff)
qed simp

lemma length_AppendID:
  "length (AppendID [] i) = (if 256 ^ 3 \<le> unat i then 4 else if 256 ^ 2 \<le> unat i then 3
     else if 256 \<le> unat i then 2 else 1)"
  by (auto simp: AppendID_def word_less_nat_alt)

lemma AppendID_ReadID:
  assumes "ReadID b = Inr (i, n)"
  shows "AppendID [] i = take n b"
proof -
  obtain c cs rest where b: "b = c # cs @ rest" and n: "vintLen c = n" "1 \<le> n" "n \<le> 4"
      "length cs = n - 1" and i: "i = foldl shift_in 0 (c # cs)"
    using assms by (rule ReadID_cases)
  have bound: "be_nat (c # cs) < 256 ^ n"
    using be_nat_bound [of "c # cs"] n by simp
  also have "(256::nat) ^ n \<le> 256 ^ 4" using n by (intro power_increasing) auto
  finally have "be_nat (c # cs) < 2 ^ 32" by simp
  then have ui: "unat i = be_nat (c # cs)"
    unfolding i using unat_foldl_shift_in [where v = "0 :: u32" and bs = "c # cs"]
    by (simp del: foldl_Cons)
  have "2 ^ (8 - n) \<le> unat c" using vintLen_bounds(1) [OF n(1)] n(2) by simp
  then have "2 ^ (8 - n) * 256 ^ (n - 1) \<le> unat i"
    using n(4) by (simp add: ui be_nat_Cons trans_le_add1)
  moreover have "n \<in> {1, 2, 3, 4}" using n by auto
  ultimately have len: "length (AppendID [] i) = n"
    using bound ui by (auto simp: length_AppendID)
  have "AppendID [] i = be_bytes n i" using AppendID_be_bytes [of i] len by (simp split: if_splits)
  moreover have "be_bytes n i = c # cs"
    using n bound ui by (intro be_nat_inj) simp_all
  ultimately show ?thesis using b n by (cases n) simp_all
qed

lemma valid_id_ReadID: "ReadID b = Inr (i, n) \<Longrightarrow> valid_id i"
proof -
  assume r: "ReadID b = Inr (i, n)"
  then have eq: "AppendID [] i = take n b" by (rule AppendID_ReadID)
  obtain c cs rest where "b = c # cs @ rest" "vintLen c = n" "1 \<le> n" "length cs = n - 1"
    using r by (rule ReadID_cases)
  then show ?thesis by (cases n) (simp_all add: valid_id_def eq)
qed

section \<open>Properties\<close>

text \<open>C27: A size written in any of the eight widths that can hold it is read back, together
  with the number of bytes it took, whatever bytes follow; the writer can therefore never
  produce a size that a reader takes for another one or for "unknown".\<close>

theorem ReadSize_roundtrip:
  assumes "fits_width w n"
  shows "ReadSize (AppendSizeWidth [] n w @ rest) = Inr (n, w)"
  using size_codec.dec_enc [OF assms, of rest] by simp

theorem ReadSize_roundtrip_witness:
  "fits_width 3 (2 ^ 21 - 2) \<and>
   ReadSize (AppendSizeWidth [] (2 ^ 21 - 2) 3 @ [0xAB]) = Inr (2 ^ 21 - 2, 3)"
proof -
  have "fits_width 3 (2 ^ 21 - 2)" by (simp add: fits_width_def)
  from this ReadSize_roundtrip [OF this, of "[0xAB]"] show ?thesis by blast
qed

text \<open>\<open>SizeWidth\<close> finds a width that holds the size, and the smallest one: sizes at the
  top of a width, where the all-ones pattern is reserved, are moved to the next width.\<close>

lemma SizeWidth_minimal:
  assumes "0 \<le> n" "n < 2 ^ 56 - 1"
  shows "fits_width (SizeWidth n) n \<and> (\<forall>w. fits_width w n \<longrightarrow> SizeWidth n \<le> w)"
  using SizeWidth_spec [OF assms] by blast

lemma SizeWidth_minimal_witness: "fits_width (SizeWidth 127) 127 \<and> SizeWidth 127 \<le> 2"
proof -
  have "fits_width 2 127" by (simp add: fits_width_def)
  with SizeWidth_minimal [of 127] show ?thesis by simp
qed

text \<open>Whatever the bytes are, the size reader returns "unknown" or a size below
  \<open>2 ^ 56\<close> and consumes between one and eight bytes of the buffer; the overflow error of the
  code is unreachable.\<close>

lemma ReadSize_range:
  "case ReadSize b of
     Inr (s, n) \<Rightarrow> (s = UnknownSize \<or> (0 \<le> s \<and> s < 2 ^ 56)) \<and> 1 \<le> n \<and> n \<le> min 8 (length b)
   | Inl e \<Rightarrow> e = ErrShort \<or> e = InvalidSize 0"
proof (cases rule: ReadSize_cases [of b])
  case short
  then show ?thesis by simp
next
  case (invalid c)
  then have "c = 0" by (auto simp: vintLen_unat word_unat_eq_iff split: if_splits)
  with invalid show ?thesis by simp
next
  case (size c cs rest n)
  then have "ReadSize b = Inr (if unat c mod 2 ^ (8 - n) * 256 ^ (n - 1) + be_nat cs = 2 ^ (7 * n) - 1
      then UnknownSize else int (unat c mod 2 ^ (8 - n) * 256 ^ (n - 1) + be_nat cs), n)"
    by (simp add: ReadSize_eq)
  from this ReadSize_bounds [OF this] show ?thesis by (simp split: sum.split)
qed

text \<open>Element IDs are lossless: an ID that was read is written back as exactly the bytes
  it was read from.\<close>

lemma ReadID_canonical:
  assumes "ReadID b = Inr (i, n)"
  shows "AppendID [] i = take n b"
  by (rule AppendID_ReadID) fact

lemma ReadID_canonical_witness:
  "ReadID [0x42, 0x86, 0x81] = Inr (0x4286, 2) \<and> AppendID [] 0x4286 = take 2 [0x42, 0x86, 0x81]"
proof -
  have "ReadID [0x42, 0x86, 0x81] = Inr (0x4286, 2)" by code_simp
  from this ReadID_canonical [OF this] show ?thesis by blast
qed

text \<open>C23: Splitting a buffer into elements loses no byte: the raw slices of the children,
  concatenated, are the buffer, and each child's header is the one found at its place.\<close>

theorem Children_lossless:
  assumes "Children b = Inr es"
  shows "concat (map e_raw es) = b \<and> list_all (child_at b) es"
  using assms Children_child_at [OF assms]
  by (simp add: Children_def ChildrenFrom_concat list_all_iff)

theorem Children_lossless_witness:
  "case Children [0xD7, 0x81, 2, 0x83, 0x81, 1] of
     Inr es \<Rightarrow> map e_id es = [IDTrackNumber, IDTrackType] \<and>
       concat (map e_raw es) = [0xD7, 0x81, 2, 0x83, 0x81, 1] \<and>
       list_all (child_at [0xD7, 0x81, 2, 0x83, 0x81, 1]) es
   | Inl e \<Rightarrow> False"
proof -
  let ?b = "[0xD7, 0x81, 2, 0x83, 0x81, 1] :: byte list"
  let ?a = "\<lparr>e_id = IDTrackNumber, e_data = [2], e_raw = [0xD7, 0x81, 2], e_pos = 0\<rparr>"
  let ?c = "\<lparr>e_id = IDTrackType, e_data = [1], e_raw = [0x83, 0x81, 1], e_pos = 3\<rparr>"
  have "Children ?b = Inr [?a, ?c]" by code_simp
  from this Children_lossless [OF this] show ?thesis by simp
qed

text \<open>C24: A master element assembled with \<open>AppendElement\<close> splits back into exactly the
  children that were written, in order.\<close>

theorem Children_roundtrip:
  assumes "\<And>i p. (i, p) \<in> set es \<Longrightarrow> element_fits i p"
  shows "\<exists>out. Children (foldl (\<lambda>dst (i, p). AppendElement dst i p) [] es) = Inr out
    \<and> map (\<lambda>e. (e_id e, e_data e)) out = es"
proof -
  have "foldl (\<lambda>dst (i, p). AppendElement dst i p) dst es
      = dst @ concat (map (\<lambda>(i, p). AppendElement [] i p) es)" for dst
  proof (induction es arbitrary: dst)
    case (Cons e es)
    then show ?case
      using AppendElement_append [of dst "fst e" "snd e"] by (cases e) simp
  qed simp
  with Children_written [of es] assms show ?thesis by simp
qed

theorem Children_roundtrip_witness:
  "\<exists>out. Children (foldl (\<lambda>dst (i, p). AppendElement dst i p) []
      [(IDTitle, [0x48, 0x69]), (IDVoid, [])]) = Inr out
    \<and> map (\<lambda>e. (e_id e, e_data e)) out = [(IDTitle, [0x48, 0x69]), (IDVoid, [])]"
proof (rule Children_roundtrip)
  fix i and p :: "byte list"
  assume "(i, p) \<in> set [(IDTitle, [0x48, 0x69]), (IDVoid, [])]"
  moreover have "valid_id IDTitle" "valid_id IDVoid" by code_simp+
  ultimately show "element_fits i p" by (auto simp: element_fits_def)
qed

text \<open>C28: Numbers survive: an unsigned integer or a representable float written as an
  element is the only child of the buffer and decodes to the same value.\<close>

theorem number_roundtrip:
  assumes "valid_id i" "f64_repr x"
  shows "(\<exists>e. Children (AppendUint [] i v) = Inr [e] \<and> e_id e = i \<and> Uint (e_data e) = Inr v)
    \<and> (\<exists>e. Children (AppendFloat [] i (Fin x)) = Inr [e] \<and> e_id e = i
        \<and> Float (e_data e) = Inr (Fin x))"
proof
  have one: "\<exists>e. Children (AppendElement [] i p) = Inr [e] \<and> e_id e = i \<and> e_data e = p"
    if "element_fits i p" for p
    using Children_written [of "[(i, p)]"] that by auto
  have "element_fits i (be_bytes (UintLenFrom v 1) v)"
    by (intro element_fits_be_bytes assms UintLen_spec)
  from one [OF this]
  show "\<exists>e. Children (AppendUint [] i v) = Inr [e] \<and> e_id e = i \<and> Uint (e_data e) = Inr v"
    by (auto simp: AppendUint_eq Uint_AppendUint [unfolded One_nat_def])
  have "element_fits i (be_bytes 8 (f64_bits (Fin x)))"
    by (intro element_fits_be_bytes assms) simp
  from one [OF this] show "\<exists>e. Children (AppendFloat [] i (Fin x)) = Inr [e] \<and> e_id e = i
      \<and> Float (e_data e) = Inr (Fin x)"
    using Float_be_bytes [OF assms(2)] by (auto simp: AppendFloat_eq simp del: f64_bits.simps)
qed

theorem number_roundtrip_witness:
  "(\<exists>e. Children (AppendUint [] IDCueTime 1001) = Inr [e] \<and> e_id e = IDCueTime
      \<and> Uint (e_data e) = Inr 1001)
    \<and> (\<exists>e. Children (AppendFloat [] IDCueTime (Fin 1001)) = Inr [e] \<and> e_id e = IDCueTime
        \<and> Float (e_data e) = Inr (Fin 1001))"
proof (rule number_roundtrip)
  show "valid_id IDCueTime" by code_simp
  show "f64_repr 1001" using f64_repr_of_int [of 1001] by simp
qed

end
