(* ===== verification/Layout.thy ===== *)
theory Layout
  imports Prelude Float64
begin

text \<open>
  \<^verbatim>\<open>internal/layout/layout.go\<close>: a virtual clip file as a list of parts, each of them
  literal bytes or a byte range of a data file.  The model follows \<open>Finalize\<close>, \<open>ReadAt\<close>,
  \<open>Append\<close>, \<open>Load\<close>, \<open>Save\<close> and \<open>WriteFileAtomic\<close>; the abstraction is the byte string a
  layout stands for, \<open>content\<close>, and the main result is that the virtual file obeys the
  contract of \<open>io.ReaderAt\<close> for it.
\<close>

section \<open>Types\<close>

definition FormatVersion :: int where "FormatVersion = 1"
definition KindMKV :: string where "KindMKV = ''mkv''"
definition KindRemux :: string where "KindRemux = ''remux''"

text \<open>\<open>Data == nil\<close> is \<open>None\<close>; a literal of no bytes is \<open>Some []\<close>.\<close>

record part =
  p_data :: "byte list option"
  p_off :: int
  p_len :: int

record FileID =
  f_path :: string
  f_size :: int
  f_mtime :: int

record layout =
  l_version :: int
  l_kind :: string
  l_origin :: FileID
  l_data :: FileID
  l_start :: f64
  l_end :: f64
  l_actual_start :: f64
  l_actual_end :: f64
  l_size :: int
  l_built :: int
  l_parts :: "part list"
  l_offsets :: "int list"

datatype layout_err =
    PartLength nat nat int
  | PartRange nat int int int
  | SizeMismatch int int
  | BadVersion int
  | BadJSON string
  | OSError string
  | NotRegular string

section \<open>File identities\<close>

text \<open>What \<open>os.Stat\<close> tells of a file.\<close>

record file_info =
  fi_regular :: bool
  fi_dir :: bool
  fi_size :: int
  fi_mtime :: int

definition Stat :: "(string \<Rightarrow> string + file_info) \<Rightarrow> string \<Rightarrow> layout_err + FileID" where
  "Stat stat path =
     (case stat path of Inl e \<Rightarrow> Inl (OSError e)
      | Inr info \<Rightarrow>
        if \<not> fi_regular info then Inl (NotRegular path)
        else Inr \<lparr>f_path = path, f_size = fi_size info, f_mtime = fi_mtime info\<rparr>)"

definition Matches :: "FileID \<Rightarrow> string + file_info \<Rightarrow> bool" where
  "Matches i f =
     (case f of Inl e \<Rightarrow> False
      | Inr info \<Rightarrow> fi_size info = f_size i \<and> fi_mtime info = f_mtime i)"

section \<open>Finalize\<close>

text \<open>The loop over the parts from index \<open>i\<close>: it fills \<open>offsets\<close> in place and stops at the
  first bad part.  The parts may come from a file, so their sums wrap around as \<open>int64\<close>.\<close>

fun finalize_parts ::
  "int \<Rightarrow> part list \<Rightarrow> nat \<Rightarrow> int \<Rightarrow> int list \<Rightarrow> int list \<times> (layout_err + int)" where
  "finalize_parts dsize [] i pos offs = (offs, Inr pos)"
| "finalize_parts dsize (p # ps) i pos offs =
     (case p_data p of
        Some d \<Rightarrow>
          if int (length d) \<noteq> p_len p then (offs, Inl (PartLength i (length d) (p_len p)))
          else finalize_parts dsize ps (Suc i) (wrap64 (pos + p_len p)) (offs[i := pos])
      | None \<Rightarrow>
          if p_len p \<le> 0 \<or> p_off p < 0 \<or> dsize < wrap64 (p_off p + p_len p)
          then (offs, Inl (PartRange i (p_off p) (p_len p) dsize))
          else finalize_parts dsize ps (Suc i) (wrap64 (pos + p_len p)) (offs[i := pos]))"

definition Finalize :: "layout \<Rightarrow> layout \<times> layout_err option" where
  "Finalize l =
     (case finalize_parts (f_size (l_data l)) (l_parts l) 0 0 (replicate (length (l_parts l)) 0) of
        (offs, Inl e) \<Rightarrow> (l\<lparr>l_offsets := offs\<rparr>, Some e)
      | (offs, Inr pos) \<Rightarrow>
          if l_size l \<noteq> 0 \<and> l_size l \<noteq> pos
          then (l\<lparr>l_offsets := offs\<rparr>, Some (SizeMismatch (l_size l) pos))
          else (l\<lparr>l_offsets := offs, l_size := pos\<rparr>, None))"

section \<open>ReadAt\<close>

text \<open>Copying \<open>bs\<close> into the buffer at \<open>n\<close>.\<close>

definition splice :: "byte list \<Rightarrow> nat \<Rightarrow> byte list \<Rightarrow> byte list" where
  "splice p n bs = take n p @ bs @ drop (n + length bs) p"

text \<open>The loop of \<open>ReadAt\<close>: part index \<open>i\<close>, \<open>n\<close> bytes of the buffer \<open>p\<close> filled.  The outer
  \<open>None\<close> is a run-time panic (an index or a slice bound out of range).\<close>

function read_parts ::
  "layout \<Rightarrow> reader \<Rightarrow> int \<Rightarrow> nat \<Rightarrow> nat \<Rightarrow> byte list \<Rightarrow> (byte list \<times> nat \<times> io_err option) option"
where
  "read_parts l r off i n p =
     (if i < length (l_parts l) \<and> n < length p then
        if length (l_offsets l) \<le> i then None
        else let part = l_parts l ! i;
                 inner = wrap64 (off + int n - l_offsets l ! i);
                 left = wrap64 (p_len part - inner);
                 rest = int (length p - n);
                 want = (if rest < left then rest else left)
             in if want < 0 then None
                else (case p_data part of
                    Some d \<Rightarrow>
                      if inner < 0 \<or> int (length d) < inner then None
                      else read_parts l r off (Suc i) (n + nat want)
                        (splice p n (take (nat want) (drop (nat inner) d)))
                  | None \<Rightarrow>
                      (case r (wrap64 (p_off part + inner)) (nat want) of
                         (got, err) \<Rightarrow>
                           if length got < nat want
                           then Some (splice p n got, n + length got,
                             Some (case err of None \<Rightarrow> UnexpectedEOF | Some EOF \<Rightarrow> UnexpectedEOF
                               | Some e \<Rightarrow> e))
                           else read_parts l r off (Suc i) (n + nat want) (splice p n got)))
      else Some (p, n, if n < length p then Some EOF else None))"
  by pat_completeness auto
termination
  by (relation "measure (\<lambda>(l, r, off, i, n, p). length (l_parts l) - i)") auto

declare read_parts.simps [simp del]

definition ReadAt ::
  "layout \<Rightarrow> byte list \<Rightarrow> int \<Rightarrow> reader \<Rightarrow> (byte list \<times> nat \<times> io_err option) option" where
  "ReadAt l p off r =
     (if l_size l \<le> off then Some (p, 0, Some EOF)
      else let i = int (sort_Search (length (l_offsets l)) (\<lambda>i. off < l_offsets l ! i)) - 1
           in if i < 0 then (if p = [] then Some (p, 0, None) else None)
              else read_parts l r off (nat i) 0 p)"

section \<open>Building part lists\<close>

text \<open>\<open>Append\<close> updates the last part through a pointer or appends a new one.  It is called
  with positions inside a media file only, so its sums do not wrap.\<close>

definition Append :: "part list \<Rightarrow> part \<Rightarrow> part list" where
  "Append parts p =
     (if p_len p = 0 then parts
      else if parts = [] then parts @ [p]
      else let last = last parts in
        (case (p_data p, p_data last) of
           (None, None) \<Rightarrow>
             if p_off last + p_len last = p_off p
             then butlast parts @ [last\<lparr>p_len := p_len last + p_len p\<rparr>]
             else parts @ [p]
         | (Some d, Some d') \<Rightarrow>
             butlast parts @ [last\<lparr>p_data := Some (d' @ d), p_len := p_len last + p_len p\<rparr>]
         | _ \<Rightarrow> parts @ [p]))"

definition Literal :: "byte list \<Rightarrow> part" where
  "Literal b = \<lparr>p_data = Some b, p_off = 0, p_len = int (length b)\<rparr>"

definition Range :: "int \<Rightarrow> int \<Rightarrow> part" where
  "Range off n = \<lparr>p_data = None, p_off = off, p_len = n\<rparr>"

section \<open>Saving and loading\<close>

text \<open>Reading a file and \<open>encoding/json\<close> are parameters.\<close>

definition Load ::
  "(string \<Rightarrow> string + byte list) \<Rightarrow> (byte list \<Rightarrow> string + layout) \<Rightarrow> string \<Rightarrow> layout_err + layout"
where
  "Load read_file unmarshal path =
     (case read_file path of Inl e \<Rightarrow> Inl (OSError e)
      | Inr b \<Rightarrow>
        (case unmarshal b of Inl e \<Rightarrow> Inl (BadJSON e)
         | Inr l \<Rightarrow>
           if l_version l \<noteq> FormatVersion then Inl (BadVersion (l_version l))
           else (case Finalize l of (l', Some e) \<Rightarrow> Inl e | (l', None) \<Rightarrow> Inr l')))"

text \<open>
  \<open>WriteFileAtomic\<close> on a file system \<open>path \<mapsto> (content, mode)\<close>.  The outcome of each system
  call is a parameter: the name of the temporary file or an error, how many bytes the write
  stored and whether it and each later call failed, the removal of the temporary file when
  the function returns included (its error is ignored).  The result is every state the file system
  goes through, in order, and the error.
\<close>

type_synonym fs = "string \<Rightarrow> (byte list \<times> nat) option"

record write_env =
  w_create :: "string + string"
  w_wrote :: nat
  w_write :: "string option"
  w_chmod :: "string option"
  w_sync :: "string option"
  w_close :: "string option"
  w_rename :: "string option"
  w_remove :: "string option"

definition WriteFileAtomic ::
  "write_env \<Rightarrow> fs \<Rightarrow> string \<Rightarrow> byte list \<Rightarrow> nat \<Rightarrow> fs list \<times> string option" where
  "WriteFileAtomic env fs path data perm =
     (case w_create env of Inl e \<Rightarrow> ([fs], Some e)
      | Inr tmp \<Rightarrow>
        let created = fs(tmp \<mapsto> ([], 0x180));
            removed = (\<lambda>s :: fs. if w_remove env = None then s(tmp := None) else s)
        in (case w_write env of
              Some e \<Rightarrow>
                let part = fs(tmp \<mapsto> (take (w_wrote env) data, 0x180))
                in ([fs, created, part, removed part], Some e)
            | None \<Rightarrow>
                let full = fs(tmp \<mapsto> (data, 0x180)) in
                (case w_chmod env of
                   Some e \<Rightarrow> ([fs, created, full, removed full], Some e)
                 | None \<Rightarrow>
                     let final = fs(tmp \<mapsto> (data, perm)) in
                     (case (w_sync env, w_close env, w_rename env) of
                        (Some e, _) \<Rightarrow> ([fs, created, full, final, removed final], Some e)
                      | (None, Some e, _) \<Rightarrow> ([fs, created, full, final, removed final], Some e)
                      | (None, None, Some e) \<Rightarrow> ([fs, created, full, final, removed final], Some e)
                      | (None, None, None) \<Rightarrow>
                          let renamed = (fs(tmp := None))(path \<mapsto> (data, perm))
                          in ([fs, created, full, final, renamed, removed renamed], None)))))"

definition Save ::
  "(layout \<Rightarrow> string + byte list) \<Rightarrow> write_env \<Rightarrow> fs \<Rightarrow> layout \<Rightarrow> string \<Rightarrow> fs list \<times> string option"
where
  "Save marshal env fs l path =
     (case marshal l of Inl e \<Rightarrow> ([fs], Some e) | Inr b \<Rightarrow> WriteFileAtomic env fs path b 0x1A4)"

section \<open>What a layout stands for\<close>

definition part_ok :: "int \<Rightarrow> part \<Rightarrow> bool" where
  "part_ok dsize p =
     (case p_data p of
        Some d \<Rightarrow> p_len p = int (length d)
      | None \<Rightarrow> 0 < p_len p \<and> 0 \<le> p_off p \<and> p_off p + p_len p \<le> dsize)"

definition part_bytes :: "byte list \<Rightarrow> part \<Rightarrow> byte list" where
  "part_bytes f p =
     (case p_data p of
        Some d \<Rightarrow> d
      | None \<Rightarrow> take (nat (p_len p)) (drop (nat (p_off p)) f))"

definition parts_content :: "byte list \<Rightarrow> part list \<Rightarrow> byte list" where
  "parts_content f ps = concat (map (part_bytes f) ps)"

definition parts_len :: "part list \<Rightarrow> int" where
  "parts_len ps = sum_list (map p_len ps)"

text \<open>The start of part \<open>i\<close>.\<close>

definition part_start :: "part list \<Rightarrow> nat \<Rightarrow> int" where
  "part_start ps i = parts_len (take i ps)"

lemma parts_len_simps [simp]:
  "parts_len [] = 0" "parts_len (p # ps) = p_len p + parts_len ps"
  "parts_len (ps @ qs) = parts_len ps + parts_len qs"
  by (simp_all add: parts_len_def)

lemma parts_content_simps [simp]:
  "parts_content f [] = []" "parts_content f (p # ps) = part_bytes f p @ parts_content f ps"
  "parts_content f (ps @ qs) = parts_content f ps @ parts_content f qs"
  by (simp_all add: parts_content_def)

lemma part_ok_len_nonneg: "part_ok n p \<Longrightarrow> 0 \<le> p_len p"
  by (auto simp: part_ok_def split: option.splits)

lemma length_part_bytes:
  "part_ok (int (length f)) p \<Longrightarrow> int (length (part_bytes f p)) = p_len p"
  by (auto simp: part_ok_def part_bytes_def split: option.splits)

lemma length_parts_content:
  "list_all (part_ok (int (length f))) ps \<Longrightarrow> int (length (parts_content f ps)) = parts_len ps"
  by (induction ps) (auto simp: length_part_bytes)

text \<open>The check as \<open>int64\<close> arithmetic makes it, and the parts for which it means what it says:
  no range ends, and their total does not end, beyond the largest \<open>int64\<close>.\<close>

definition part_ok64 :: "int \<Rightarrow> part \<Rightarrow> bool" where
  "part_ok64 dsize p =
     (case p_data p of
        Some d \<Rightarrow> p_len p = int (length d)
      | None \<Rightarrow> 0 < p_len p \<and> 0 \<le> p_off p \<and> wrap64 (p_off p + p_len p) \<le> dsize)"

definition fits :: "part list \<Rightarrow> bool" where
  "fits ps \<longleftrightarrow> list_all (\<lambda>p. p_data p = None \<longrightarrow> p_off p + p_len p < 2 ^ 63) ps
     \<and> parts_len ps < 2 ^ 63"

lemma part_ok64_fits:
  assumes "fits ps"
  shows "list_all (part_ok64 n) ps \<longleftrightarrow> list_all (part_ok n) ps"
proof -
  have "part_ok64 n p = part_ok n p" if "p \<in> set ps" for p
    using assms that by (auto simp: fits_def list_all_iff part_ok64_def part_ok_def wrap64_nonneg
        split: option.splits)
  then show ?thesis by (simp add: list_all_iff)
qed

lemma part_ok_fits:
  assumes "list_all (part_ok n) ps" "n < 2 ^ 63" "parts_len ps < 2 ^ 63"
  shows "fits ps"
  using assms by (fastforce simp: fits_def list_all_iff part_ok_def split: option.splits)

section \<open>Finalize computes the index\<close>

lemma finalize_parts_ok:
  assumes "list_all (part_ok64 dsize) ps" "length offs = i + length ps"
  shows "finalize_parts dsize ps i (wrap64 pos) offs =
    (take i offs @ map (\<lambda>k. wrap64 (pos + part_start ps k)) [0..<length ps],
     Inr (wrap64 (pos + parts_len ps)))"
  using assms
proof (induction ps arbitrary: i pos offs)
  case (Cons p ps)
  let ?offs = "offs[i := wrap64 pos]"
  have "finalize_parts dsize (p # ps) i (wrap64 pos) offs =
      finalize_parts dsize ps (Suc i) (wrap64 (pos + p_len p)) ?offs"
    using Cons.prems(1) by (auto simp: part_ok64_def wrap64_add split: option.splits)
  also have "\<dots> = (take (Suc i) ?offs
        @ map (\<lambda>k. wrap64 (pos + p_len p + part_start ps k)) [0..<length ps],
      Inr (wrap64 (pos + p_len p + parts_len ps)))"
    using Cons.prems by (intro Cons.IH) simp_all
  also have "take (Suc i) ?offs = take i offs @ [wrap64 pos]"
    using Cons.prems(2) by (simp add: take_Suc_conv_app_nth)
  also have "map (\<lambda>k. wrap64 (pos + part_start (p # ps) k)) [0..<length (p # ps)] =
      wrap64 pos # map (\<lambda>k. wrap64 (pos + p_len p + part_start ps k)) [0..<length ps]"
    by (simp add: map_upt_Suc part_start_def add.assoc del: upt_Suc)
  then have "(take i offs @ [wrap64 pos])
        @ map (\<lambda>k. wrap64 (pos + p_len p + part_start ps k)) [0..<length ps]
      = take i offs @ map (\<lambda>k. wrap64 (pos + part_start (p # ps) k)) [0..<length (p # ps)]"
    by simp
  finally show ?case by (simp only: parts_len_simps add.assoc)
qed simp

lemma finalize_parts_Inr:
  "finalize_parts dsize ps i pos offs = (offs', Inr pos') \<Longrightarrow> list_all (part_ok64 dsize) ps"
  by (induction ps arbitrary: i pos offs)
    (auto simp: part_ok64_def split: option.splits if_splits)

definition index_of :: "part list \<Rightarrow> int list" where
  "index_of ps = map (\<lambda>i. wrap64 (part_start ps i)) [0..<length ps]"

lemma length_index_of [simp]: "length (index_of ps) = length ps"
  by (simp add: index_of_def)

text \<open>What \<open>Finalize\<close> makes of a layout it accepts, for any parts.\<close>

definition with_index :: "layout \<Rightarrow> layout" where
  "with_index l = l\<lparr>l_offsets := index_of (l_parts l), l_size := wrap64 (parts_len (l_parts l))\<rparr>"

lemma Finalize_with_index:
  assumes "list_all (part_ok64 (f_size (l_data l))) (l_parts l)"
    "l_size l = 0 \<or> l_size l = wrap64 (parts_len (l_parts l))"
  shows "Finalize l = (with_index l, None)"
  using assms(2) finalize_parts_ok [OF assms(1), of "replicate (length (l_parts l)) 0" 0 0]
  by (auto simp: Finalize_def index_of_def with_index_def)

lemma Finalize_None64:
  assumes "Finalize l = (l', None)"
  shows "list_all (part_ok64 (f_size (l_data l))) (l_parts l)"
    "l_size l = 0 \<or> l_size l = wrap64 (parts_len (l_parts l))"
    "l' = with_index l"
proof -
  obtain offs pos where f: "finalize_parts (f_size (l_data l)) (l_parts l) 0 0
      (replicate (length (l_parts l)) 0) = (offs, Inr pos)"
    using assms by (auto simp: Finalize_def split: prod.splits sum.splits)
  show ok: "list_all (part_ok64 (f_size (l_data l))) (l_parts l)"
    using f by (rule finalize_parts_Inr)
  have "offs = index_of (l_parts l)" "pos = wrap64 (parts_len (l_parts l))"
    using f finalize_parts_ok [OF ok, of "replicate (length (l_parts l)) 0" 0 0]
    by (auto simp: index_of_def)
  with f assms show "l_size l = 0 \<or> l_size l = wrap64 (parts_len (l_parts l))" "l' = with_index l"
    by (auto simp: Finalize_def with_index_def split: if_splits)
qed

text \<open>A layout as \<open>Finalize\<close> leaves it, and one whose ranges and total also fit: the layouts
  whose index is the true one.\<close>

definition accepted :: "layout \<Rightarrow> bool" where
  "accepted l \<longleftrightarrow> Finalize l = (l, None)"

definition finalized :: "layout \<Rightarrow> bool" where
  "finalized l \<longleftrightarrow> list_all (part_ok (f_size (l_data l))) (l_parts l)
     \<and> l_offsets l = map (part_start (l_parts l)) [0..<length (l_parts l)]
     \<and> l_size l = parts_len (l_parts l) \<and> fits (l_parts l)"

lemma Finalize_accepted:
  assumes "Finalize l = (l', None)"
  shows "accepted l'"
proof -
  note F = Finalize_None64 [OF assms]
  have "Finalize (with_index l) = (with_index (with_index l), None)"
    using F by (intro Finalize_with_index) (simp_all add: with_index_def)
  also have "with_index (with_index l) = with_index l" by (simp add: with_index_def)
  finally show ?thesis using F(3) by (simp add: accepted_def)
qed

lemma Finalize_fields:
  assumes "Finalize l = (l', None)"
  shows "l_parts l' = l_parts l" "l_data l' = l_data l" "l_version l' = l_version l"
    "l_origin l' = l_origin l" "l_start l' = l_start l" "l_end l' = l_end l"
  using Finalize_None64(3) [OF assms] by (simp_all add: with_index_def)

lemma Finalize_again: "accepted l \<Longrightarrow> Finalize (l\<lparr>l_offsets := x\<rparr>) = (l, None)"
  by (auto simp: accepted_def Finalize_def split: prod.splits sum.splits if_splits)

lemma part_ok_nonneg: "list_all (part_ok n) ps \<Longrightarrow> 0 \<le> parts_len ps"
  by (induction ps) (auto dest: part_ok_len_nonneg)

lemma part_start_bounds:
  assumes "list_all (part_ok n) ps"
  shows "0 \<le> part_start ps i" "part_start ps i \<le> parts_len ps"
proof -
  have "list_all (part_ok n) (take i ps @ drop i ps)" using assms by simp
  then have s: "list_all (part_ok n) (take i ps)" "list_all (part_ok n) (drop i ps)"
    by (simp_all only: list_all_append)
  have "parts_len ps = part_start ps i + parts_len (drop i ps)"
    by (simp add: part_start_def flip: parts_len_simps(3))
  with s show "0 \<le> part_start ps i" "part_start ps i \<le> parts_len ps"
    by (simp_all add: part_ok_nonneg part_start_def)
qed

lemma with_index_fits:
  assumes "list_all (part_ok (f_size (l_data l))) (l_parts l)" "fits (l_parts l)"
  shows "with_index l = l\<lparr>l_offsets := map (part_start (l_parts l)) [0..<length (l_parts l)],
    l_size := parts_len (l_parts l)\<rparr>"
proof -
  have "parts_len (l_parts l) < 2 ^ 63" using assms(2) by (simp add: fits_def)
  then have "wrap64 (part_start (l_parts l) i) = part_start (l_parts l) i"
    "wrap64 (parts_len (l_parts l)) = parts_len (l_parts l)" for i
    using part_start_bounds [OF assms(1), of i] part_ok_nonneg [OF assms(1)]
    by (simp_all add: wrap64_nonneg)
  then show ?thesis by (simp add: with_index_def index_of_def)
qed

lemma Finalize_ok:
  assumes "list_all (part_ok (f_size (l_data l))) (l_parts l)"
    "l_size l = 0 \<or> l_size l = parts_len (l_parts l)" "fits (l_parts l)"
  shows "Finalize l = (l\<lparr>l_offsets := map (part_start (l_parts l)) [0..<length (l_parts l)],
    l_size := parts_len (l_parts l)\<rparr>, None)"
proof -
  have "wrap64 (parts_len (l_parts l)) = parts_len (l_parts l)"
    using assms(3) part_ok_nonneg [OF assms(1)] by (simp add: fits_def wrap64_nonneg)
  with assms Finalize_with_index [of l] with_index_fits [OF assms(1,3)] show ?thesis
    by (simp add: part_ok64_fits)
qed

lemma Finalize_None:
  assumes "Finalize l = (l', None)" "fits (l_parts l)"
  shows "list_all (part_ok (f_size (l_data l))) (l_parts l)"
    "l_size l = 0 \<or> l_size l = parts_len (l_parts l)"
    "l' = l\<lparr>l_offsets := map (part_start (l_parts l)) [0..<length (l_parts l)],
       l_size := parts_len (l_parts l)\<rparr>"
proof -
  show ok: "list_all (part_ok (f_size (l_data l))) (l_parts l)"
    using Finalize_None64(1) [OF assms(1)] assms(2) by (simp add: part_ok64_fits)
  have "wrap64 (parts_len (l_parts l)) = parts_len (l_parts l)"
    using assms(2) part_ok_nonneg [OF ok] by (simp add: fits_def wrap64_nonneg)
  with Finalize_None64(2,3) [OF assms(1)] with_index_fits [OF ok assms(2)]
  show "l_size l = 0 \<or> l_size l = parts_len (l_parts l)"
    "l' = l\<lparr>l_offsets := map (part_start (l_parts l)) [0..<length (l_parts l)],
       l_size := parts_len (l_parts l)\<rparr>"
    by simp_all
qed

lemma Finalize_finalized: "Finalize l = (l', None) \<Longrightarrow> fits (l_parts l) \<Longrightarrow> finalized l'"
  using Finalize_None by (fastforce simp: finalized_def)

lemma accepted_finalized: "accepted l \<Longrightarrow> fits (l_parts l) \<Longrightarrow> finalized l"
  by (simp add: accepted_def Finalize_finalized)

section \<open>ReadAt serves the content\<close>

lemma splice_Nil [simp]: "splice p n [] = p"
  by (simp add: splice_def)

lemma length_splice: "n + length bs \<le> length p \<Longrightarrow> length (splice p n bs) = length p"
  by (simp add: splice_def)

lemma splice_splice:
  "n + length bs \<le> length p \<Longrightarrow>
     splice (splice p n bs) (n + length bs) cs = splice p n (bs @ cs)"
  by (simp add: splice_def add.commute add.left_commute)

lemma part_start_0 [simp]: "part_start ps 0 = 0"
  by (simp add: part_start_def)

lemma part_start_Suc: "i < length ps \<Longrightarrow> part_start ps (Suc i) = part_start ps i + p_len (ps ! i)"
  by (simp add: part_start_def take_Suc_conv_app_nth)

lemma part_start_length [simp]: "part_start ps (length ps) = parts_len ps"
  by (simp add: part_start_def)

lemma part_start_mono:
  assumes "list_all (part_ok n) ps" "i \<le> j" "j \<le> length ps"
  shows "part_start ps i \<le> part_start ps j"
  using assms(2,3)
proof (induction j rule: dec_induct)
  case (step j)
  then have j: "j < length ps" by simp
  with assms(1) have "part_ok n (ps ! j)" by (simp add: list_all_length)
  from part_ok_len_nonneg [OF this] step.IH j show ?case by (simp add: part_start_Suc)
qed simp

lemma part_start_nonneg:
  "list_all (part_ok n) ps \<Longrightarrow> i \<le> length ps \<Longrightarrow> 0 \<le> part_start ps i"
  using part_start_mono [of n ps 0 i] by simp

lemma drop_content_start:
  assumes "list_all (part_ok (int (length f))) ps" "i \<le> length ps"
  shows "drop (nat (part_start ps i)) (parts_content f ps) = parts_content f (drop i ps)"
proof -
  have "list_all (part_ok (int (length f))) (take i ps)"
    using assms(1) by (simp add: list_all_length)
  then have "nat (part_start ps i) = length (parts_content f (take i ps))"
    unfolding part_start_def by (simp flip: length_parts_content)
  moreover have "parts_content f ps = parts_content f (take i ps) @ parts_content f (drop i ps)"
    by (simp flip: parts_content_simps(3))
  ultimately show ?thesis by simp
qed

lemma drop_content:
  assumes ok: "list_all (part_ok (int (length f))) ps" and i: "i < length ps"
    and k: "part_start ps i \<le> int k" "int k \<le> part_start ps (Suc i)"
  shows "drop k (parts_content f ps) =
    drop (nat (int k - part_start ps i)) (part_bytes f (ps ! i)) @ parts_content f (drop (Suc i) ps)"
proof -
  let ?s = "nat (part_start ps i)" and ?w = "nat (int k - part_start ps i)"
  have nn: "0 \<le> part_start ps i" using ok i by (simp add: part_start_nonneg)
  have w: "?w \<le> length (part_bytes f (ps ! i))"
    using k i ok length_part_bytes [of f "ps ! i"] by (simp add: part_start_Suc list_all_length)
  have "k = ?w + ?s" using nn k by simp
  then have "drop k (parts_content f ps) = drop ?w (drop ?s (parts_content f ps))"
    by (simp only: drop_drop)
  also have "drop ?s (parts_content f ps) = parts_content f (ps ! i # drop (Suc i) ps)"
    using ok i by (simp add: drop_content_start Cons_nth_drop_Suc del: parts_content_simps)
  finally show ?thesis using w by simp
qed

context reader_at
begin

lemma read_parts_content:
  assumes fin: "finalized l" and size: "f_size (l_data l) = int (length content)"
    and off: "0 \<le> off" and n: "n \<le> length p"
    and at: "i \<le> length (l_parts l)"
      "n = length p \<or> part_start (l_parts l) i \<le> off + int n
        \<and> off + int n \<le> part_start (l_parts l) (min (Suc i) (length (l_parts l)))"
  defines "C \<equiv> parts_content content (l_parts l)"
  shows "read_parts l r off i n p =
    (let got = take (length p - n) (drop (nat off + n) C)
     in Some (splice p n got, n + length got, if n + length got < length p then Some EOF else None))"
  using n at
proof (induction "length (l_parts l) - i" arbitrary: i n p)
  case 0
  then have i: "i = length (l_parts l)" by simp
  have none: "take (length p - n) (drop (nat off + n) C) = []"
  proof (cases "n = length p")
    case False
    with "0.prems"(3) i have "off + int n = parts_len (l_parts l)" by simp
    moreover have "int (length C) = parts_len (l_parts l)"
      unfolding C_def using fin size by (simp add: finalized_def length_parts_content)
    ultimately have "length C = nat off + n" using off by linarith
    then show ?thesis by simp
  qed simp
  have "read_parts l r off i n p = Some (p, n, if n < length p then Some EOF else None)"
    by (subst read_parts.simps) (simp add: i)
  then show ?case unfolding none Let_def by simp
next
  case (Suc m)
  let ?ps = "l_parts l" and ?got = "take (length p - n) (drop (nat off + n) C)"
  have i: "i < length ?ps" using Suc.hyps(2) by simp
  show ?case
  proof (cases "n = length p")
    case True
    then show ?thesis by (simp add: read_parts.simps [of l r off i])
  next
    case False
    let ?part = "?ps ! i" and ?pb = "part_bytes content (?ps ! i)"
    define inner where "inner = off + int n - part_start ?ps i"
    define want where "want = (if int (length p - n) < p_len ?part - inner
      then int (length p - n) else p_len ?part - inner)"
    have ok: "list_all (part_ok (int (length content))) ?ps" and fit: "fits ?ps"
      and idx: "l_offsets l = map (part_start ?ps) [0..<length ?ps]"
      using fin size by (simp_all add: finalized_def)
    then have okp: "part_ok (int (length content)) ?part" using i by (simp add: list_all_length)
    note plen = length_part_bytes [OF okp]
    have inner: "0 \<le> inner" "inner \<le> p_len ?part"
      using Suc.prems(3) False i by (auto simp: inner_def part_start_Suc min_def)
    have want: "0 \<le> want" "want \<le> int (length p - n)" "nat inner + nat want \<le> length ?pb"
      using inner plen Suc.prems(1) False by (auto simp: want_def)
    let ?x = "take (nat want) (drop (nat inner) ?pb)"
    have lx: "length ?x = nat want" using want by simp
    have oi: "l_offsets l ! i = part_start ?ps i" using i by (simp add: idx)
    have "p_len ?part < 2 ^ 63"
      using part_start_bounds [OF ok, of i] part_start_bounds [OF ok, of "Suc i"] fit i
      by (simp add: part_start_Suc fits_def)
    with inner have w: "wrap64 (off + int n - part_start ?ps i) = inner"
      "wrap64 (p_len ?part - inner) = p_len ?part - inner"
      by (simp_all add: inner_def [symmetric] wrap64_nonneg)
    have "drop (nat off + n) C = drop (nat inner) ?pb @ parts_content content (drop (Suc i) ?ps)"
      unfolding C_def using drop_content [OF ok i, of "nat off + n"] inner off i
      by (simp add: inner_def part_start_Suc algebra_simps)
    then have x: "take (nat want) (drop (nat off + n) C) = ?x" using want(3) by simp
    have split: "?got = ?x @ take (length p - (n + nat want)) (drop (nat off + (n + nat want)) C)"
    proof -
      have "length p - n = nat want + (length p - (n + nat want))" using want(1,2) by linarith
      then have "?got = take (nat want) (drop (nat off + n) C)
          @ take (length p - (n + nat want)) (drop (nat want) (drop (nat off + n) C))"
        by (metis take_add)
      moreover have "drop (nat want) (drop (nat off + n) C) = drop (nat off + (n + nat want)) C"
        by (simp add: add.commute add.left_commute)
      ultimately show ?thesis by (simp only: x)
    qed
    have n': "n + length ?x \<le> length p"
      unfolding lx using want(1,2) Suc.prems(1) by linarith
    have IH: "read_parts l r off (Suc i) (n + nat want) (splice p n ?x) =
      (let got = take (length p - (n + nat want)) (drop (nat off + (n + nat want)) C)
       in Some (splice (splice p n ?x) (n + nat want) got, n + nat want + length got,
            if n + nat want + length got < length p then Some EOF else None))"
    proof -
      let ?p = "splice p n ?x"
      have lp: "length ?p = length p" using n' by (rule length_splice)
      have "n + nat want = length ?p \<or> part_start ?ps (Suc i) \<le> off + int (n + nat want)
          \<and> off + int (n + nat want) \<le> part_start ?ps (min (Suc (Suc i)) (length ?ps))"
      proof (cases "int (length p - n) < p_len ?part - inner")
        case True
        then have "n + nat want = length p" using Suc.prems(1) by (simp add: want_def)
        then show ?thesis using lp by simp
      next
        case False
        then have "off + int (n + nat want) = part_start ?ps (Suc i)"
          using inner i by (simp add: want_def inner_def part_start_Suc)
        then show ?thesis
          using part_start_mono [OF ok, of "Suc i" "min (Suc (Suc i)) (length ?ps)"] i by simp
      qed
      with Suc.hyps(1) [of "Suc i" "n + nat want" ?p] Suc.hyps(2) i n' lx
      show ?thesis by (simp only: lp)
    qed
    have guards: "i < length ?ps \<and> n < length p" "\<not> length (l_offsets l) \<le> i" "\<not> want < 0"
      using i False Suc.prems(1) want(1) by (simp_all add: idx)
    have unf: "read_parts l r off i n p =
      (case p_data ?part of
         Some d \<Rightarrow>
           if inner < 0 \<or> int (length d) < inner then None
           else read_parts l r off (Suc i) (n + nat want)
             (splice p n (take (nat want) (drop (nat inner) d)))
       | None \<Rightarrow>
           (case r (wrap64 (p_off ?part + inner)) (nat want) of
              (got, err) \<Rightarrow>
                if length got < nat want
                then Some (splice p n got, n + length got,
                  Some (case err of None \<Rightarrow> UnexpectedEOF | Some EOF \<Rightarrow> UnexpectedEOF
                    | Some e \<Rightarrow> e))
                else read_parts l r off (Suc i) (n + nat want) (splice p n got)))"
      by (subst read_parts.simps)
        (simp only: guards Let_def oi w want_def [symmetric] if_True if_False simp_thms)
    have step: "read_parts l r off i n p =
        read_parts l r off (Suc i) (n + nat want) (splice p n ?x)"
    proof (cases "p_data ?part")
      case (Some d)
      then have pb: "?pb = d" "p_len ?part = int (length d)"
        using okp by (simp_all add: part_bytes_def part_ok_def)
      show ?thesis using inner by (simp add: unf Some pb)
    next
      case None
      have rng: "0 \<le> p_off ?part" "p_off ?part + p_len ?part \<le> int (length content)"
        "?pb = take (nat (p_len ?part)) (drop (nat (p_off ?part)) content)"
        using okp None by (simp_all add: part_bytes_def part_ok_def)
      have "p_off ?part + p_len ?part < 2 ^ 63"
        using fit None i by (auto simp: fits_def list_all_length)
      then have at0: "0 \<le> p_off ?part + inner" "wrap64 (p_off ?part + inner) = p_off ?part + inner"
        using rng inner by (simp_all add: wrap64_nonneg)
      obtain got err where ge: "r (p_off ?part + inner) (nat want) = (got, err)" by fastforce
      have "got = take (nat want) (drop (nat (p_off ?part + inner)) content)"
        using read_bytes [OF at0(1), of "nat want"] ge by simp
      also have "\<dots> = take (nat want) (drop (nat inner) (drop (nat (p_off ?part)) content))"
        using rng(1) inner(1) by (simp add: nat_add_distrib add.commute)
      also have "\<dots> = ?x"
      proof -
        have "nat want \<le> nat (p_len ?part) - nat inner" using want(3) plen by linarith
        then show ?thesis by (simp only: rng(3) drop_take take_take min_absorb1)
      qed
      finally have got: "got = ?x" .
      show ?thesis using lx by (simp only: unf None at0(2) ge got option.case prod.case) simp
    qed
    show ?thesis
      unfolding step IH Let_def split
      using n' lx by (simp add: splice_splice [of n ?x p "_", unfolded lx] add.assoc)
  qed
qed

end

definition layout_content :: "byte list \<Rightarrow> layout \<Rightarrow> byte list" where
  "layout_content f l = parts_content f (l_parts l)"

text \<open>The part the binary search picks holds the offset.\<close>

lemma search_part:
  assumes fin: "finalized l" and off: "0 \<le> off" "off < l_size l"
  defines "s \<equiv> sort_Search (length (l_offsets l)) (\<lambda>i. off < l_offsets l ! i)"
  shows "0 < s" "s \<le> length (l_parts l)" "part_start (l_parts l) (s - 1) \<le> off"
    "off < part_start (l_parts l) s"
proof -
  let ?ps = "l_parts l" and ?P = "\<lambda>i. off < l_offsets l ! i"
  have idx: "l_offsets l = map (part_start ?ps) [0..<length ?ps]" and ok: "list_all (part_ok (f_size (l_data l))) ?ps"
    and size: "l_size l = parts_len ?ps"
    using fin by (simp_all add: finalized_def)
  have at: "k < length ?ps \<Longrightarrow> l_offsets l ! k = part_start ?ps k" for k
    by (simp add: idx)
  have "?ps \<noteq> []" using off size by auto
  then have len: "0 < length ?ps" by simp
  show le: "s \<le> length ?ps" using sort_Search_le [of "length ?ps" ?P] by (simp add: s_def idx)
  show pos: "0 < s"
  proof (rule ccontr)
    assume "\<not> 0 < s"
    with sort_Search_at [of "length (l_offsets l)" ?P] len at [of 0] off
    show False by (simp add: s_def idx)
  qed
  from sort_Search_before [of "length (l_offsets l)" ?P] pos le at [of "s - 1"]
  show "part_start ?ps (s - 1) \<le> off" by (simp add: s_def [symmetric])
  show "off < part_start ?ps s"
  proof (cases "s < length ?ps")
    case True
    with sort_Search_at [of "length (l_offsets l)" ?P] at [of s]
    show ?thesis by (simp add: s_def [symmetric] idx [symmetric]) (simp add: idx)
  next
    case False
    with le off size show ?thesis by simp
  qed
qed

context reader_at
begin

lemma ReadAt_content:
  fixes p :: "byte list"
  assumes fin: "finalized l" and size: "f_size (l_data l) = int (length content)"
    and off: "0 \<le> off"
  defines "got \<equiv> take (length p) (drop (nat off) (layout_content content l))"
  shows "ReadAt l p off r =
    Some (splice p 0 got, length got, if l_size l \<le> off \<or> length got < length p then Some EOF else None)"
proof (cases "l_size l \<le> off")
  case True
  have "int (length (layout_content content l)) = l_size l"
    using fin size by (simp add: finalized_def layout_content_def length_parts_content)
  with True have "got = []" by (simp add: got_def)
  with True show ?thesis by (simp add: ReadAt_def)
next
  case False
  let ?ps = "l_parts l"
  define s where "s = sort_Search (length (l_offsets l)) (\<lambda>i. off < l_offsets l ! i)"
  have s: "0 < s" "s \<le> length ?ps" "part_start ?ps (s - 1) \<le> off" "off < part_start ?ps s"
    using search_part [OF fin off] False by (simp_all add: s_def)
  have "ReadAt l p off r = read_parts l r off (s - 1) 0 p"
    using False s(1) by (simp add: ReadAt_def s_def [symmetric] Let_def nat_diff_distrib)
  also have "\<dots> = Some (splice p 0 got, length got, if length got < length p then Some EOF else None)"
    using s off read_parts_content [OF fin size off, of 0 p "s - 1"]
    by (simp add: Let_def got_def layout_content_def)
  finally show ?thesis using False by simp
qed

end

text \<open>The virtual file as an \<open>io.ReaderAt\<close> of its own.\<close>

definition layout_reader :: "layout \<Rightarrow> reader \<Rightarrow> reader" where
  "layout_reader l r off n =
     (case ReadAt l (replicate n 0) off r of
        Some (p, k, e) \<Rightarrow> (take k p, e)
      | None \<Rightarrow> ([], Some (IOError ''panic'')))"

lemma layout_reader_reader_at:
  assumes "reader_at r f" "finalized l" "f_size (l_data l) = int (length f)"
  shows "reader_at (layout_reader l r) (layout_content f l)"
proof
  fix off :: int and n :: nat
  assume off: "0 \<le> off"
  define g where "g = take n (drop (nat off) (layout_content f l))"
  have eq: "layout_reader l r off n =
      (g, if l_size l \<le> off \<or> length g < n then Some EOF else None)"
    using reader_at.ReadAt_content [OF assms off, of "replicate n 0"]
    by (simp add: layout_reader_def splice_def flip: g_def)
  show "fst (layout_reader l r off n) = take n (drop (nat off) (layout_content f l))"
    by (simp add: eq g_def)
  show "length (fst (layout_reader l r off n)) < n \<Longrightarrow> snd (layout_reader l r off n) \<noteq> None"
    unfolding eq by simp
qed

section \<open>Append keeps the content\<close>

definition append_ok :: "part \<Rightarrow> bool" where
  "append_ok p =
     (case p_data p of Some d \<Rightarrow> p_len p = int (length d) | None \<Rightarrow> 0 \<le> p_len p \<and> 0 \<le> p_off p)"

lemma part_ok_append_ok: "part_ok n p \<Longrightarrow> append_ok p"
  by (auto simp: part_ok_def append_ok_def split: option.splits)

lemma Append_len: "parts_len (Append ps p) = parts_len ps + p_len p"
proof (cases ps rule: rev_cases)
  case (snoc qs q)
  then show ?thesis by (auto simp: Append_def Let_def split: option.splits)
qed (simp add: Append_def)

lemma part_bytes_merge:
  assumes "append_ok p" "append_ok q" "p_data p = None" "p_data q = None"
    "p_off q + p_len q = p_off p"
  shows "part_bytes f (q\<lparr>p_len := p_len q + p_len p\<rparr>) = part_bytes f q @ part_bytes f p"
proof -
  have nn: "0 \<le> p_len p" "0 \<le> p_off p" "0 \<le> p_len q" "0 \<le> p_off q"
    using assms by (simp_all add: append_ok_def)
  have "nat (p_off p) = nat (p_off q) + nat (p_len q)"
    using nn assms(5) by (simp flip: nat_add_distrib)
  with nn assms(3,4) show ?thesis
    by (simp add: part_bytes_def nat_add_distrib take_add add.commute [of "nat (p_off q)"])
qed

lemma Append_content:
  assumes "list_all append_ok ps" "append_ok p"
  shows "parts_content f (Append ps p) = parts_content f ps @ part_bytes f p"
    and "list_all append_ok (Append ps p)"
proof -
  have zero: "part_bytes f p = []" if "p_len p = 0"
    using assms(2) that by (auto simp: append_ok_def part_bytes_def split: option.splits)
  have "parts_content f (Append ps p) = parts_content f ps @ part_bytes f p
    \<and> list_all append_ok (Append ps p)"
  proof (cases ps rule: rev_cases)
    case Nil
    with zero assms show ?thesis by (simp add: Append_def)
  next
    case (snoc qs q)
    then have q: "append_ok q" "list_all append_ok qs" using assms(1) by simp_all
    show ?thesis
    proof (cases "p_data p = None \<and> p_data q = None \<and> p_off q + p_len q = p_off p")
      case True
      with zero assms q snoc part_bytes_merge [of p q f] show ?thesis
        by (auto simp: Append_def Let_def append_ok_def)
    next
      case False
      with zero assms q snoc show ?thesis
        by (auto simp: Append_def Let_def part_bytes_def append_ok_def split: option.splits)
    qed
  qed
  then show "parts_content f (Append ps p) = parts_content f ps @ part_bytes f p"
    "list_all append_ok (Append ps p)" by simp_all
qed

text \<open>Appending parts that are valid or empty yields valid, non-empty parts only, so what
  \<open>Append\<close> builds always passes \<open>Finalize\<close>.\<close>

definition part_good :: "int \<Rightarrow> part \<Rightarrow> bool" where
  "part_good n p \<longleftrightarrow> part_ok n p \<and> 0 < p_len p"

lemma Append_good:
  assumes "list_all (part_good n) ps" "p_len p = 0 \<or> part_ok n p"
  shows "list_all (part_good n) (Append ps p)"
proof (cases ps rule: rev_cases)
  case Nil
  with assms show ?thesis
    by (auto simp: Append_def part_good_def part_ok_def split: option.splits)
next
  case (snoc qs q)
  with assms show ?thesis
    by (auto simp: Append_def Let_def part_good_def part_ok_def add_pos_pos split: option.splits)
qed

text \<open>Neighbours that could have been merged never remain.\<close>

fun unmerged :: "part list \<Rightarrow> bool" where
  "unmerged (p # q # ps) =
     ((case (p_data p, p_data q) of
         (Some _, Some _) \<Rightarrow> False
       | (None, None) \<Rightarrow> p_off p + p_len p \<noteq> p_off q
       | _ \<Rightarrow> True) \<and> unmerged (q # ps))"
| "unmerged _ = True"

lemma unmerged_snoc:
  "unmerged (ps @ [p, q]) \<longleftrightarrow> unmerged (ps @ [p]) \<and> unmerged [p, q]"
  by (induction ps rule: unmerged.induct) auto

lemma Append_unmerged: "unmerged ps \<Longrightarrow> unmerged (Append ps p)"
proof (cases ps rule: rev_cases)
  case (snoc qs q)
  assume um: "unmerged ps"
  show ?thesis
  proof (cases qs rule: rev_cases)
    case Nil
    with snoc um show ?thesis by (auto simp: Append_def Let_def split: option.splits)
  next
    case (snoc rs r)
    with um \<open>ps = qs @ [q]\<close> show ?thesis
      by (auto simp: Append_def Let_def butlast_append unmerged_snoc
          unmerged_snoc [of "rs @ [r]", simplified] split: option.splits)
  qed
qed (simp add: Append_def)

section \<open>Atomic writes\<close>

lemma WriteFileAtomic_states:
  assumes tmp: "\<And>tmp. w_create env = Inr tmp \<Longrightarrow> fs tmp = None \<and> tmp \<noteq> path"
    and w: "WriteFileAtomic env fs path data perm = (states, err)"
  shows "\<forall>s \<in> set states. s path = fs path \<or> s path = Some (data, perm)"
    and "\<forall>s \<in> set states. \<forall>q. q \<noteq> path \<and> w_create env \<noteq> Inr q \<longrightarrow> s q = fs q"
    and "err = None \<Longrightarrow> last states = fs(path \<mapsto> (data, perm))"
    and "err \<noteq> None \<Longrightarrow> last states = fs
      \<or> (\<exists>tmp x. w_create env = Inr tmp \<and> w_remove env \<noteq> None \<and> last states = fs(tmp \<mapsto> x))"
proof -
  have "(\<forall>s \<in> set states. s path = fs path \<or> s path = Some (data, perm))
    \<and> (\<forall>s \<in> set states. \<forall>q. q \<noteq> path \<and> w_create env \<noteq> Inr q \<longrightarrow> s q = fs q)
    \<and> (err = None \<longrightarrow> last states = fs(path \<mapsto> (data, perm)))
    \<and> (err \<noteq> None \<longrightarrow> last states = fs
      \<or> (\<exists>tmp x. w_create env = Inr tmp \<and> w_remove env \<noteq> None \<and> last states = fs(tmp \<mapsto> x)))"
  proof (cases "w_create env")
    case (Inl e)
    with w show ?thesis by (auto simp: WriteFileAtomic_def)
  next
    case (Inr t)
    from tmp [OF this] have t: "fs t = None" "t \<noteq> path" by auto
    then have undo: "fs(t := None) = fs" by (simp add: fun_eq_iff)
    from w Inr t show ?thesis
      by (cases "w_remove env"; auto simp: WriteFileAtomic_def Let_def undo fun_upd_twist
          split: option.splits) blast+
  qed
  then show "\<forall>s \<in> set states. s path = fs path \<or> s path = Some (data, perm)"
    "\<forall>s \<in> set states. \<forall>q. q \<noteq> path \<and> w_create env \<noteq> Inr q \<longrightarrow> s q = fs q"
    "err = None \<Longrightarrow> last states = fs(path \<mapsto> (data, perm))"
    "err \<noteq> None \<Longrightarrow> last states = fs
      \<or> (\<exists>tmp x. w_create env = Inr tmp \<and> w_remove env \<noteq> None \<and> last states = fs(tmp \<mapsto> x))"
    by simp_all
qed

text \<open>What a write leaves at every name but the temporary file's.\<close>

lemma WriteFileAtomic_at:
  assumes "\<And>tmp. w_create env = Inr tmp \<Longrightarrow> fs tmp = None \<and> tmp \<noteq> path"
    and "WriteFileAtomic env fs path data perm = (states, err)"
    and "w_create env \<noteq> Inr q"
  shows "last states q = (if err = None then (fs(path \<mapsto> (data, perm))) q else fs q)"
  using WriteFileAtomic_states(3,4) [OF assms(1,2)] assms(3) by auto

section \<open>Properties\<close>


definition demo_layout :: layout where
  "demo_layout =
     \<lparr>l_version = 1, l_kind = KindMKV, l_origin = \<lparr>f_path = ''m'', f_size = 4, f_mtime = 0\<rparr>,
      l_data = \<lparr>f_path = ''m'', f_size = 4, f_mtime = 0\<rparr>, l_start = Fin 0, l_end = Fin 1,
      l_actual_start = Fin 0, l_actual_end = Fin 1, l_size = 0, l_built = 0,
      l_parts = [Literal [7, 8], Range 1 3], l_offsets = []\<rparr>"

definition demo_final :: layout where
  "demo_final = demo_layout\<lparr>l_offsets := [0, 2], l_size := 5\<rparr>"

lemma demo_Finalize: "Finalize demo_layout = (demo_final, None)"
  by (simp add: Finalize_def demo_layout_def demo_final_def Literal_def Range_def wrap64_id)

lemma demo_fits: "fits (l_parts demo_layout)"
  by (simp add: fits_def demo_layout_def Literal_def Range_def)


text \<open>A range at the largest offset: its end wraps around, so \<open>Finalize\<close> accepts it although
  the data file has ten bytes.  Reading it fails, but only then.\<close>

lemma Finalize_wraps:
  defines "l \<equiv> demo_layout\<lparr>l_data := \<lparr>f_path = ''m'', f_size = 10, f_mtime = 0\<rparr>,
    l_parts := [Range (2 ^ 63 - 1) 1]\<rparr>"
  shows "snd (Finalize l) = None" "\<not> list_all (part_ok (f_size (l_data l))) (l_parts l)"
    "ReadAt (fst (Finalize l)) [0] 0 (file_reader (replicate 10 7)) = Some ([0], 0, Some UnexpectedEOF)"
  unfolding l_def
  by (simp_all add: Finalize_def demo_layout_def Range_def wrap64_eq part_ok_def ReadAt_def
      sort_Search_def SearchFrom.simps read_parts.simps file_reader_def)

text \<open>C8: Reading a finalized layout whose parts end below \<open>2 ^ 63\<close> returns, at any offset,
  exactly the bytes of its content there: the literals and the data file's ranges,
  concatenated.  The buffer is filled up to the end of the content, the count is the number
  of bytes stored, and \<open>io.EOF\<close> is reported exactly when the content ends before the buffer;
  no slice bound is ever exceeded.\<close>

theorem ReadAt_reads_content:
  assumes "reader_at r f" "Finalize l0 = (l, None)" "fits (l_parts l0)"
    and "f_size (l_data l) = int (length f)" "0 \<le> off"
  shows "ReadAt l p off r =
    (let got = take (length p) (drop (nat off) (parts_content f (l_parts l)))
     in Some (got @ drop (length got) p, length got,
          if l_size l \<le> off \<or> length got < length p then Some EOF else None))"
  using reader_at.ReadAt_content [OF assms(1) Finalize_finalized [OF assms(2,3)] assms(4,5)]
  by (simp add: Let_def layout_content_def splice_def)

theorem ReadAt_reads_content_witness:
  "ReadAt demo_final [0, 0, 0] 1 (file_reader [10, 11, 12, 13]) = Some ([8, 11, 12], 3, None)"
proof -
  have "reader_at (file_reader [10, 11, 12, 13]) [10, 11, 12, 13]" by unfold_locales
  from ReadAt_reads_content [OF this demo_Finalize demo_fits, of 1 "[0, 0, 0]"]
  show ?thesis
    by (simp add: demo_final_def demo_layout_def Literal_def Range_def part_bytes_def
        numeral_eq_Suc Let_def)
qed

text \<open>\<open>Append\<close> never changes what is served: the content of the list it returns is the
  old content followed by the new part's bytes, whether it merged adjacent ranges, joined
  two literals, dropped an empty part or added a new one.\<close>

lemma Append_keeps_content:
  assumes "list_all append_ok ps" "append_ok p"
  shows "parts_content f (Append ps p) = parts_content f ps @ part_bytes f p
    \<and> parts_len (Append ps p) = parts_len ps + p_len p"
  using Append_content(1) [OF assms] by (simp add: Append_len)

theorem Append_keeps_content_witness:
  "parts_content [1, 2, 3, 4] (Append [Range 0 1] (Range 1 2)) = [1, 2, 3]
    \<and> parts_len (Append [Range 0 1] (Range 1 2)) = 3"
  using Append_keeps_content [of "[Range 0 1]" "Range 1 2" "[1, 2, 3, 4]"]
  by (simp add: append_ok_def Range_def part_bytes_def numeral_eq_Suc)

text \<open>A part list built with \<open>Append\<close> stays canonical: every part is valid and
  non-empty, and no two neighbours could have been merged.\<close>

lemma Append_canonical:
  assumes "list_all (\<lambda>p. p_len p = 0 \<or> part_ok n p) ps"
  shows "list_all (\<lambda>p. part_ok n p \<and> 0 < p_len p) (foldl Append [] ps)
    \<and> unmerged (foldl Append [] ps)"
proof -
  have "list_all (part_good n) (foldl Append qs ps) \<and> unmerged (foldl Append qs ps)"
    if "list_all (part_good n) qs" "unmerged qs" for qs
    using assms that
    by (induction ps arbitrary: qs) (auto simp: Append_good Append_unmerged)
  from this [of "[]"] show ?thesis by (simp add: part_good_def [abs_def])
qed

lemma Append_canonical_witness:
  "list_all (\<lambda>p. part_ok 9 p \<and> 0 < p_len p) (foldl Append [] [Range 2 3, Range 5 0, Range 5 4])
    \<and> unmerged (foldl Append [] [Range 2 3, Range 5 0, Range 5 4])"
  by (rule Append_canonical) (simp add: Range_def part_ok_def)

text \<open>C22: \<open>WriteFileAtomic\<close> is atomic: in every state the file system passes through, the
  path holds either what it held before or the complete new data with its mode, and no other
  file but the temporary one is touched.  When it reports success exactly the new data is in
  place; on every error path, a partial write included, the file system ends as it began,
  except that the temporary file stays behind when its removal failed, too.\<close>

theorem WriteFileAtomic_atomic:
  assumes "\<And>tmp. w_create env = Inr tmp \<Longrightarrow> fs tmp = None \<and> tmp \<noteq> path"
    and "WriteFileAtomic env fs path data perm = (states, err)"
  shows "(\<forall>s \<in> set states. (s path = fs path \<or> s path = Some (data, perm))
        \<and> (\<forall>q. q \<noteq> path \<and> w_create env \<noteq> Inr q \<longrightarrow> s q = fs q))
    \<and> (if err = None then last states = fs(path \<mapsto> (data, perm))
       else last states = fs
         \<or> (\<exists>tmp x. w_create env = Inr tmp \<and> w_remove env \<noteq> None \<and> last states = fs(tmp \<mapsto> x)))"
  using WriteFileAtomic_states [OF assms] by auto

definition demo_env :: write_env where
  "demo_env = \<lparr>w_create = Inr ''.a.1'', w_wrote = 1, w_write = Some ''no space'',
     w_chmod = None, w_sync = None, w_close = None, w_rename = None, w_remove = None\<rparr>"

theorem WriteFileAtomic_atomic_witness:
  "last (fst (WriteFileAtomic demo_env [''a'' \<mapsto> ([1], 0x1A4)] ''a'' [2, 3] 0x1A4))
    = [''a'' \<mapsto> ([1], 0x1A4)]"
proof -
  let ?fs = "[''a'' \<mapsto> ([1], 0x1A4)] :: fs"
  obtain states err where w: "WriteFileAtomic demo_env ?fs ''a'' [2, 3] 0x1A4 = (states, err)"
    by fastforce
  then have "err = Some ''no space''" by (auto simp: WriteFileAtomic_def demo_env_def Let_def)
  with w WriteFileAtomic_atomic [OF _ w] show ?thesis
    by (simp add: demo_env_def)
qed

text \<open>Reading back from a file system state.\<close>

definition read_of :: "fs \<Rightarrow> string \<Rightarrow> string + byte list" where
  "read_of fs path = (case fs path of None \<Rightarrow> Inl ''no such file'' | Some (b, _) \<Rightarrow> Inr b)"

text \<open>C25: A saved layout is loaded back with its read index rebuilt, and a failed save leaves
  what a load returns unchanged.  \<open>encoding/json\<close> is assumed to decode what it encoded for
  this layout, which for this struct means every exported field.\<close>

theorem Load_after_Save:
  assumes "accepted l" "l_version l = FormatVersion"
    and "marshal l = Inr b" "unmarshal b = Inr (l\<lparr>l_offsets := []\<rparr>)"
    and "\<And>tmp. w_create env = Inr tmp \<Longrightarrow> fs tmp = None \<and> tmp \<noteq> path"
    and "Save marshal env fs l path = (states, err)"
  shows "Load (read_of (last states)) unmarshal path =
    (if err = None then Inr l else Load (read_of fs) unmarshal path)"
proof -
  have "WriteFileAtomic env fs path b 0x1A4 = (states, err)"
    using assms(3,6) by (simp add: Save_def)
  from WriteFileAtomic_at [OF assms(5) this, of path] assms(5) [of path]
  have "last states path = (if err = None then Some (b, 0x1A4) else fs path)" by fastforce
  with assms(2,4) show ?thesis
    by (simp add: Load_def read_of_def Finalize_again [OF assms(1)])
qed

theorem Load_after_Save_witness:
  "Load (read_of (last (fst (Save (\<lambda>_. Inr [1]) (demo_env\<lparr>w_write := None\<rparr>) Map.empty
     demo_final ''a'')))) (\<lambda>_. Inr (demo_final\<lparr>l_offsets := []\<rparr>)) ''a'' = Inr demo_final"
proof -
  let ?m = "\<lambda>_. Inr [1] :: string + byte list" and ?env = "demo_env\<lparr>w_write := None\<rparr>"
  obtain states err where s: "Save ?m ?env Map.empty demo_final ''a'' = (states, err)"
    by fastforce
  then have "err = None"
    by (auto simp: Save_def WriteFileAtomic_def demo_env_def Let_def)
  moreover have "accepted demo_final" by (rule Finalize_accepted) (rule demo_Finalize)
  ultimately show ?thesis
    using Load_after_Save [OF _ _ _ _ _ s,
        where b = "[1]" and unmarshal = "\<lambda>_. Inr (demo_final\<lparr>l_offsets := []\<rparr>)"] s
    by (simp add: demo_env_def demo_final_def demo_layout_def FormatVersion_def)
qed

end
