(* ===== verification/Mkv.thy ===== *)
theory Mkv
  imports Prelude Float64 Ebml Layout
begin

text \<open>
  \<^verbatim>\<open>internal/mkv/mkv.go\<close>: cutting a clip out of a Matroska file without copying it.
  \<open>Open\<close> parses the metadata, \<open>BuildClip\<close> lays the clip out as literal bytes and ranges of
  the source: a new EBML header, Segment, SeekHead, Info, Tracks and Cues, then the source's
  clusters with new headers.  Timestamps are the 64-bit words of the code, compared through
  \<open>sint\<close> where the code compares \<open>int64\<close>; file offsets are integers.
\<close>

section \<open>Types\<close>

datatype unsupported =
    ElementTooBig int int
  | UnknownSizeElement u32
  | NotEBML
  | NoSegment
  | UnknownSizeTopLevel u32
  | NoClusters
  | MissingInfoOrTracks
  | NoCuesIndex
  | NoVideoTrack
  | NoVideoCues
  | UnknownSizeCluster int
  | UnknownSizeClusterChild int
  | BlocksBeforeTimestamp int
  | EncryptedBlocks
  | BlockGroupWithoutBlock
  | BlockTooFar int
  | TimestampsDecrease int

text \<open>\<open>Unsupported\<close> wraps the sentinel \<open>ErrUnsupported\<close>; \<open>IndexPanic\<close> is a run-time panic.\<close>

datatype mkv_err =
    Unsupported unsupported
  | ReadFailed io_err
  | EbmlErr ebml_err
  | UnexpectedElement u32 int u32
  | MalformedBlock int
  | EndNotAfterStart
  | StartPastEnd
  | NoClusterAtKeyframe
  | IndexPanic

definition maxElement :: int where
  "maxElement = push_bit 20 64"

record cue_point =
  cp_time :: u64
  cp_off :: int

record source =
  s_size :: int
  s_ebml :: "byte list"
  s_segdata :: int
  s_segend :: int
  s_scale :: u64
  s_duration :: f64
  s_info :: "element list"
  s_tracks :: "element list"
  s_video :: u64
  s_attach :: "(int \<times> int) option"
  s_first :: int
  s_cues :: "cue_point list"

record cluster =
  c_off :: int
  c_end :: int
  c_blocksOff :: int
  c_timestamp :: u64
  c_newHeader :: "byte list"
  c_body :: "part list"

record block =
  b_off :: int
  b_len :: int
  b_track :: u64
  b_time :: i64
  b_tsOff :: int
  b_prefix :: "byte list"

record clip =
  clip_parts :: "part list"
  clip_start :: f64
  clip_end :: f64

section \<open>Reading\<close>

definition readAt :: "reader \<Rightarrow> int \<Rightarrow> int \<Rightarrow> mkv_err + byte list" where
  "readAt r off n =
     (if n < 0 \<or> maxElement < n then Inl (Unsupported (ElementTooBig n off))
      else (case r off (nat n) of
        (got, err) \<Rightarrow>
          if int (length got) < n
          then Inl (ReadFailed (case err of None \<Rightarrow> UnexpectedEOF | Some EOF \<Rightarrow> UnexpectedEOF
            | Some e \<Rightarrow> e))
          else Inr got))"

definition readElement :: "reader \<Rightarrow> int \<Rightarrow> u32 \<Rightarrow> mkv_err + byte list \<times> header" where
  "readElement r off i =
     (case ReadHeaderAt r off of Inl e \<Rightarrow> Inl (EbmlErr e)
      | Inr h \<Rightarrow>
        if h_id h \<noteq> i then Inl (UnexpectedElement i off (h_id h))
        else if h_size h = UnknownSize then Inl (Unsupported (UnknownSizeElement i))
        else (case readAt r (off + int (h_len h)) (h_size h) of Inl e \<Rightarrow> Inl e
          | Inr b \<Rightarrow> Inr (b, h)))"

text \<open>\<open>v, _ := ebml.Uint(b)\<close> and \<open>ebml.Float(b)\<close> with the error ignored: the value is then 0.\<close>

definition uint0 :: "byte list \<Rightarrow> u64" where
  "uint0 b = (case Uint b of Inr v \<Rightarrow> v | Inl _ \<Rightarrow> 0)"

definition float0 :: "byte list \<Rightarrow> f64" where
  "float0 b = (case Float b of Inr v \<Rightarrow> v | Inl _ \<Rightarrow> Fin 0)"

section \<open>Opening a file\<close>

text \<open>The entry loop of one Seek element: the last SeekID and SeekPosition win.\<close>

definition seek_entry :: "element list \<Rightarrow> u32 \<times> u64 \<times> bool" where
  "seek_entry kids =
     foldl (\<lambda>(i, pos, found) k.
         if e_id k = IDSeekID then (ucast (uint0 (e_data k)), pos, found)
         else if e_id k = IDSeekPosition then (i, uint0 (e_data k), True)
         else (i, pos, found))
       (0, 0, False) kids"

fun seek_scan :: "u32 \<Rightarrow> element list \<Rightarrow> int option" where
  "seek_scan want [] = None"
| "seek_scan want (seek # seeks) =
     (if e_id seek \<noteq> IDSeek then seek_scan want seeks
      else (case Children (e_data seek) of Inl _ \<Rightarrow> seek_scan want seeks
        | Inr kids \<Rightarrow>
            (case seek_entry kids of
               (i, pos, found) \<Rightarrow>
                 if i = want \<and> found \<and> pos < 0x3FFFFFFFFFFFFFFF then Some (uint pos)
                 else seek_scan want seeks)))"

definition seekPosition :: "byte list \<Rightarrow> u32 \<Rightarrow> int option" where
  "seekPosition seekHead want =
     (case Children seekHead of Inl _ \<Rightarrow> None | Inr seeks \<Rightarrow> seek_scan want seeks)"

text \<open>The body of the top-level walk for one element that is no cluster: the new source and
  the offsets of Info, Tracks and Cues.\<close>

definition open_step ::
  "reader \<Rightarrow> source \<Rightarrow> int \<Rightarrow> header \<Rightarrow> int \<times> int \<times> int \<Rightarrow> mkv_err + source \<times> int \<times> int \<times> int"
where
  "open_step r s off eh = (\<lambda>(infoOff, tracksOff, cuesOff).
     if h_id eh = IDInfo then Inr (s, off, tracksOff, cuesOff)
     else if h_id eh = IDTracks then Inr (s, infoOff, off, cuesOff)
     else if h_id eh = IDCues then Inr (s, infoOff, tracksOff, off)
     else if h_id eh = IDAttachments
     then Inr (s\<lparr>s_attach := Some (off, int (h_len eh) + h_size eh)\<rparr>, infoOff, tracksOff, cuesOff)
     else if h_id eh = IDSeekHead then
       (case readAt r (off + int (h_len eh)) (h_size eh) of Inl e \<Rightarrow> Inl e
        | Inr b \<Rightarrow>
            Inr (s, infoOff, tracksOff,
              (case seekPosition b IDCues of
                 Some pos \<Rightarrow> if cuesOff < 0 then s_segdata s + pos else cuesOff
               | None \<Rightarrow> cuesOff)))
     else Inr (s, infoOff, tracksOff, cuesOff))"

lemma open_step_keeps:
  assumes "open_step r s off eh offs = Inr (s', offs')"
  shows "s_segend s' = s_segend s" "s_segdata s' = s_segdata s" "s_size s' = s_size s"
    "s_ebml s' = s_ebml s" "s_cues s' = s_cues s" "s_scale s' = s_scale s"
    "s_video s' = s_video s" "s_first s' = s_first s"
  using assms by (auto simp: open_step_def split: prod.splits if_splits sum.splits)

lemma ReadHeaderAt_bounds:
  assumes "ReadHeaderAt r off = Inr h"
  shows "2 \<le> h_len h" "h_len h \<le> 12" "h_size h \<noteq> UnknownSize \<Longrightarrow> 0 \<le> h_size h"
    "h_size h < 2 ^ 56"
proof -
  obtain b where b: "ParseHeader b = Inr h"
    using assms by (auto simp: ReadHeaderAt_def split: prod.splits list.splits option.splits)
  from ParseHeader_bounds [OF this]
  show "2 \<le> h_len h" "h_len h \<le> 12" "h_size h \<noteq> UnknownSize \<Longrightarrow> 0 \<le> h_size h"
    "h_size h < 2 ^ 56"
    by (auto simp: UnknownSize_def)
qed

lemma ReadHeaderAt_advance:
  "ReadHeaderAt r off = Inr h \<Longrightarrow> h_size h \<noteq> UnknownSize \<Longrightarrow> - int (h_len h) < h_size h"
  using ReadHeaderAt_bounds(1,3) [of r off h] by simp

function OpenWalk ::
  "reader \<Rightarrow> source \<Rightarrow> int \<Rightarrow> int \<times> int \<times> int \<Rightarrow> mkv_err + source \<times> int \<times> int \<times> int"
where
  "OpenWalk r s off offs =
     (if off < s_segend s then
        (case ReadHeaderAt r off of Inl e \<Rightarrow> Inl (EbmlErr e)
         | Inr eh \<Rightarrow>
             if h_id eh = IDCluster then Inr (s\<lparr>s_first := off\<rparr>, offs)
             else if h_size eh = UnknownSize then Inl (Unsupported (UnknownSizeTopLevel (h_id eh)))
             else (case open_step r s off eh offs of Inl e \<Rightarrow> Inl e
               | Inr (s', offs') \<Rightarrow> OpenWalk r s' (off + (int (h_len eh) + h_size eh)) offs'))
      else Inr (s, offs))"
  by pat_completeness auto
termination
proof (relation "measure (\<lambda>(r, s, off, offs). nat (s_segend s - off))", goal_cases)
  case (2 r s off offs eh p s' offs')
  then have "s_segend s' = s_segend s"
    using open_step_keeps(1) [of r s off eh offs s' offs'] by simp
  with ReadHeaderAt_bounds [OF 2(2)] 2(1,4) show ?case by simp
qed simp

declare OpenWalk.simps [simp del]

definition parseInfo :: "reader \<Rightarrow> source \<Rightarrow> int \<Rightarrow> mkv_err + source" where
  "parseInfo r s off =
     (case readElement r off IDInfo of Inl e \<Rightarrow> Inl e
      | Inr (b, _) \<Rightarrow>
        (case Children b of Inl e \<Rightarrow> Inl (EbmlErr e)
         | Inr kids \<Rightarrow>
             Inr (foldl (\<lambda>s c.
                 if e_id c = IDTimestampScale
                 then (if 0 < uint0 (e_data c) then s\<lparr>s_scale := uint0 (e_data c)\<rparr> else s)
                 else if e_id c = IDDuration then s\<lparr>s_duration := float0 (e_data c)\<rparr>
                 else s)
               (s\<lparr>s_info := kids\<rparr>) kids)))"

text \<open>The TrackNumber and TrackType of a track entry, and the scan for the first video track.\<close>

definition track_entry :: "element list \<Rightarrow> u64 \<times> u64" where
  "track_entry kids =
     foldl (\<lambda>(num, typ) k.
         if e_id k = IDTrackNumber then (uint0 (e_data k), typ)
         else if e_id k = IDTrackType then (num, uint0 (e_data k))
         else (num, typ))
       (0, 0) kids"

fun tracks_scan :: "element list \<Rightarrow> u64 \<Rightarrow> mkv_err + u64" where
  "tracks_scan [] video = Inr video"
| "tracks_scan (t # ts) video =
     (if e_id t \<noteq> IDTrackEntry then tracks_scan ts video
      else (case Children (e_data t) of Inl e \<Rightarrow> Inl (EbmlErr e)
        | Inr kids \<Rightarrow>
            (case track_entry kids of
               (num, typ) \<Rightarrow> tracks_scan ts (if typ = 1 \<and> video = 0 then num else video))))"

definition parseTracks :: "reader \<Rightarrow> source \<Rightarrow> int \<Rightarrow> mkv_err + source" where
  "parseTracks r s off =
     (case readElement r off IDTracks of Inl e \<Rightarrow> Inl e
      | Inr (b, _) \<Rightarrow>
        (case Children b of Inl e \<Rightarrow> Inl (EbmlErr e)
         | Inr kids \<Rightarrow>
           (case tracks_scan kids (s_video s) of Inl e \<Rightarrow> Inl e
            | Inr video \<Rightarrow>
                if video = 0 then Inl (Unsupported NoVideoTrack)
                else Inr (s\<lparr>s_tracks := kids, s_video := video\<rparr>))))"

text \<open>One cue point: its time (the last CueTime), and the positions entry of one track.\<close>

definition cue_time :: "element list \<Rightarrow> u64" where
  "cue_time kids = foldl (\<lambda>t k. if e_id k = IDCueTime then uint0 (e_data k) else t) 0 kids"

definition cue_position :: "element list \<Rightarrow> u64 \<times> u64 \<times> bool" where
  "cue_position pos =
     foldl (\<lambda>(track, cluster, has) q.
         if e_id q = IDCueTrack then (uint0 (e_data q), cluster, has)
         else if e_id q = IDCueClusterPosition then (track, uint0 (e_data q), True)
         else (track, cluster, has))
       (0, 0, False) pos"

fun cue_positions ::
  "source \<Rightarrow> u64 \<Rightarrow> element list \<Rightarrow> cue_point list \<Rightarrow> mkv_err + cue_point list" where
  "cue_positions s t [] cues = Inr cues"
| "cue_positions s t (k # ks) cues =
     (if e_id k \<noteq> IDCueTrackPositions then cue_positions s t ks cues
      else (case Children (e_data k) of Inl e \<Rightarrow> Inl (EbmlErr e)
        | Inr pos \<Rightarrow>
            (case cue_position pos of
               (track, cluster, has) \<Rightarrow>
                 cue_positions s t ks
                   (if track = s_video s \<and> has \<and> cluster < word_of_int (s_size s)
                    then cues @ [\<lparr>cp_time = t, cp_off = s_segdata s + uint cluster\<rparr>]
                    else cues))))"

fun cue_points :: "source \<Rightarrow> element list \<Rightarrow> cue_point list \<Rightarrow> mkv_err + cue_point list" where
  "cue_points s [] cues = Inr cues"
| "cue_points s (p # ps) cues =
     (if e_id p \<noteq> IDCuePoint then cue_points s ps cues
      else (case Children (e_data p) of Inl e \<Rightarrow> Inl (EbmlErr e)
        | Inr kids \<Rightarrow>
            (case cue_positions s (cue_time kids) kids cues of Inl e \<Rightarrow> Inl e
             | Inr cues' \<Rightarrow> cue_points s ps cues')))"

text \<open>\<open>sort.Slice\<close> is not stable; what it does with equal times is left to the parameter
  \<open>srt\<close>, whose contract is the locale \<open>cue_sorter\<close> below.\<close>

definition parseCues ::
  "(cue_point list \<Rightarrow> cue_point list) \<Rightarrow> reader \<Rightarrow> source \<Rightarrow> int \<Rightarrow> mkv_err + source" where
  "parseCues srt r s off =
     (case readElement r off IDCues of Inl e \<Rightarrow> Inl e
      | Inr (b, _) \<Rightarrow>
        (case Children b of Inl e \<Rightarrow> Inl (EbmlErr e)
         | Inr points \<Rightarrow>
           (case cue_points s points (s_cues s) of Inl e \<Rightarrow> Inl e
            | Inr cues \<Rightarrow>
                if cues = [] then Inl (Unsupported NoVideoCues)
                else Inr (s\<lparr>s_cues := srt cues\<rparr>))))"

text \<open>The source before the walk: the segment's end is the file's unless the Segment has a
  size that ends earlier.\<close>

definition initial_source :: "int \<Rightarrow> byte list \<Rightarrow> header \<Rightarrow> source" where
  "initial_source sz hdr seg =
     (let segData = int (length hdr) + int (h_len seg);
          segEnd = (if h_size seg \<noteq> UnknownSize \<and> segData + h_size seg < sz
            then segData + h_size seg else sz)
      in \<lparr>s_size = sz, s_ebml = hdr, s_segdata = segData, s_segend = segEnd,
          s_scale = 1000000, s_duration = Fin 0, s_info = [], s_tracks = [],
          s_video = 0, s_attach = None, s_first = 0, s_cues = []\<rparr>)"

definition Open ::
  "(cue_point list \<Rightarrow> cue_point list) \<Rightarrow> reader \<Rightarrow> int \<Rightarrow> mkv_err + source" where
  "Open srt r sz =
     (case ReadHeaderAt r 0 of Inl e \<Rightarrow> Inl (EbmlErr e)
      | Inr h \<Rightarrow>
        if h_id h \<noteq> IDEBML \<or> h_size h = UnknownSize then Inl (Unsupported NotEBML)
        else (case readAt r 0 (int (h_len h) + h_size h) of Inl e \<Rightarrow> Inl e
          | Inr hdr \<Rightarrow>
            (case ReadHeaderAt r (int (length hdr)) of Inl e \<Rightarrow> Inl (EbmlErr e)
             | Inr seg \<Rightarrow>
               if h_id seg \<noteq> IDSegment then Inl (Unsupported NoSegment)
               else let s0 = initial_source sz hdr seg
                    in (case OpenWalk r s0 (s_segdata s0) (-1, -1, -1) of Inl e \<Rightarrow> Inl e
                      | Inr (s1, infoOff, tracksOff, cuesOff) \<Rightarrow>
                        if s_first s1 = 0 then Inl (Unsupported NoClusters)
                        else if infoOff < 0 \<or> tracksOff < 0 then Inl (Unsupported MissingInfoOrTracks)
                        else if cuesOff < 0 then Inl (Unsupported NoCuesIndex)
                        else (case parseInfo r s1 infoOff of Inl e \<Rightarrow> Inl e
                          | Inr s2 \<Rightarrow>
                            (case parseTracks r s2 tracksOff of Inl e \<Rightarrow> Inl e
                             | Inr s3 \<Rightarrow> parseCues srt r s3 cuesOff))))))"

section \<open>Times\<close>

definition f64_of_u64 :: "u64 \<Rightarrow> f64" where
  "f64_of_u64 v = f64_of_int (uint v)"

definition Seconds :: "source \<Rightarrow> u64 \<Rightarrow> f64" where
  "Seconds s ticks = f64_div (f64_mul (f64_of_u64 ticks) (f64_of_u64 (s_scale s))) (Fin 1000000000)"

text \<open>\<open>oor\<close> is what the implementation makes of a float outside the range of \<open>uint64\<close>.\<close>

definition Ticks :: "(f64 \<Rightarrow> u64) \<Rightarrow> source \<Rightarrow> f64 \<Rightarrow> u64" where
  "Ticks oor s sec =
     (if f64_le sec (Fin 0) then 0
      else f64_to_u64 oor
        (f64_Round (f64_div (f64_mul sec (Fin 1000000000)) (f64_of_u64 (s_scale s)))))"

definition DurationSeconds :: "source \<Rightarrow> f64" where
  "DurationSeconds s = f64_div (f64_mul (s_duration s) (f64_of_u64 (s_scale s))) (Fin 1000000000)"

definition Keyframes :: "source \<Rightarrow> f64 list" where
  "Keyframes s = map (\<lambda>c. Seconds s (cp_time c)) (s_cues s)"

section \<open>Clusters and blocks\<close>

text \<open>The children of a cluster up to its first block.\<close>

function ClusterWalk ::
  "reader \<Rightarrow> int \<Rightarrow> cluster \<Rightarrow> int \<Rightarrow> bool \<Rightarrow> mkv_err + cluster" where
  "ClusterWalk r off c p gotTime =
     (if p < c_end c then
        (case ReadHeaderAt r p of Inl e \<Rightarrow> Inl (EbmlErr e)
         | Inr ch \<Rightarrow>
             if h_size ch = UnknownSize then Inl (Unsupported (UnknownSizeClusterChild p))
             else if h_id ch = IDTimestamp then
               (case readAt r (p + int (h_len ch)) (h_size ch) of Inl e \<Rightarrow> Inl e
                | Inr b \<Rightarrow>
                    ClusterWalk r off (c\<lparr>c_timestamp := uint0 b\<rparr>)
                      (p + (int (h_len ch) + h_size ch)) True)
             else if h_id ch = IDSimpleBlock \<or> h_id ch = IDBlockGroup then
               (if \<not> gotTime then Inl (Unsupported (BlocksBeforeTimestamp off))
                else Inr (c\<lparr>c_blocksOff := p\<rparr>))
             else if h_id ch = IDEncryptedBlock then Inl (Unsupported EncryptedBlocks)
             else ClusterWalk r off c (p + (int (h_len ch) + h_size ch)) gotTime)
      else Inr (c\<lparr>c_blocksOff := c_end c\<rparr>))"
  by pat_completeness auto
termination
  by (relation "measure (\<lambda>(r, off, c, p, g). nat (c_end c - p))")
    (auto dest: ReadHeaderAt_advance)

declare ClusterWalk.simps [simp del]

definition readCluster :: "reader \<Rightarrow> int \<Rightarrow> mkv_err + cluster option" where
  "readCluster r off =
     (case ReadHeaderAt r off of Inl e \<Rightarrow> Inl (EbmlErr e)
      | Inr h \<Rightarrow>
        if h_id h \<noteq> IDCluster then Inr None
        else if h_size h = UnknownSize then Inl (Unsupported (UnknownSizeCluster off))
        else (case ClusterWalk r off
            \<lparr>c_off = off, c_end = off + int (h_len h) + h_size h, c_blocksOff = 0,
             c_timestamp = 0, c_newHeader = [], c_body = []\<rparr> (off + int (h_len h)) False of
            Inl e \<Rightarrow> Inl e
          | Inr c \<Rightarrow> Inr (Some c)))"

text \<open>
  \<open>cap(k.Raw) - cap(data)\<close>: both slices end at the capacity of the buffer, so the difference
  is how far \<open>data\<close> starts behind \<open>k.Raw\<close>.  \<open>payload_start\<close> is that distance for an element's
  own payload; a Block inside a BlockGroup starts at its position in the group's payload.
\<close>

definition payload_start :: "element \<Rightarrow> nat" where
  "payload_start e = length (e_raw e) - length (e_data e)"

text \<open>The last Block of a group: where its payload starts in the group's payload, and the
  payload.\<close>

definition group_block :: "element list \<Rightarrow> (nat \<times> byte list) option" where
  "group_block gkids =
     foldl (\<lambda>data g. if e_id g = IDBlock then Some (e_pos g + payload_start g, e_data g) else data)
       None gkids"

text \<open>The block data of a cluster child, with its start in the child's raw bytes; \<open>None\<close> for
  an element that is no block.\<close>

definition block_data :: "element \<Rightarrow> mkv_err + (nat \<times> byte list) option" where
  "block_data k =
     (if e_id k = IDSimpleBlock then Inr (Some (payload_start k, e_data k))
      else if e_id k = IDBlockGroup then
        (case Children (e_data k) of Inl e \<Rightarrow> Inl (EbmlErr e)
         | Inr gkids \<Rightarrow>
           (case group_block gkids of None \<Rightarrow> Inl (Unsupported BlockGroupWithoutBlock)
            | Some (start, data) \<Rightarrow> Inr (Some (payload_start k + start, data))))
      else if e_id k = IDEncryptedBlock then Inl (Unsupported EncryptedBlocks)
      else Inr None)"

text \<open>A block's track, timestamp and the bytes before the timestamp.\<close>

definition parse_block ::
  "cluster \<Rightarrow> element \<Rightarrow> int \<Rightarrow> nat \<Rightarrow> byte list \<Rightarrow> mkv_err + block" where
  "parse_block c k pos start data =
     (case ReadSize data of Inl e \<Rightarrow> Inl (MalformedBlock (c_blocksOff c + pos))
      | Inr (track, tlen) \<Rightarrow>
        if length data < tlen + 3 then Inl (MalformedBlock (c_blocksOff c + pos))
        else let rel = shift_in (ucast (data ! tlen)) (data ! (tlen + 1)) :: u16;
                 tsOff = start + tlen
             in Inr \<lparr>b_off = c_blocksOff c + pos, b_len = int (length (e_raw k)),
                  b_track = word_of_int track, b_time = c_timestamp c + scast rel,
                  b_tsOff = int tsOff, b_prefix = take tsOff (e_raw k)\<rparr>)"

fun block_list :: "cluster \<Rightarrow> element list \<Rightarrow> int \<Rightarrow> mkv_err + block list" where
  "block_list c [] pos = Inr []"
| "block_list c (k # ks) pos =
     (case block_data k of Inl e \<Rightarrow> Inl e
      | Inr None \<Rightarrow> block_list c ks (pos + int (length (e_raw k)))
      | Inr (Some (start, data)) \<Rightarrow>
        (case parse_block c k pos start data of Inl e \<Rightarrow> Inl e
         | Inr b \<Rightarrow>
           (case block_list c ks (pos + int (length (e_raw k))) of Inl e \<Rightarrow> Inl e
            | Inr bs \<Rightarrow> Inr (b # bs))))"

definition readBlocks :: "reader \<Rightarrow> cluster \<Rightarrow> mkv_err + block list" where
  "readBlocks r c =
     (case readAt r (c_blocksOff c) (c_end c - c_blocksOff c) of Inl e \<Rightarrow> Inl e
      | Inr body \<Rightarrow>
        (case Children body of Inl e \<Rightarrow> Inl (EbmlErr e) | Inr kids \<Rightarrow> block_list c kids 0))"

section \<open>Building a clip\<close>

lemma ClusterWalk_end: "ClusterWalk r off c p g = Inr c' \<Longrightarrow> c_end c' = c_end c \<and> c_off c' = c_off c"
proof (induction r off c p g rule: ClusterWalk.induct)
  case (1 r off c p g)
  from "1.prems" show ?case
    by (subst (asm) ClusterWalk.simps)
      (auto split: if_splits sum.splits dest: "1.IH")
qed

lemma readCluster_end:
  assumes "readCluster r off = Inr (Some c)"
  shows "c_off c = off" "off + 2 \<le> c_end c"
  using assms ReadHeaderAt_bounds [of r off]
  by (auto simp: readCluster_def split: sum.splits if_splits dest!: ClusterWalk_end)

text \<open>The walk from the key cluster; \<open>out\<close> is what has been collected.\<close>

function collect ::
  "reader \<Rightarrow> source \<Rightarrow> u64 \<Rightarrow> int \<Rightarrow> cluster list \<Rightarrow> mkv_err + cluster list" where
  "collect r s endT off out =
     (if off < s_segend s then
        (case readCluster r off of Inl e \<Rightarrow> Inl e
         | Inr None \<Rightarrow>
             (case ReadHeaderAt r off of Inl e \<Rightarrow> Inr out
              | Inr h \<Rightarrow> if h_size h = UnknownSize then Inr out
                  else collect r s endT (off + (int (h_len h) + h_size h)) out)
         | Inr (Some c) \<Rightarrow>
             if out \<noteq> [] \<and> endT \<le> c_timestamp c then Inr out
             else collect r s endT (c_end c) (out @ [c]))
      else Inr out)"
  by pat_completeness auto
termination
  by (relation "measure (\<lambda>(r, s, endT, off, out). nat (s_segend s - off))")
    (auto dest: ReadHeaderAt_advance readCluster_end)

declare collect.simps [simp del]

definition collectClusters ::
  "source \<Rightarrow> reader \<Rightarrow> int \<Rightarrow> u64 \<Rightarrow> mkv_err + cluster list" where
  "collectClusters s r off endT =
     (case collect r s endT off [] of Inl e \<Rightarrow> Inl e
      | Inr out \<Rightarrow> if out = [] then Inl NoClusterAtKeyframe else Inr out)"

definition keepFrom :: "source \<Rightarrow> block list \<Rightarrow> i64 \<Rightarrow> block list" where
  "keepFrom s blocks keyTime =
     (let start = (case find (\<lambda>i. b_track (blocks ! i) = s_video s \<and> b_time (blocks ! i) = keyTime)
         [0..<length blocks] of Some i \<Rightarrow> i | None \<Rightarrow> 0)
      in filter (\<lambda>b. sint keyTime \<le> sint (b_time b)) (drop start blocks))"

fun keepUntilFrom :: "source \<Rightarrow> i64 \<Rightarrow> bool \<Rightarrow> block list \<Rightarrow> block list" where
  "keepUntilFrom s endT videoDone [] = []"
| "keepUntilFrom s endT videoDone (b # bs) =
     (if b_track b = s_video s then
        (if videoDone \<or> sint endT \<le> sint (b_time b) then keepUntilFrom s endT True bs
         else b # keepUntilFrom s endT videoDone bs)
      else if sint endT \<le> sint (b_time b) then keepUntilFrom s endT videoDone bs
      else b # keepUntilFrom s endT videoDone bs)"

definition keepUntil :: "source \<Rightarrow> block list \<Rightarrow> i64 \<Rightarrow> block list" where
  "keepUntil s blocks endT = keepUntilFrom s endT False blocks"

definition blockParts :: "block list \<Rightarrow> part list" where
  "blockParts blocks = foldl (\<lambda>parts b. Append parts (Range (b_off b) (b_len b))) [] blocks"

fun rebaseFrom :: "i64 \<Rightarrow> block list \<Rightarrow> part list \<Rightarrow> mkv_err + part list" where
  "rebaseFrom base [] parts = Inr parts"
| "rebaseFrom base (b # bs) parts =
     (let rel = b_time b - base in
      if sint rel < -32768 \<or> 32767 < sint rel then Inl (Unsupported (BlockTooFar (sint rel)))
      else let head = b_prefix b @ [ucast (drop_bit 8 (ucast rel :: u16)), ucast rel];
               parts' = Append parts (Literal head)
           in rebaseFrom base bs
             (Append parts' (Range (b_off b + b_tsOff b + 2) (b_len b - b_tsOff b - 2))))"

definition rebasedParts :: "block list \<Rightarrow> i64 \<Rightarrow> mkv_err + part list" where
  "rebasedParts blocks base = rebaseFrom base blocks []"

definition partsLen :: "part list \<Rightarrow> int" where
  "partsLen parts = foldl (\<lambda>n p. n + p_len p) 0 parts"

definition droppedInfo :: "u32 set" where
  "droppedInfo = {IDCRC32, IDVoid, IDDuration, IDTitle, 0x73A4, 0x3CB923, 0x3EB923, 0x3C83AB,
     0x3E83BB, 0x4461, 0x7384, 0x6924}"

section \<open>Assembling the clip\<close>

definition infoElement :: "source \<Rightarrow> u64 \<Rightarrow> i64 \<Rightarrow> byte list \<Rightarrow> byte list" where
  "infoElement s endT origin title =
     (let info = foldl (\<lambda>info c. if e_id c \<notin> droppedInfo then info @ e_raw c else info) []
          (s_info s);
          info = AppendFloat info IDDuration (f64_of_int (sint (endT - origin)));
          info = AppendElement info IDTitle title
      in AppendElement [] IDInfo info)"

definition tracksElement :: "source \<Rightarrow> byte list" where
  "tracksElement s =
     AppendElement [] IDTracks
       (foldl (\<lambda>tracks c. if e_id c \<noteq> IDCRC32 \<and> e_id c \<noteq> IDVoid then tracks @ e_raw c else tracks) []
         (s_tracks s))"

definition newHeader :: "i64 \<Rightarrow> cluster \<Rightarrow> byte list" where
  "newHeader origin c =
     (let ts = AppendUint [] IDTimestamp (c_timestamp c - origin);
          h = AppendSizeWidth (AppendID [] IDCluster) (int (length ts) + partsLen (c_body c)) 8
      in h @ ts)"

text \<open>The new cues: a time and the index of the cluster they point at.  \<open>byOff\<close> maps the
  offset of a cluster to the last cluster there.\<close>

definition byOff :: "cluster list \<Rightarrow> int \<Rightarrow> nat option" where
  "byOff clusters = map_of (rev (map (\<lambda>i. (c_off (clusters ! i), i)) [0..<length clusters]))"

definition clipCues :: "source \<Rightarrow> cluster list \<Rightarrow> i64 \<Rightarrow> u64 \<Rightarrow> (u64 \<times> nat) list" where
  "clipCues s clusters origin endT =
     foldl (\<lambda>cues cp.
         (case byOff clusters (cp_off cp) of
            Some i \<Rightarrow>
              if sint origin \<le> sint (cp_time cp) \<and> cp_time cp < endT
              then cues @ [(cp_time cp - origin, i)] else cues
          | None \<Rightarrow> cues))
       [] (s_cues s)"

definition cuePoint :: "source \<Rightarrow> u64 \<Rightarrow> int \<Rightarrow> byte list" where
  "cuePoint s time newOffset =
     (let pos = AppendUint [] IDCueTrack (s_video s);
          pos = AppendUintWidth pos IDCueClusterPosition (word_of_int newOffset) 8;
          pt = AppendUint [] IDCueTime time
      in AppendElement pt IDCueTrackPositions pos)"

definition cuesElement :: "source \<Rightarrow> (u64 \<times> nat) list \<Rightarrow> int list \<Rightarrow> byte list" where
  "cuesElement s cues newOffsets =
     AppendElement [] IDCues
       (foldl (\<lambda>pts (time, i). AppendElement pts IDCuePoint (cuePoint s time (newOffsets ! i))) [] cues)"

definition seekEntry :: "u32 \<Rightarrow> int \<Rightarrow> byte list" where
  "seekEntry i pos =
     (let b = AppendElement [] IDSeekID (AppendID [] i);
          b = AppendUintWidth b IDSeekPosition (word_of_int pos) 8
      in AppendElement [] IDSeek b)"

definition seekHead :: "int \<Rightarrow> int \<Rightarrow> int \<Rightarrow> int \<Rightarrow> byte list" where
  "seekHead infoPos tracksPos cuesPos attPos =
     (let b = seekEntry IDInfo infoPos @ seekEntry IDTracks tracksPos;
          b = (if 0 \<le> attPos then b @ seekEntry IDAttachments attPos else b);
          b = b @ seekEntry IDCues cuesPos
      in AppendElement [] IDSeekHead b)"

text \<open>The positions of the new clusters relative to the Segment payload, from \<open>pos\<close> on, and
  the end of the last one.\<close>

fun layClusters :: "(byte list \<times> part list) list \<Rightarrow> int \<Rightarrow> int list \<times> int" where
  "layClusters [] pos = ([], pos)"
| "layClusters ((h, body) # cs) pos =
     (case layClusters cs (pos + (int (length h) + partsLen body)) of
        (offs, stop) \<Rightarrow> (pos # offs, stop))"

text \<open>Where everything goes, relative to the Segment payload.  Element sizes do not depend on
  the positions, so the code measures them with zero positions first.\<close>

record positions =
  pos_info :: int
  pos_tracks :: int
  pos_att :: int
  pos_cues :: int
  pos_clusters :: "int list"
  pos_end :: int

definition layOut ::
  "source \<Rightarrow> byte list \<Rightarrow> byte list \<Rightarrow> (u64 \<times> nat) list \<Rightarrow> cluster list \<Rightarrow> positions" where
  "layOut s infoEl tracksEl cues clusters =
     (let attPos0 = (if s_attach s \<noteq> None then 0 else -1);
          infoP = int (length (seekHead 0 0 0 attPos0));
          tracksP = infoP + int (length infoEl);
          cuesP0 = tracksP + int (length tracksEl);
          (attP, cuesP) = (case s_attach s of
              Some (_, n) \<Rightarrow> (cuesP0, cuesP0 + n) | None \<Rightarrow> (attPos0, cuesP0));
          pos = cuesP + int (length (cuesElement s cues (replicate (length clusters) 0)));
          (offs, stop) = layClusters (map (\<lambda>c. (c_newHeader c, c_body c)) clusters) pos
      in \<lparr>pos_info = infoP, pos_tracks = tracksP, pos_att = attP, pos_cues = cuesP,
          pos_clusters = offs, pos_end = stop\<rparr>)"

definition assemble ::
  "source \<Rightarrow> cluster list \<Rightarrow> i64 \<Rightarrow> u64 \<Rightarrow> byte list \<Rightarrow> part list" where
  "assemble s clusters origin endT title =
     (let infoEl = infoElement s endT origin title;
          tracksEl = tracksElement s;
          clusters = map (\<lambda>c. c\<lparr>c_newHeader := newHeader origin c\<rparr>) clusters;
          cues = clipCues s clusters origin endT;
          pos = layOut s infoEl tracksEl cues clusters;
          head = AppendID (s_ebml s) IDSegment;
          head = AppendSizeWidth head (pos_end pos) 8;
          head = head @ seekHead (pos_info pos) (pos_tracks pos) (pos_cues pos) (pos_att pos);
          head = head @ infoEl;
          head = head @ tracksEl;
          parts = [Literal head];
          parts = (case s_attach s of Some (off, n) \<Rightarrow> Append parts (Range off n) | None \<Rightarrow> parts);
          parts = Append parts (Literal (cuesElement s cues (pos_clusters pos)))
      in foldl (\<lambda>parts c. foldl Append (Append parts (Literal (c_newHeader c))) (c_body c))
           parts clusters)"

text \<open>The bodies of the clusters: the first and the last filtered by block, the others whole.\<close>

definition firstCluster ::
  "source \<Rightarrow> reader \<Rightarrow> cluster list \<Rightarrow> u64 \<Rightarrow> u64 \<Rightarrow> mkv_err + cluster" where
  "firstCluster s r clusters keyTime endT =
     (let c = hd clusters in
      (case readBlocks r c of Inl e \<Rightarrow> Inl e
       | Inr blocks \<Rightarrow>
           let keep = keepFrom s blocks keyTime;
               keep = (if length clusters = 1 then keepUntil s keep endT else keep)
           in if c_timestamp c = keyTime then Inr (c\<lparr>c_body := blockParts keep\<rparr>)
              else (case rebasedParts keep keyTime of Inl e \<Rightarrow> Inl e
                | Inr body \<Rightarrow> Inr (c\<lparr>c_body := body, c_timestamp := keyTime\<rparr>))))"

definition wholeCluster :: "cluster \<Rightarrow> cluster" where
  "wholeCluster c = c\<lparr>c_body := [Range (c_blocksOff c) (c_end c - c_blocksOff c)]\<rparr>"

definition clipClusters ::
  "source \<Rightarrow> reader \<Rightarrow> cluster list \<Rightarrow> u64 \<Rightarrow> u64 \<Rightarrow> mkv_err + cluster list" where
  "clipClusters s r clusters keyTime endT =
     (case firstCluster s r clusters keyTime endT of Inl e \<Rightarrow> Inl e
      | Inr first \<Rightarrow>
        if length clusters = 1 then Inr [first]
        else (case readBlocks r (last clusters) of Inl e \<Rightarrow> Inl e
          | Inr blocks \<Rightarrow>
              Inr (first # map wholeCluster (butlast (tl clusters))
                @ [(last clusters)\<lparr>c_body := blockParts (keepUntil s blocks endT)\<rparr>])))"

definition BuildClip ::
  "(f64 \<Rightarrow> u64) \<Rightarrow> source \<Rightarrow> reader \<Rightarrow> f64 \<Rightarrow> f64 \<Rightarrow> byte list \<Rightarrow> mkv_err + clip" where
  "BuildClip oor s r start stop title =
     (if f64_le stop start then Inl EndNotAfterStart
      else let startT = Ticks oor s start;
               endT0 = Ticks oor s stop;
               timed = f64_less (Fin 0) (s_duration s);
               dur = f64_to_u64 oor (s_duration s)
           in if timed \<and> dur \<le> startT then Inl StartPastEnd
              else let endT = (if timed then min endT0 dur else endT0);
                       found = sort_Search (length (s_cues s)) (\<lambda>i. startT < cp_time (s_cues s ! i));
                       ci = (if found = 0 then 0 else found - 1)
                   in if length (s_cues s) \<le> ci then Inl IndexPanic
                      else let key = s_cues s ! ci in
                        if endT \<le> cp_time key then Inl StartPastEnd
                        else (case collectClusters s r (cp_off key) endT of Inl e \<Rightarrow> Inl e
                          | Inr raw \<Rightarrow>
                            (case clipClusters s r raw (cp_time key) endT of Inl e \<Rightarrow> Inl e
                             | Inr clusters \<Rightarrow>
                               let origin = cp_time key in
                               (case find (\<lambda>c. sint (c_timestamp c) < sint origin) clusters of
                                  Some c \<Rightarrow> Inl (Unsupported (TimestampsDecrease (c_off c)))
                                | None \<Rightarrow>
                                    Inr \<lparr>clip_parts = assemble s clusters origin endT title,
                                      clip_start = Seconds s origin, clip_end = Seconds s endT\<rparr>))))"

end
