(* ===== verification/MkvBlocks.thy ===== *)
theory MkvBlocks
  imports Mkv "HOL-Library.Sublist"
begin

text \<open>
  What the block functions of \<^verbatim>\<open>internal/mkv/mkv.go\<close> do to the bytes of the source: which
  range each block occupies, where its timestamp lies, and what the parts built from the
  kept blocks serve.
\<close>

section \<open>Reads\<close>

context reader_at
begin

lemma readAt_Inr:
  assumes "0 \<le> off" "readAt r off n = Inr b"
  shows "0 \<le> n" "b = take (nat n) (drop (nat off) content)" "length b = nat n"
    "0 < n \<Longrightarrow> nat off + nat n \<le> length content"
proof -
  obtain got err where g: "r off (nat n) = (got, err)" by fastforce
  have n: "0 \<le> n" and len: "n \<le> int (length got)" and b: "b = got"
    using assms(2) g by (auto simp: readAt_def split: if_splits)
  have got: "got = take (nat n) (drop (nat off) content)"
    using read_bytes [OF assms(1), of "nat n"] g by simp
  then have l: "length got = nat n" using len n by simp
  show "0 \<le> n" "b = take (nat n) (drop (nat off) content)" "length b = nat n"
    using n b got l by auto
  show "nat off + nat n \<le> length content" if "0 < n"
    using read_full_inside [OF assms(1), of "nat n"] g l that by simp
qed

end

section \<open>Blocks in their cluster\<close>

definition block_raw :: "byte list \<Rightarrow> block \<Rightarrow> byte list" where
  "block_raw f b = take (nat (b_len b)) (drop (nat (b_off b)) f)"

text \<open>The 16-bit relative timestamp stored at offset \<open>t\<close> of a block.\<close>

definition rel_at :: "byte list \<Rightarrow> nat \<Rightarrow> u16" where
  "rel_at raw t = shift_in (ucast (raw ! t)) (raw ! (t + 1))"

text \<open>A block lies inside its cluster, its prefix is its beginning, and its absolute time is
  the cluster's time plus the relative timestamp behind the prefix.\<close>

definition block_ok :: "byte list \<Rightarrow> cluster \<Rightarrow> block \<Rightarrow> bool" where
  "block_ok f c b \<longleftrightarrow>
     c_blocksOff c \<le> b_off b \<and> b_off b + b_len b \<le> c_end c
     \<and> b_off b + b_len b \<le> int (length f)
     \<and> 1 \<le> b_tsOff b \<and> b_tsOff b + 3 \<le> b_len b
     \<and> b_prefix b = take (nat (b_tsOff b)) (block_raw f b)
     \<and> b_time b = c_timestamp c + scast (rel_at (block_raw f b) (nat (b_tsOff b)))"

definition is_block :: "element \<Rightarrow> bool" where
  "is_block k \<longleftrightarrow> e_id k = IDSimpleBlock \<or> e_id k = IDBlockGroup"

lemma child_at_payload:
  assumes "child_at b e"
  shows "drop (payload_start e) (e_raw e) = e_data e"
    "payload_start e + length (e_data e) = length (e_raw e)"
    "e_raw e = take (length (e_raw e)) (drop (e_pos e) b)"
    "e_pos e + length (e_raw e) \<le> length b"
proof -
  obtain h :: header where h: "e_raw e = take (h_len h) (e_raw e) @ e_data e"
    "length (e_raw e) = h_len h + length (e_data e)"
    "e_raw e = take (length (e_raw e)) (drop (e_pos e) b)"
    "e_pos e + length (e_raw e) \<le> length b"
    using assms unfolding child_at_def by blast
  then have p: "payload_start e = h_len h" by (simp add: payload_start_def)
  have "drop (h_len h) (take (h_len h) (e_raw e) @ e_data e) = e_data e"
    using h(2) by simp
  then show "drop (payload_start e) (e_raw e) = e_data e"
    unfolding p h(1) [symmetric] .
  show "payload_start e + length (e_data e) = length (e_raw e)" using h(2) p by simp
  show "e_raw e = take (length (e_raw e)) (drop (e_pos e) b)"
    "e_pos e + length (e_raw e) \<le> length b" by (rule h)+
qed

lemma child_at_data:
  assumes "child_at b e"
  shows "e_data e = take (length (e_data e)) (drop (e_pos e + payload_start e) b)"
    "e_pos e + payload_start e + length (e_data e) \<le> length b"
proof -
  note c = child_at_payload [OF assms]
  have "e_data e = drop (payload_start e) (take (length (e_raw e)) (drop (e_pos e) b))"
    using c(1,3) by simp
  also have "\<dots> = take (length (e_raw e) - payload_start e) (drop (payload_start e) (drop (e_pos e) b))"
    by (rule drop_take)
  also have "length (e_raw e) - payload_start e = length (e_data e)" using c(2) by simp
  finally show "e_data e = take (length (e_data e)) (drop (e_pos e + payload_start e) b)"
    by (simp add: add.commute)
  show "e_pos e + payload_start e + length (e_data e) \<le> length b" using c(2,4) by simp
qed

lemma group_block_from:
  "group_block gs = Some (start, data) \<Longrightarrow>
     \<exists>g \<in> set gs. e_id g = IDBlock \<and> start = e_pos g + payload_start g \<and> data = e_data g"
  by (induction gs rule: rev_induct) (auto simp: group_block_def split: if_splits)

text \<open>The block data is a slice of the child's raw bytes at the recorded start.\<close>

lemma block_data_slice:
  assumes "child_at b k" "block_data k = Inr (Some (start, data))"
  shows "data = take (length data) (drop start (e_raw k))" "start + length data \<le> length (e_raw k)"
    "1 \<le> start" "is_block k"
proof -
  note k = child_at_payload [OF assms(1)]
  have hl: "1 \<le> payload_start k" using assms(1) by (auto simp: child_at_def payload_start_def)
  have "data = take (length data) (drop start (e_raw k)) \<and> start + length data \<le> length (e_raw k)
    \<and> 1 \<le> start \<and> is_block k"
  proof (cases "e_id k = IDSimpleBlock")
    case True
    with assms(2) k hl show ?thesis by (auto simp: block_data_def is_block_def)
  next
    case False
    then obtain gs k0 where g: "e_id k = IDBlockGroup" "Children (e_data k) = Inr gs"
        "group_block gs = Some (k0, data)" and start: "start = payload_start k + k0"
      using assms(2) by (auto simp: block_data_def split: if_splits sum.splits option.splits)
    then obtain e where e: "e \<in> set gs" "k0 = e_pos e + payload_start e" "data = e_data e"
      using group_block_from [OF g(3)] by blast
    note d = child_at_data [OF Children_child_at [OF g(2) e(1)], folded e(2,3)]
    have "data = take (length data) (drop k0 (drop (payload_start k) (e_raw k)))"
      using d(1) k(1) by simp
    then have "data = take (length data) (drop start (e_raw k))"
      by (simp add: start add.commute)
    with d(2) k(2) start hl g(1) show ?thesis by (simp add: is_block_def)
  qed
  then show "data = take (length data) (drop start (e_raw k))"
    "start + length data \<le> length (e_raw k)" "1 \<le> start" "is_block k" by blast+
qed

lemma block_data_none:
  "block_data k = Inr None \<Longrightarrow> \<not> is_block k"
  by (auto simp: block_data_def is_block_def split: if_splits sum.splits option.splits prod.splits)

lemma nth_slice:
  assumes "data = take (length data) (drop s xs)" "i < length data"
  shows "data ! i = xs ! (s + i)"
proof -
  have "length data \<le> length xs - s"
    using arg_cong [OF assms(1), of length] by simp
  with assms(2) have "s \<le> length xs" by linarith
  then show ?thesis
    using assms(2) by (subst assms(1)) simp
qed

text \<open>The slice \<open>n\<close> bytes long at \<open>off\<close> of the file.\<close>

lemma slice_length: "xs = take (length xs) (drop n f) \<Longrightarrow> length xs \<le> length f - n"
  by (drule arg_cong [of _ _ length]) simp

lemma slice_slice:
  assumes "ys = take (length ys) (drop n f)" "xs = take (length xs) (drop m ys)"
  shows "xs = take (length xs) (drop (n + m) f)"
proof -
  have "xs = take (length xs) (drop m (take (length ys) (drop n f)))"
    using assms by simp
  also have "\<dots> = take (min (length xs) (length ys - m)) (drop (n + m) f)"
    by (simp add: drop_take add.commute)
  also have "min (length xs) (length ys - m) = length xs"
    using slice_length [OF assms(2)] by simp
  finally show ?thesis .
qed

lemma parse_block_ok:
  assumes p: "parse_block c k pos start data = Inr b"
    and data: "data = take (length data) (drop start (e_raw k))"
      "start + length data \<le> length (e_raw k)" "1 \<le> start"
    and raw: "e_raw k = take (length (e_raw k)) (drop (nat (c_blocksOff c + pos)) f)"
    and inside: "0 \<le> pos" "c_blocksOff c + pos + int (length (e_raw k)) \<le> c_end c"
      "c_blocksOff c + pos + int (length (e_raw k)) \<le> int (length f)"
  shows "block_ok f c b" "block_raw f b = e_raw k" "b_off b = c_blocksOff c + pos"
proof -
  obtain track tlen where rs: "ReadSize data = Inr (track, tlen)" and len: "tlen + 3 \<le> length data"
    and b: "b = \<lparr>b_off = c_blocksOff c + pos, b_len = int (length (e_raw k)),
      b_track = word_of_int track,
      b_time = c_timestamp c + scast (shift_in (ucast (data ! tlen)) (data ! (tlen + 1)) :: u16),
      b_tsOff = int (start + tlen), b_prefix = take (start + tlen) (e_raw k)\<rparr>"
    using p by (auto simp: parse_block_def Let_def split: sum.splits if_splits)
  show off: "b_off b = c_blocksOff c + pos" by (simp add: b)
  show br: "block_raw f b = e_raw k" unfolding block_raw_def using raw by (simp add: b)
  have n: "data ! tlen = e_raw k ! (start + tlen)" "data ! (tlen + 1) = e_raw k ! (start + tlen + 1)"
    using nth_slice [OF data(1), of tlen] nth_slice [OF data(1), of "tlen + 1"] len
    by (simp_all add: add.assoc)
  have time: "b_time b = c_timestamp c + scast (rel_at (block_raw f b) (nat (b_tsOff b)))"
    unfolding br rel_at_def by (simp only: b block.simps nat_int n)
  have prefix: "b_prefix b = take (nat (b_tsOff b)) (block_raw f b)"
    unfolding br by (simp add: b nat_add_distrib)
  have "1 \<le> b_tsOff b" "b_tsOff b + 3 \<le> b_len b" "b_off b + b_len b \<le> c_end c"
    "b_off b + b_len b \<le> int (length f)" "c_blocksOff c \<le> b_off b"
    using len data(2,3) inside by (simp_all add: b)
  with time prefix show "block_ok f c b" unfolding block_ok_def by blast
qed

lemma block_list_ok:
  assumes body: "body = take (length body) (drop (nat (c_blocksOff c)) f)"
      "int (length body) = c_end c - c_blocksOff c" "0 \<le> c_blocksOff c"
    and kids: "\<And>k. k \<in> set ks \<Longrightarrow> child_at body k"
    and pos: "0 \<le> pos" "concat (map e_raw ks) = drop (nat pos) body"
    and bl: "block_list c ks pos = Inr bs"
  shows "list_all (block_ok f c) bs \<and> map (block_raw f) bs = map e_raw (filter is_block ks)
    \<and> sorted_wrt (\<lambda>b b'. b_off b + b_len b \<le> b_off b') bs \<and> (\<forall>b \<in> set bs. c_blocksOff c + pos \<le> b_off b)"
  using kids pos bl
proof (induction ks arbitrary: pos bs)
  case (Cons k ks)
  let ?n = "length (e_raw k)"
  have split: "drop (nat pos) body = e_raw k @ concat (map e_raw ks)"
    using Cons.prems(3) by simp
  then have raw: "e_raw k = take ?n (drop (nat pos) body)" by simp
  have n: "0 < ?n" using Cons.prems(1) [of k] by (auto simp: child_at_def)
  have "?n \<le> length body - nat pos" by (rule slice_length) (rule raw)
  with n have fit: "nat pos + ?n \<le> length body" by linarith
  have rawf: "e_raw k = take ?n (drop (nat (c_blocksOff c + pos)) f)"
    using slice_slice [OF body(1) raw] body(3) Cons.prems(2) by (simp add: nat_add_distrib)
  have "length body \<le> length f - nat (c_blocksOff c)" by (rule slice_length) (rule body(1))
  with fit n have "nat (c_blocksOff c) + length body \<le> length f" by linarith
  with fit body(2,3) Cons.prems(2)
  have inside: "c_blocksOff c + pos + int ?n \<le> c_end c" "c_blocksOff c + pos + int ?n \<le> int (length f)"
    by linarith+
  have rest: "concat (map e_raw ks) = drop (nat (pos + int ?n)) body"
    using arg_cong [OF split, of "drop ?n"] Cons.prems(2)
    by (simp add: nat_add_distrib add.commute)
  have IH: "block_list c ks (pos + int ?n) = Inr bs' \<Longrightarrow>
      list_all (block_ok f c) bs' \<and> map (block_raw f) bs' = map e_raw (filter is_block ks)
      \<and> sorted_wrt (\<lambda>b b'. b_off b + b_len b \<le> b_off b') bs'
      \<and> (\<forall>b \<in> set bs'. c_blocksOff c + (pos + int ?n) \<le> b_off b)" for bs'
    using Cons.IH [of "pos + int ?n" bs'] Cons.prems(1,2) rest by simp
  show ?case
  proof (cases "block_data k")
    case (Inl e)
    with Cons.prems(4) show ?thesis by simp
  next
    case (Inr d)
    show ?thesis
    proof (cases d)
      case None
      with Inr Cons.prems(4) have "block_list c ks (pos + int ?n) = Inr bs" by simp
      from IH [OF this] block_data_none [of k] Inr None show ?thesis by auto
    next
      case (Some sd)
      then obtain start data b bs' where d: "block_data k = Inr (Some (start, data))"
        and p: "parse_block c k pos start data = Inr b"
        and r: "block_list c ks (pos + int ?n) = Inr bs'" and bs: "bs = b # bs'"
        using Inr Cons.prems(4) by (cases sd) (auto split: sum.splits)
      note sl = block_data_slice [OF Cons.prems(1) [of k] d]
      have b: "block_ok f c b" "block_raw f b = e_raw k" "b_off b = c_blocksOff c + pos"
        using parse_block_ok [OF p sl(1-3) rawf Cons.prems(2) inside] by simp_all
      have "b_len b = int ?n"
        using p by (auto simp: parse_block_def Let_def split: sum.splits if_splits)
      with IH [OF r] b sl(4) Cons.prems(1) show ?thesis by (auto simp: bs)
    qed
  qed
qed simp

context reader_at
begin

lemma readBlocks_ok:
  assumes "0 \<le> c_blocksOff c" "readBlocks r c = Inr bs"
  obtains body kids where "body = take (nat (c_end c - c_blocksOff c)) (drop (nat (c_blocksOff c)) content)"
    "Children body = Inr kids"
    "list_all (block_ok content c) bs" "map (block_raw content) bs = map e_raw (filter is_block kids)"
    "sorted_wrt (\<lambda>b b'. b_off b + b_len b \<le> b_off b') bs"
proof -
  obtain body kids where body: "readAt r (c_blocksOff c) (c_end c - c_blocksOff c) = Inr body"
    and kids: "Children body = Inr kids" "block_list c kids 0 = Inr bs"
    using assms(2) by (auto simp: readBlocks_def split: sum.splits)
  note b = readAt_Inr [OF assms(1) body]
  have "body = take (length body) (drop (nat (c_blocksOff c)) content)"
    "int (length body) = c_end c - c_blocksOff c"
    using b by simp_all
  from block_list_ok [OF this assms(1) _ _ _ kids(2)] Children_child_at [OF kids(1)]
    ChildrenFrom_concat [of body 0 kids] kids(1)
  show ?thesis by (intro that [OF b(2) kids(1)]) (auto simp: Children_def)
qed

end

section \<open>What the parts serve\<close>

lemma block_ok_range:
  assumes "block_ok f c b" "0 \<le> c_blocksOff c"
  shows "part_good (int (length f)) (Range (b_off b) (b_len b))"
    "part_bytes f (Range (b_off b) (b_len b)) = block_raw f b"
    "int (length (block_raw f b)) = b_len b"
proof -
  have *: "0 \<le> b_off b" "0 < b_len b" "b_off b + b_len b \<le> int (length f)"
    using assms by (auto simp: block_ok_def)
  then show "part_good (int (length f)) (Range (b_off b) (b_len b))"
    "part_bytes f (Range (b_off b) (b_len b)) = block_raw f b"
    by (auto simp: part_good_def part_ok_def part_bytes_def block_raw_def Range_def)
  show "int (length (block_raw f b)) = b_len b"
    using * by (simp add: block_raw_def)
qed

lemma part_good_append_ok: "part_good n p \<Longrightarrow> append_ok p"
  by (auto simp: part_good_def intro: part_ok_append_ok)

lemma Append_good_good:
  "list_all (part_good n) ps \<Longrightarrow> part_good n p \<Longrightarrow> list_all (part_good n) (Append ps p)"
  by (intro Append_good) (simp_all add: part_good_def)

lemma good_append_ok: "list_all (part_good n) ps \<Longrightarrow> list_all append_ok ps"
  by (auto simp: list_all_iff part_good_append_ok)

lemma blockParts_from:
  assumes "list_all (block_ok f c) bs" "0 \<le> c_blocksOff c" "list_all (part_good (int (length f))) ps"
  defines "out \<equiv> foldl (\<lambda>parts b. Append parts (Range (b_off b) (b_len b))) ps bs"
  shows "list_all (part_good (int (length f))) out
    \<and> parts_content f out = parts_content f ps @ concat (map (block_raw f) bs)"
  using assms(1,3) unfolding out_def
proof (induction bs arbitrary: ps)
  case (Cons b bs)
  let ?p = "Range (b_off b) (b_len b)"
  have b: "part_good (int (length f)) ?p" "part_bytes f ?p = block_raw f b"
    using Cons.prems(1) by (simp_all add: block_ok_range [OF _ assms(2)])
  have "list_all (part_good (int (length f))) (Append ps ?p)"
    by (rule Append_good_good) (rule Cons.prems(2), rule b(1))
  moreover have "parts_content f (Append ps ?p) = parts_content f ps @ block_raw f b"
    using Append_content(1) [OF good_append_ok [OF Cons.prems(2)] part_good_append_ok [OF b(1)]] b(2)
    by simp
  ultimately show ?case using Cons.IH [of "Append ps ?p"] Cons.prems(1) by simp
qed simp

lemma blockParts_ok:
  assumes "list_all (block_ok f c) bs" "0 \<le> c_blocksOff c"
  shows "list_all (part_good (int (length f))) (blockParts bs)"
    "parts_content f (blockParts bs) = concat (map (block_raw f) bs)"
  using blockParts_from [OF assms, of "[]"] by (simp_all add: blockParts_def)

section \<open>Rebased blocks\<close>

text \<open>The bytes of a block with its relative timestamp rewritten against \<open>base\<close>.\<close>

definition rebased_raw :: "byte list \<Rightarrow> i64 \<Rightarrow> block \<Rightarrow> byte list" where
  "rebased_raw f base b =
     (let rel = b_time b - base; t = nat (b_tsOff b); raw = block_raw f b
      in take t raw @ [ucast (drop_bit 8 (ucast rel :: u16)), ucast rel] @ drop (t + 2) raw)"

lemma rel_bytes:
  "shift_in (ucast (ucast (drop_bit 8 (ucast (v :: i64) :: u16)) :: byte)) (ucast v :: byte) = (ucast v :: u16)"
  by (rule bit_word_eqI) (auto simp: shift_in_def bit_simps)

lemma small_rel:
  assumes "-32768 \<le> sint (v :: i64)" "sint v \<le> 32767"
  shows "scast (ucast v :: u16) = v"
proof -
  have "(ucast v :: u16) = word_of_int (sint v)"
    by (rule bit_word_eqI) (auto simp: bit_simps)
  moreover have "sint (word_of_int (sint v) :: u16) = signed_take_bit 15 (sint v)"
    by (subst signed_of_int) simp
  ultimately have "sint (ucast v :: u16) = signed_take_bit 15 (sint v)" by simp
  also have "\<dots> = sint v" using assms by (intro signed_take_bit_int_eq_self) auto
  finally have "word_of_int (sint (ucast v :: u16)) = (word_of_int (sint v) :: i64)" by simp
  then show ?thesis by simp
qed

text \<open>Only the two timestamp bytes change, and against the new base they denote the same
  time.\<close>

lemma rebased_raw_spec:
  assumes ok: "block_ok f c b" "0 \<le> c_blocksOff c"
    and near: "-32768 \<le> sint (b_time b - base)" "sint (b_time b - base) \<le> 32767"
  defines "t \<equiv> nat (b_tsOff b)"
  shows "length (rebased_raw f base b) = length (block_raw f b)"
    "take t (rebased_raw f base b) = take t (block_raw f b)"
    "drop (t + 2) (rebased_raw f base b) = drop (t + 2) (block_raw f b)"
    "base + scast (rel_at (rebased_raw f base b) t) = b_time b"
proof -
  let ?raw = "block_raw f b" and ?v = "b_time b - base"
  have t: "t + 3 \<le> length ?raw"
    using block_ok_range(3) [OF ok] ok(1) by (auto simp: block_ok_def t_def)
  have eq: "rebased_raw f base b =
      take t ?raw @ [ucast (drop_bit 8 (ucast ?v :: u16)), ucast ?v] @ drop (t + 2) ?raw"
    by (simp add: rebased_raw_def t_def Let_def)
  have lt: "length (take t ?raw) = t" using t by simp
  show "length (rebased_raw f base b) = length ?raw" unfolding eq using t by simp
  show "take t (rebased_raw f base b) = take t ?raw" unfolding eq using t by simp
  show "drop (t + 2) (rebased_raw f base b) = drop (t + 2) ?raw" unfolding eq using lt by simp
  have "rebased_raw f base b ! t = ucast (drop_bit 8 (ucast ?v :: u16))"
    "rebased_raw f base b ! (t + 1) = ucast ?v"
    unfolding eq using lt by (simp_all add: nth_append)
  then have "rel_at (rebased_raw f base b) t = ucast ?v"
    unfolding rel_at_def by (simp only: rel_bytes)
  then show "base + scast (rel_at (rebased_raw f base b) t) = b_time b"
    using small_rel [OF near] by simp
qed

lemma rebaseFrom_ok:
  assumes "list_all (block_ok f c) bs" "0 \<le> c_blocksOff c" "list_all (part_good (int (length f))) ps"
    and "rebaseFrom base bs ps = Inr out"
  shows "list_all (part_good (int (length f))) out
    \<and> parts_content f out = parts_content f ps @ concat (map (rebased_raw f base) bs)
    \<and> list_all (\<lambda>b. -32768 \<le> sint (b_time b - base) \<and> sint (b_time b - base) \<le> 32767) bs"
  using assms(1,3,4)
proof (induction bs arbitrary: ps)
  case (Cons b bs)
  let ?v = "b_time b - base" and ?t = "nat (b_tsOff b)" and ?raw = "block_raw f b"
  let ?head = "b_prefix b @ [ucast (drop_bit 8 (ucast ?v :: u16)), ucast ?v]"
  let ?rest = "Range (b_off b + b_tsOff b + 2) (b_len b - b_tsOff b - 2)"
  have b: "block_ok f c b" using Cons.prems(1) by simp
  have near: "-32768 \<le> sint ?v" "sint ?v \<le> 32767"
    and rec: "rebaseFrom base bs (Append (Append ps (Literal ?head)) ?rest) = Inr out"
    using Cons.prems(3) by (auto simp: Let_def split: if_splits)
  have bounds: "0 \<le> b_off b" "1 \<le> b_tsOff b" "b_tsOff b + 3 \<le> b_len b"
    "b_off b + b_len b \<le> int (length f)" "b_prefix b = take ?t ?raw"
    using b assms(2) by (auto simp: block_ok_def)
  have lit: "part_good (int (length f)) (Literal ?head)" "part_bytes f (Literal ?head) = ?head"
    by (simp_all add: part_good_def part_ok_def part_bytes_def Literal_def)
  have rng: "part_good (int (length f)) ?rest" "part_bytes f ?rest = drop (?t + 2) ?raw"
  proof -
    show "part_good (int (length f)) ?rest"
      using bounds by (simp add: part_good_def part_ok_def Range_def)
    have "nat (b_off b + b_tsOff b + 2) = nat (b_off b) + (?t + 2)"
      "nat (b_len b - b_tsOff b - 2) = nat (b_len b) - (?t + 2)"
      using bounds by (auto simp: nat_add_distrib nat_diff_distrib)
    then show "part_bytes f ?rest = drop (?t + 2) ?raw"
      by (simp add: part_bytes_def Range_def block_raw_def drop_take add.commute)
  qed
  have g1: "list_all (part_good (int (length f))) (Append ps (Literal ?head))"
    by (rule Append_good_good) (rule Cons.prems(2), rule lit(1))
  have g2: "list_all (part_good (int (length f))) (Append (Append ps (Literal ?head)) ?rest)"
    by (rule Append_good_good) (rule g1, rule rng(1))
  have "parts_content f (Append (Append ps (Literal ?head)) ?rest)
      = parts_content f ps @ ?head @ drop (?t + 2) ?raw"
    using Append_content(1) [OF good_append_ok [OF g1] part_good_append_ok [OF rng(1)]]
      Append_content(1) [OF good_append_ok [OF Cons.prems(2)] part_good_append_ok [OF lit(1)]]
      lit(2) rng(2) by simp
  also have "?head @ drop (?t + 2) ?raw = rebased_raw f base b"
    by (simp add: rebased_raw_def bounds(5) Let_def)
  finally show ?case
    using Cons.IH [OF _ g2 rec] Cons.prems(1) near by simp
qed simp

lemma rebasedParts_ok:
  assumes "list_all (block_ok f c) bs" "0 \<le> c_blocksOff c" "rebasedParts bs base = Inr ps"
  shows "list_all (part_good (int (length f))) ps"
    "parts_content f ps = concat (map (rebased_raw f base) bs)"
    "list_all (\<lambda>b. -32768 \<le> sint (b_time b - base) \<and> sint (b_time b - base) \<le> 32767) bs"
  using rebaseFrom_ok [OF assms(1,2), of "[]" base ps] assms(3) by (simp_all add: rebasedParts_def)

section \<open>Filtering\<close>

lemma first_index:
  assumes "\<And>b. b \<in> set pre \<Longrightarrow> \<not> P b" "P k"
  shows "find (\<lambda>i. P ((pre @ k # post) ! i)) [0..<length (pre @ k # post)] = Some (length pre)"
  using assms by (auto simp: find_Some_iff nth_append intro!: exI [of _ "length pre"])

lemma keepFrom_split:
  assumes "\<And>b. b \<in> set pre \<Longrightarrow> \<not> (b_track b = s_video s \<and> b_time b = t)"
    and "b_track k = s_video s" "b_time k = t"
  shows "keepFrom s (pre @ k # post) t = k # filter (\<lambda>b. sint t \<le> sint (b_time b)) post"
  unfolding keepFrom_def
  using first_index [of pre "\<lambda>b. b_track b = s_video s \<and> b_time b = t" k post] assms
  by (simp add: Let_def)

lemma set_keepFrom: "set (keepFrom s bs t) \<subseteq> {b \<in> set bs. sint t \<le> sint (b_time b)}"
  by (auto simp: keepFrom_def Let_def dest: in_set_dropD)

lemma keepUntilFrom_video:
  "filter (\<lambda>b. b_track b = s_video s) (keepUntilFrom s t videoDone bs) =
     (if videoDone then []
      else takeWhile (\<lambda>b. sint (b_time b) < sint t) (filter (\<lambda>b. b_track b = s_video s) bs))"
  by (induction bs arbitrary: videoDone) auto

lemma keepUntilFrom_other:
  "filter (\<lambda>b. b_track b \<noteq> s_video s) (keepUntilFrom s t videoDone bs) =
     filter (\<lambda>b. b_track b \<noteq> s_video s \<and> sint (b_time b) < sint t) bs"
  by (induction bs arbitrary: videoDone) auto

lemma keepUntilFrom_subseq: "subseq (keepUntilFrom s t videoDone bs) bs"
  by (induction bs arbitrary: videoDone) auto

lemma keepFrom_subseq: "subseq (keepFrom s bs t) bs"
proof -
  have "subseq (drop n bs) bs" for n by (rule suffix_imp_subseq) (rule suffix_drop)
  moreover have "subseq (filter P xs) xs" for P and xs :: "block list" by simp
  ultimately show ?thesis unfolding keepFrom_def Let_def by (rule subseq_order.order_trans [rotated])
qed

lemma subseq_all: "subseq xs ys \<Longrightarrow> list_all P ys \<Longrightarrow> list_all P xs"
  by (auto simp: list_all_iff dest: list_emb_set)

section \<open>Properties\<close>

text \<open>C14: \<open>readBlocks\<close> finds exactly the SimpleBlock and BlockGroup elements of the cluster's
  body, in order.  Every block lies inside its cluster and inside the file, no two overlap,
  and its time is the cluster's timestamp plus the signed 16-bit number stored right behind
  the recorded prefix, also when the block sits inside a BlockGroup.\<close>

theorem readBlocks_finds_blocks:
  assumes "reader_at r f" "0 \<le> c_blocksOff c" "readBlocks r c = Inr bs"
  shows "(\<exists>kids. Children (take (nat (c_end c - c_blocksOff c)) (drop (nat (c_blocksOff c)) f)) = Inr kids
      \<and> map (block_raw f) bs = map e_raw (filter is_block kids))
    \<and> list_all (block_ok f c) bs \<and> sorted_wrt (\<lambda>b b'. b_off b + b_len b \<le> b_off b') bs"
  using reader_at.readBlocks_ok [OF assms] by metis

definition demo_blocks :: "byte list" where
  "demo_blocks = [0xA3, 0x85, 0x81, 0x00, 0x05, 0x80, 0xAA,
     0xA0, 0x87, 0xA1, 0x85, 0x81, 0xFF, 0xFE, 0x00, 0xBB]"

definition demo_cluster :: cluster where
  "demo_cluster = \<lparr>c_off = 0, c_end = 16, c_blocksOff = 0, c_timestamp = 100, c_newHeader = [],
     c_body = []\<rparr>"

definition demo_block1 :: block where
  "demo_block1 = \<lparr>b_off = 0, b_len = 7, b_track = 1, b_time = 105, b_tsOff = 3,
     b_prefix = [0xA3, 0x85, 0x81]\<rparr>"

definition demo_block2 :: block where
  "demo_block2 = \<lparr>b_off = 7, b_len = 9, b_track = 1, b_time = 98, b_tsOff = 5,
     b_prefix = [0xA0, 0x87, 0xA1, 0x85, 0x81]\<rparr>"

lemma demo_readBlocks:
  "readBlocks (file_reader demo_blocks) demo_cluster = Inr [demo_block1, demo_block2]"
  by code_simp

lemma demo_reader: "reader_at (file_reader demo_blocks) demo_blocks"
  by unfold_locales

theorem readBlocks_finds_blocks_witness:
  "list_all (block_ok demo_blocks demo_cluster) [demo_block1, demo_block2]"
  using readBlocks_finds_blocks [OF demo_reader _ demo_readBlocks] by (simp add: demo_cluster_def)

text \<open>The clip's blocks start at the keyframe.  Of a cluster's blocks, everything stored
  before the first video block at the keyframe's time is dropped, the keyframe itself is
  kept first, and of what follows exactly the blocks that do not display before it are kept,
  in order.\<close>

lemma keepFrom_starts_at_keyframe:
  assumes "\<And>b. b \<in> set pre \<Longrightarrow> \<not> (b_track b = s_video s \<and> b_time b = t)"
    and "b_track k = s_video s" "b_time k = t"
  shows "keepFrom s (pre @ k # post) t = k # filter (\<lambda>b. sint t \<le> sint (b_time b)) post"
  by (rule keepFrom_split) (use assms in auto)

text \<open>The end of the clip cuts video at the first frame, in decode order, that displays at
  or after it, so no kept frame can refer to a dropped one; every other track keeps exactly
  its blocks that start before the end.  Nothing is reordered.\<close>

lemma keepUntil_cuts:
  "filter (\<lambda>b. b_track b = s_video s) (keepUntil s bs t)
     = takeWhile (\<lambda>b. sint (b_time b) < sint t) (filter (\<lambda>b. b_track b = s_video s) bs)
   \<and> filter (\<lambda>b. b_track b \<noteq> s_video s) (keepUntil s bs t)
     = filter (\<lambda>b. b_track b \<noteq> s_video s \<and> sint (b_time b) < sint t) bs
   \<and> subseq (keepUntil s bs t) bs"
  by (simp add: keepUntil_def keepUntilFrom_video keepUntilFrom_other keepUntilFrom_subseq)

text \<open>Blocks referenced whole are served unchanged: the parts built for them are valid
  ranges of the source and their bytes are the blocks' bytes, concatenated.\<close>

lemma blockParts_serve_blocks:
  assumes "list_all (block_ok f c) bs" "0 \<le> c_blocksOff c"
  shows "list_all (part_ok (int (length f))) (blockParts bs)
    \<and> parts_content f (blockParts bs) = concat (map (block_raw f) bs)"
  using blockParts_ok [OF assms] by (auto simp: list_all_iff part_good_def)

lemma demo_block1_ok: "block_ok demo_blocks demo_cluster demo_block1"
  by code_simp

lemma demo_block2_ok: "block_ok demo_blocks demo_cluster demo_block2"
  by code_simp

lemma blockParts_serve_blocks_witness:
  "parts_content demo_blocks (blockParts [demo_block2]) =
     [0xA0, 0x87, 0xA1, 0x85, 0x81, 0xFF, 0xFE, 0x00, 0xBB]"
proof -
  have "block_raw demo_blocks demo_block2 = [0xA0, 0x87, 0xA1, 0x85, 0x81, 0xFF, 0xFE, 0x00, 0xBB]"
    by code_simp
  then show ?thesis
    using blockParts_serve_blocks [of demo_blocks demo_cluster "[demo_block2]"] demo_block2_ok
    by (simp add: demo_cluster_def)
qed

text \<open>C11: Re-basing a cluster's blocks onto the keyframe keeps their bytes and their times.
  The parts built serve, for each kept block, a block of the same length that differs from
  the source only in the two timestamp bytes, and the new relative timestamp against the new
  base denotes the same absolute time; a block too far from the base for 16 bits is an error
  and never wraps.\<close>

theorem rebasedParts_keep_times:
  assumes "list_all (block_ok f c) bs" "0 \<le> c_blocksOff c" "rebasedParts bs base = Inr ps"
  shows "list_all (part_ok (int (length f))) ps
    \<and> parts_content f ps = concat (map (rebased_raw f base) bs)
    \<and> list_all (\<lambda>b. length (rebased_raw f base b) = length (block_raw f b)
        \<and> take (nat (b_tsOff b)) (rebased_raw f base b) = b_prefix b
        \<and> drop (nat (b_tsOff b) + 2) (rebased_raw f base b) = drop (nat (b_tsOff b) + 2) (block_raw f b)
        \<and> base + scast (rel_at (rebased_raw f base b) (nat (b_tsOff b))) = b_time b) bs"
proof -
  note r = rebasedParts_ok [OF assms]
  have "length (rebased_raw f base b) = length (block_raw f b)
        \<and> take (nat (b_tsOff b)) (rebased_raw f base b) = b_prefix b
        \<and> drop (nat (b_tsOff b) + 2) (rebased_raw f base b) = drop (nat (b_tsOff b) + 2) (block_raw f b)
        \<and> base + scast (rel_at (rebased_raw f base b) (nat (b_tsOff b))) = b_time b"
    if "b \<in> set bs" for b
  proof -
    have ok: "block_ok f c b" using assms(1) that by (simp add: list_all_iff)
    have near: "-32768 \<le> sint (b_time b - base)" "sint (b_time b - base) \<le> 32767"
      using r(3) that by (auto simp: list_all_iff)
    note spec = rebased_raw_spec [OF ok assms(2) near]
    have "b_prefix b = take (nat (b_tsOff b)) (block_raw f b)" using ok by (simp add: block_ok_def)
    with spec show ?thesis by metis
  qed
  with r(1,2) show ?thesis by (auto simp: list_all_iff part_good_def)
qed

theorem rebasedParts_keep_times_witness:
  "\<exists>ps. rebasedParts [demo_block1, demo_block2] 98 = Inr ps \<and>
     parts_content demo_blocks ps = [0xA3, 0x85, 0x81, 0x00, 0x07, 0x80, 0xAA,
       0xA0, 0x87, 0xA1, 0x85, 0x81, 0x00, 0x00, 0x00, 0xBB]"
proof -
  obtain ps where ps: "rebasedParts [demo_block1, demo_block2] 98 = Inr ps"
    by (cases "rebasedParts [demo_block1, demo_block2] 98")
      (simp_all add: rebasedParts_def demo_block1_def demo_block2_def Let_def)
  have "rebased_raw demo_blocks 98 demo_block1 = [0xA3, 0x85, 0x81, 0x00, 0x07, 0x80, 0xAA]"
    "rebased_raw demo_blocks 98 demo_block2 = [0xA0, 0x87, 0xA1, 0x85, 0x81, 0x00, 0x00, 0x00, 0xBB]"
    by code_simp+
  with ps rebasedParts_keep_times [OF _ _ ps, of demo_blocks demo_cluster]
    demo_block1_ok demo_block2_ok show ?thesis
    by (simp add: demo_cluster_def)
qed

end
