(* ===== verification/MkvSource.thy ===== *)
theory MkvSource
  imports MkvBlocks "HOL-Library.Multiset"
begin

text \<open>
  What \<open>Open\<close> and \<open>collectClusters\<close> of \<^verbatim>\<open>internal/mkv/mkv.go\<close> establish: the
  metadata of an opened file refers to real elements of it, the cues are sorted and the
  attachments lie inside the file; the clusters collected for a clip are consecutive, and all
  but the first start before its end.
\<close>

section \<open>Sorting the cues\<close>

text \<open>The contract of \<open>sort.Slice\<close> with the code's comparison: a permutation ordered by time.
  Nothing is promised about equal times.\<close>

locale cue_sorter =
  fixes srt :: "cue_point list \<Rightarrow> cue_point list"
  assumes srt_mset: "mset (srt cs) = mset cs"
    and srt_sorted: "sorted (map cp_time (srt cs))"
begin

lemma srt_set: "set (srt cs) = set cs"
  using srt_mset [of cs] by (metis set_mset_mset)

lemma srt_empty: "srt cs = [] \<longleftrightarrow> cs = []"
  using srt_mset [of cs] by (metis mset_zero_iff)

lemma parseCues_Inr:
  assumes "parseCues srt r s off = Inr s'"
  obtains b h points cues where "readElement r off IDCues = Inr (b, h)" "Children b = Inr points"
    "cue_points s points (s_cues s) = Inr cues" "cues \<noteq> []" "s' = s\<lparr>s_cues := srt cues\<rparr>"
    "sorted (map cp_time (s_cues s'))" "set (s_cues s') = set cues" "s_cues s' \<noteq> []"
  using assms
  by (auto simp: parseCues_def srt_sorted srt_set srt_empty split: sum.splits if_splits)

end

text \<open>A stable sort by time meets it.\<close>

interpretation stable: cue_sorter "sort_key cp_time"
  by unfold_locales simp_all

section \<open>The element at an offset\<close>

text \<open>The file has an element with this ID at \<open>off\<close>, and this is its payload.\<close>

definition payload_at :: "byte list \<Rightarrow> int \<Rightarrow> u32 \<Rightarrow> byte list \<Rightarrow> bool" where
  "payload_at f off i b \<longleftrightarrow>
     (\<exists>h. 0 \<le> off \<and> ParseHeader (drop (nat off) f) = Inr h \<and> h_id h = i
        \<and> h_size h = int (length b)
        \<and> b = take (length b) (drop (nat off + h_len h) f))"

context reader_at
begin

lemma readElement_payload:
  assumes "0 \<le> off" "readElement r off i = Inr (b, h)"
  shows "payload_at content off i b"
proof -
  have h: "ReadHeaderAt r off = Inr h" "h_id h = i" "h_size h \<noteq> UnknownSize"
    and rd: "readAt r (off + int (h_len h)) (h_size h) = Inr b"
    using assms(2) by (auto simp: readElement_def split: sum.splits if_splits)
  have "0 \<le> off + int (h_len h)" using assms(1) by simp
  note b = readAt_Inr [OF this rd]
  have "nat (off + int (h_len h)) = nat off + h_len h" using assms(1) by (simp add: nat_add_distrib)
  with b have "b = take (length b) (drop (nat off + h_len h) content)" by simp
  with b h ReadHeaderAt_Inr(1) [OF assms(1) h(1)] assms(1) show ?thesis
    unfolding payload_at_def by (intro exI [of _ h]) simp
qed

end

section \<open>The top-level walk\<close>

lemma open_step_attach:
  assumes "open_step r s off eh offs = Inr (s', offs')"
  shows "s_attach s' = s_attach s \<or> s_attach s' = Some (off, int (h_len eh) + h_size eh)"
    "s_info s' = s_info s" "s_tracks s' = s_tracks s" "s_duration s' = s_duration s"
  using assms by (auto simp: open_step_def split: prod.splits if_splits sum.splits)

definition attach_inside :: "int \<Rightarrow> int \<Rightarrow> (int \<times> int) option \<Rightarrow> bool" where
  "attach_inside lo hi a = (case a of None \<Rightarrow> True | Some (off, n) \<Rightarrow> lo \<le> off \<and> 0 < n \<and> off + n \<le> hi)"

lemma attach_inside_mono:
  "attach_inside lo hi a \<Longrightarrow> lo' \<le> lo \<Longrightarrow> hi \<le> hi' \<Longrightarrow> attach_inside lo' hi' a"
  by (auto simp: attach_inside_def split: option.splits)

text \<open>The walk keeps everything but the attachments and the first cluster; where it found a
  cluster, all it passed lies before that.\<close>

lemma OpenWalk_Inr:
  assumes "OpenWalk r s off offs = Inr (s', offs')" "0 < off"
  shows "s_segend s' = s_segend s \<and> s_segdata s' = s_segdata s \<and> s_size s' = s_size s
    \<and> s_ebml s' = s_ebml s \<and> s_cues s' = s_cues s \<and> s_scale s' = s_scale s
    \<and> s_video s' = s_video s
    \<and> (s_first s = 0 \<longrightarrow> s_first s' \<noteq> 0 \<longrightarrow> off \<le> s_first s' \<and> s_first s' < s_segend s
        \<and> (\<forall>lo. lo \<le> off \<and> attach_inside lo off (s_attach s) \<longrightarrow> attach_inside lo (s_first s') (s_attach s')))"
  using assms
proof (induction r s off offs rule: OpenWalk.induct)
  case (1 r s off offs)
  show ?case
  proof (cases "off < s_segend s")
    case False
    with "1.prems" show ?thesis by (simp add: OpenWalk.simps [of r s off offs])
  next
    case True
    with "1.prems"(1) obtain eh where eh: "ReadHeaderAt r off = Inr eh"
      by (cases "ReadHeaderAt r off") (simp_all add: OpenWalk.simps [of r s off offs])
    show ?thesis
    proof (cases "h_id eh = IDCluster")
      case True
      with \<open>off < s_segend s\<close> eh "1.prems" have "s' = s\<lparr>s_first := off\<rparr>"
        by (simp add: OpenWalk.simps [of r s off offs])
      with \<open>off < s_segend s\<close> show ?thesis by simp
    next
      case False
      with \<open>off < s_segend s\<close> eh "1.prems"(1) obtain s1 offs1 where known: "h_size eh \<noteq> UnknownSize"
          and st: "open_step r s off eh offs = Inr (s1, offs1)"
          and rec: "OpenWalk r s1 (off + (int (h_len eh) + h_size eh)) offs1 = Inr (s', offs')"
        by (auto simp: OpenWalk.simps [of r s off offs] split: if_splits sum.splits)
      let ?next = "off + (int (h_len eh) + h_size eh)"
      have adv: "off < ?next" using ReadHeaderAt_advance [OF eh known] by simp
      note IH = "1.IH" [OF \<open>off < s_segend s\<close> eh False known st refl rec]
      have at: "attach_inside lo ?next (s_attach s1)"
        if "lo \<le> off" "attach_inside lo off (s_attach s)" for lo
        using open_step_attach(1) [OF st] that adv
        by (auto intro: attach_inside_mono) (simp add: attach_inside_def)
      from IH adv "1.prems"(2) open_step_keeps [OF st] at show ?thesis by auto
    qed
  qed
qed

section \<open>Info, tracks and cues\<close>

lemma parseInfo_Inr:
  assumes "parseInfo r s off = Inr s'"
  obtains b h where "readElement r off IDInfo = Inr (b, h)" "Children b = Inr (s_info s')"
    "s_segend s' = s_segend s" "s_segdata s' = s_segdata s" "s_size s' = s_size s"
    "s_ebml s' = s_ebml s" "s_cues s' = s_cues s" "s_video s' = s_video s"
    "s_attach s' = s_attach s" "s_first s' = s_first s" "s_scale s \<noteq> 0 \<Longrightarrow> s_scale s' \<noteq> 0"
proof -
  let ?f = "\<lambda>s c. if e_id c = IDTimestampScale
      then (if 0 < uint0 (e_data c) then s\<lparr>s_scale := uint0 (e_data c)\<rparr> else s)
      else if e_id c = IDDuration then s\<lparr>s_duration := float0 (e_data c)\<rparr> else s"
  obtain b h kids where b: "readElement r off IDInfo = Inr (b, h)" "Children b = Inr kids"
    and s': "s' = foldl ?f (s\<lparr>s_info := kids\<rparr>) kids"
    using assms by (auto simp: parseInfo_def split: sum.splits)
  have keep: "s_info (foldl ?f t cs) = s_info t \<and> s_segend (foldl ?f t cs) = s_segend t
      \<and> s_segdata (foldl ?f t cs) = s_segdata t \<and> s_size (foldl ?f t cs) = s_size t
      \<and> s_ebml (foldl ?f t cs) = s_ebml t \<and> s_cues (foldl ?f t cs) = s_cues t
      \<and> s_video (foldl ?f t cs) = s_video t \<and> s_attach (foldl ?f t cs) = s_attach t
      \<and> s_first (foldl ?f t cs) = s_first t
      \<and> (s_scale t \<noteq> 0 \<longrightarrow> s_scale (foldl ?f t cs) \<noteq> 0)" for t :: source and cs
    by (induction cs arbitrary: t) (auto simp: word_gt_0)
  from keep [of "s\<lparr>s_info := kids\<rparr>" kids] show ?thesis
    by (intro that [OF b(1)]) (simp_all add: s' b(2))
qed

lemma parseTracks_Inr:
  assumes "parseTracks r s off = Inr s'"
  obtains b h kids video where "readElement r off IDTracks = Inr (b, h)" "Children b = Inr kids"
    "tracks_scan kids (s_video s) = Inr video" "video \<noteq> 0"
    "s' = s\<lparr>s_tracks := kids, s_video := video\<rparr>"
  using assms by (auto simp: parseTracks_def split: sum.splits if_splits)

lemma tracks_scan_video:
  assumes "tracks_scan ts video = Inr v" "v \<noteq> video"
  shows "\<exists>t \<in> set ts. \<exists>kids. e_id t = IDTrackEntry \<and> Children (e_data t) = Inr kids \<and> track_entry kids = (v, 1)"
  using assms
proof (induction ts arbitrary: video)
  case (Cons t ts)
  show ?case
  proof (cases "e_id t = IDTrackEntry")
    case False
    with Cons show ?thesis by auto
  next
    case True
    with Cons.prems(1) obtain kids num ty where k: "Children (e_data t) = Inr kids"
        "track_entry kids = (num, ty)"
        and rec: "tracks_scan ts (if ty = 1 \<and> video = 0 then num else video) = Inr v"
      by (auto split: sum.splits prod.splits)
    show ?thesis
    proof (cases "ty = 1 \<and> video = 0 \<and> v = num")
      case True
      with k \<open>e_id t = IDTrackEntry\<close> show ?thesis by auto
    next
      case False
      with Cons.IH [OF rec] Cons.prems(2) show ?thesis by (auto split: if_splits)
    qed
  qed
qed simp

lemma cue_positions_range:
  assumes "cue_positions s t ks cues = Inr cues'"
    and "\<And>c. c \<in> set cues \<Longrightarrow> s_segdata s \<le> cp_off c \<and> cp_off c < s_segdata s + s_size s"
    and "0 \<le> s_size s"
  shows "c \<in> set cues' \<Longrightarrow> s_segdata s \<le> cp_off c \<and> cp_off c < s_segdata s + s_size s"
  using assms(1,2)
proof (induction ks arbitrary: cues)
  case (Cons k ks)
  have lt: "uint v < s_size s" if "v < word_of_int (s_size s)" for v :: u64
  proof -
    have "uint v < uint (word_of_int (s_size s) :: u64)" using that by (simp add: word_less_def)
    also have "\<dots> \<le> s_size s" using assms(3) by (simp add: unsigned_of_int take_bit_int_less_eq_self_iff)
    finally show ?thesis .
  qed
  show ?case
  proof (cases "e_id k = IDCueTrackPositions")
    case False
    with Cons show ?thesis by simp
  next
    case True
    with Cons.prems(2) obtain pos track cl has where p: "Children (e_data k) = Inr pos"
      "cue_position pos = (track, cl, has)" by (auto split: sum.splits) (metis prod_cases3)
    let ?cues = "if track = s_video s \<and> has \<and> cl < word_of_int (s_size s)
      then cues @ [\<lparr>cp_time = t, cp_off = s_segdata s + uint cl\<rparr>] else cues"
    have "cue_positions s t ks ?cues = Inr cues'" using Cons.prems(2) True p by simp
    from Cons.IH [OF Cons.prems(1) this] show ?thesis
      using Cons.prems(3) lt [of cl] by (fastforce split: if_splits)
  qed
qed simp

lemma cue_points_range:
  assumes "cue_points s ps cues = Inr cues'"
    and "\<And>c. c \<in> set cues \<Longrightarrow> s_segdata s \<le> cp_off c \<and> cp_off c < s_segdata s + s_size s"
    and "0 \<le> s_size s"
  shows "c \<in> set cues' \<Longrightarrow> s_segdata s \<le> cp_off c \<and> cp_off c < s_segdata s + s_size s"
  using assms(1,2)
proof (induction ps arbitrary: cues)
  case (Cons p ps)
  show ?case
  proof (cases "e_id p = IDCuePoint")
    case False
    with Cons show ?thesis by simp
  next
    case True
    with Cons.prems(2) obtain kids cues1 where k: "Children (e_data p) = Inr kids"
      "cue_positions s (cue_time kids) kids cues = Inr cues1" "cue_points s ps cues1 = Inr cues'"
      by (auto split: sum.splits)
    show ?thesis
      by (rule Cons.IH [OF Cons.prems(1) k(3)])
        (rule cue_positions_range [OF k(2) Cons.prems(3) assms(3)])
  qed
qed simp

section \<open>What an opened file promises\<close>

definition source_ok :: "byte list \<Rightarrow> source \<Rightarrow> bool" where
  "source_ok f s \<longleftrightarrow>
     s_size s = int (length f)
     \<and> (\<exists>h. ParseHeader f = Inr h \<and> h_id h = IDEBML
          \<and> int (length (s_ebml s)) = int (h_len h) + h_size h)
     \<and> s_ebml s = take (length (s_ebml s)) f
     \<and> int (length (s_ebml s)) < s_segdata s \<and> s_segdata s \<le> s_first s
     \<and> s_first s < s_segend s \<and> s_segend s \<le> s_size s
     \<and> attach_inside (s_segdata s) (s_first s) (s_attach s)
     \<and> (\<exists>off. payload_at f off IDInfo (concat (map e_raw (s_info s))))
     \<and> (\<exists>off. payload_at f off IDTracks (concat (map e_raw (s_tracks s))))
     \<and> s_video s \<noteq> 0
     \<and> (\<exists>t \<in> set (s_tracks s). \<exists>kids. e_id t = IDTrackEntry
          \<and> Children (e_data t) = Inr kids \<and> track_entry kids = (s_video s, 1))
     \<and> s_scale s \<noteq> 0
     \<and> s_cues s \<noteq> [] \<and> sorted (map cp_time (s_cues s))
     \<and> (\<forall>c \<in> set (s_cues s). s_segdata s \<le> cp_off c \<and> cp_off c < s_segdata s + s_size s)"

lemma Children_raw: "Children b = Inr es \<Longrightarrow> concat (map e_raw es) = b"
  by (simp add: Children_def ChildrenFrom_concat)

lemma Open_source_ok:
  assumes "cue_sorter srt" "reader_at r f" and open_ok: "Open srt r (int (length f)) = Inr s"
  shows "source_ok f s"
proof -
  note readAt_Inr = reader_at.readAt_Inr [OF assms(2)]
    and ReadHeaderAt_Inr = reader_at.ReadHeaderAt_Inr [OF assms(2)]
    and readElement_payload = reader_at.readElement_payload [OF assms(2)]
  let ?sz = "int (length f)"
  obtain h hdr seg s1 s2 s3 io tr cu where
    h: "ReadHeaderAt r 0 = Inr h" "h_id h = IDEBML" "h_size h \<noteq> UnknownSize"
    and hdr: "readAt r 0 (int (h_len h) + h_size h) = Inr hdr"
    and seg: "ReadHeaderAt r (int (length hdr)) = Inr seg"
    and walk: "OpenWalk r (initial_source ?sz hdr seg) (s_segdata (initial_source ?sz hdr seg))
      (-1, -1, -1) = Inr (s1, io, tr, cu)"
    and found: "s_first s1 \<noteq> 0" "0 \<le> io" "0 \<le> tr"
    and parse: "parseInfo r s1 io = Inr s2" "parseTracks r s2 tr = Inr s3" "parseCues srt r s3 cu = Inr s"
    using open_ok unfolding Open_def Let_def
    by (auto split: sum.splits if_splits prod.splits simp: not_less)
  define s0 where "s0 = initial_source ?sz hdr seg"
  have s0: "s_segdata s0 = int (length hdr) + int (h_len seg)" "s_segend s0 \<le> ?sz"
      "s_size s0 = ?sz" "s_ebml s0 = hdr" "s_cues s0 = []" "s_scale s0 = 1000000"
      "s_video s0 = 0" "s_attach s0 = None" "s_first s0 = 0"
    by (simp_all add: s0_def initial_source_def Let_def)
  have pos: "int (length hdr) < s_segdata s0" using s0(1) ReadHeaderAt_bounds(1) [OF seg] by simp
  then have "0 < s_segdata s0" by linarith
  note w = OpenWalk_Inr [OF walk [folded s0_def] this]
  have w': "s_segdata s0 \<le> s_first s1" "s_first s1 < s_segend s0"
    "attach_inside (s_segdata s0) (s_first s1) (s_attach s1)"
    using w found(1) s0 by (auto simp: attach_inside_def)
  obtain b1 h1 where b1: "readElement r io IDInfo = Inr (b1, h1)" "Children b1 = Inr (s_info s2)"
    and keep2: "s_segend s2 = s_segend s1" "s_segdata s2 = s_segdata s1" "s_size s2 = s_size s1"
    "s_ebml s2 = s_ebml s1" "s_cues s2 = s_cues s1" "s_video s2 = s_video s1"
    "s_attach s2 = s_attach s1" "s_first s2 = s_first s1" "s_scale s1 \<noteq> 0 \<Longrightarrow> s_scale s2 \<noteq> 0"
    using parseInfo_Inr [OF parse(1)] by metis
  obtain b2 h2 kids v where b2: "readElement r tr IDTracks = Inr (b2, h2)" "Children b2 = Inr kids"
    and v: "tracks_scan kids (s_video s2) = Inr v" "v \<noteq> 0" "s3 = s2\<lparr>s_tracks := kids, s_video := v\<rparr>"
    using parseTracks_Inr [OF parse(2)] by metis
  obtain points cues where cp: "cue_points s3 points (s_cues s3) = Inr cues"
    and s: "s = s3\<lparr>s_cues := srt cues\<rparr>" "sorted (map cp_time (s_cues s))"
      "set (s_cues s) = set cues" "s_cues s \<noteq> []"
    using cue_sorter.parseCues_Inr [OF assms(1) parse(3)] by metis
  have info: "payload_at f io IDInfo (concat (map e_raw (s_info s2)))"
    using readElement_payload [OF found(2) b1(1)] Children_raw [OF b1(2)] by simp
  have tracks: "payload_at f tr IDTracks (concat (map e_raw kids))"
    using readElement_payload [OF found(3) b2(1)] Children_raw [OF b2(2)] by simp
  have size3: "s_size s3 = ?sz" and cues3: "s_cues s3 = []" and data3: "s_segdata s3 = s_segdata s0"
    using v(3) keep2 w s0 by simp_all
  have range: "s_segdata s3 \<le> cp_off c \<and> cp_off c < s_segdata s3 + s_size s3" if "c \<in> set cues" for c
    by (rule cue_points_range [OF cp]) (use cues3 size3 that in simp_all)
  have hdr': "hdr = take (length hdr) f" "int (length hdr) = int (h_len h) + h_size h"
    using readAt_Inr(1-3) [OF _ hdr] by simp_all
  have parse_h: "ParseHeader f = Inr h" using ReadHeaderAt_Inr(1) [OF _ h(1)] by simp
  have scan: "\<exists>t \<in> set kids. \<exists>ks. e_id t = IDTrackEntry \<and> Children (e_data t) = Inr ks
      \<and> track_entry ks = (v, 1)"
    using tracks_scan_video [OF v(1)] v(2) keep2(6) w s0(7) by simp
  show ?thesis
    unfolding source_ok_def
  proof (intro conjI)
    show "\<exists>off. payload_at f off IDInfo (concat (map e_raw (s_info s)))"
      using info by (auto simp: s v(3))
    show "\<exists>off. payload_at f off IDTracks (concat (map e_raw (s_tracks s)))"
      using tracks by (auto simp: s v(3))
    show "\<exists>t \<in> set (s_tracks s). \<exists>kids. e_id t = IDTrackEntry
          \<and> Children (e_data t) = Inr kids \<and> track_entry kids = (s_video s, 1)"
      using scan by (simp add: s v(3))
    show "\<exists>h. ParseHeader f = Inr h \<and> h_id h = IDEBML
          \<and> int (length (s_ebml s)) = int (h_len h) + h_size h"
      using parse_h h(2) hdr'(2) keep2 w s0(4) by (auto simp: s v(3))
    show "\<forall>c \<in> set (s_cues s). s_segdata s \<le> cp_off c \<and> cp_off c < s_segdata s + s_size s"
      using range s(3) by (simp add: s(1))
  qed (use s v(2) v(3) keep2 w w' s0 pos hdr'(1) in simp_all)
qed

section \<open>Collecting clusters\<close>

lemma ClusterWalk_blocks:
  assumes "ClusterWalk r off c p g = Inr c'" "lo \<le> p" "lo \<le> c_end c"
  shows "lo \<le> c_blocksOff c' \<and> c_blocksOff c' \<le> c_end c' \<and> c_end c' = c_end c \<and> c_off c' = c_off c"
  using assms
proof (induction r off c p g rule: ClusterWalk.induct)
  case (1 r off c p g)
  note unf = ClusterWalk.simps [of r off c p g]
  show ?case
  proof (cases "p < c_end c")
    case False
    with "1.prems" show ?thesis by (auto simp: unf)
  next
    case True
    with "1.prems"(1) obtain ch where ch: "ReadHeaderAt r p = Inr ch" "h_size ch \<noteq> UnknownSize"
      by (cases "ReadHeaderAt r p") (auto simp: unf split: if_splits)
    let ?next = "p + (int (h_len ch) + h_size ch)"
    have nx: "lo \<le> ?next" using ReadHeaderAt_advance [OF ch] "1.prems"(2) by linarith
    consider (time) b where "h_id ch = IDTimestamp"
        "readAt r (p + int (h_len ch)) (h_size ch) = Inr b"
        "ClusterWalk r off (c\<lparr>c_timestamp := uint0 b\<rparr>) ?next True = Inr c'"
      | (block) "c' = c\<lparr>c_blocksOff := p\<rparr>"
      | (other) "h_id ch \<noteq> IDTimestamp" "\<not> (h_id ch = IDSimpleBlock \<or> h_id ch = IDBlockGroup)"
        "h_id ch \<noteq> IDEncryptedBlock" "ClusterWalk r off c ?next g = Inr c'"
      using "1.prems"(1) True ch by (auto simp: unf split: if_splits sum.splits)
    then show ?thesis
    proof cases
      case (time b)
      from "1.IH"(1) [OF True ch time nx] "1.prems"(3) show ?thesis by simp
    next
      case block
      with True "1.prems" show ?thesis by simp
    next
      case other
      from "1.IH"(2) [OF True ch other nx "1.prems"(3)] show ?thesis by simp
    qed
  qed
qed

lemma readCluster_bounds:
  assumes "readCluster r off = Inr (Some c)"
  shows "c_off c = off" "off < c_blocksOff c" "c_blocksOff c \<le> c_end c" "off < c_end c"
proof -
  obtain h where h: "ReadHeaderAt r off = Inr h" "h_size h \<noteq> UnknownSize"
    and w: "ClusterWalk r off
            \<lparr>c_off = off, c_end = off + int (h_len h) + h_size h, c_blocksOff = 0,
             c_timestamp = 0, c_newHeader = [], c_body = []\<rparr> (off + int (h_len h)) False = Inr c"
    using assms by (auto simp: readCluster_def split: sum.splits if_splits)
  have "0 \<le> h_size h" "2 \<le> h_len h" using ReadHeaderAt_bounds [OF h(1)] h(2) by auto
  with ClusterWalk_blocks [OF w, of "off + int (h_len h)"]
  show "c_off c = off" "off < c_blocksOff c" "c_blocksOff c \<le> c_end c" "off < c_end c" by auto
qed

text \<open>A collected cluster is one the reader decodes at its offset, inside the segment.\<close>

definition cluster_read :: "reader \<Rightarrow> source \<Rightarrow> cluster \<Rightarrow> bool" where
  "cluster_read r s c \<longleftrightarrow> readCluster r (c_off c) = Inr (Some c) \<and> c_off c < s_segend s"

lemma collect_Inr:
  assumes "collect r s endT off out = Inr cs"
  shows "\<exists>new. cs = out @ new \<and> list_all (cluster_read r s) new
    \<and> (\<forall>c \<in> set new. off \<le> c_off c) \<and> sorted_wrt (\<lambda>c c'. c_end c \<le> c_off c') new
    \<and> (\<forall>c \<in> set (if out = [] then tl new else new). c_timestamp c < endT)"
  using assms
proof (induction r s endT off out rule: collect.induct)
  case (1 r s endT off out)
  note unf = collect.simps [of r s endT off out]
  show ?case
  proof (cases "off < s_segend s")
    case False
    with "1.prems" show ?thesis by (simp add: unf)
  next
    case inside: True
    consider (stop) "cs = out"
      | (skip) h where "readCluster r off = Inr None" "ReadHeaderAt r off = Inr h"
        "h_size h \<noteq> UnknownSize" "collect r s endT (off + (int (h_len h) + h_size h)) out = Inr cs"
      | (take_it) c where "readCluster r off = Inr (Some c)" "\<not> (out \<noteq> [] \<and> endT \<le> c_timestamp c)"
        "collect r s endT (c_end c) (out @ [c]) = Inr cs"
      using "1.prems" inside by (auto simp: unf split: sum.splits option.splits if_splits)
    then show ?thesis
    proof cases
      case stop
      then show ?thesis by simp
    next
      case (skip h)
      from "1.IH"(1) [OF inside skip(1) refl skip(2,3,4)] ReadHeaderAt_advance [OF skip(2,3)]
      show ?thesis by force
    next
      case (take_it c)
      note b = readCluster_bounds [OF take_it(1)]
      from "1.IH"(2) [OF inside take_it(1) refl take_it(2,3)]
      obtain new where new: "cs = out @ c # new" "list_all (cluster_read r s) new"
        "\<forall>c' \<in> set new. c_end c \<le> c_off c'" "sorted_wrt (\<lambda>c c'. c_end c \<le> c_off c') new"
        "\<forall>c' \<in> set new. c_timestamp c' < endT"
        by auto
      moreover have "cluster_read r s c" using take_it(1) inside b(1) by (simp add: cluster_read_def)
      moreover have "\<forall>c' \<in> set new. off \<le> c_off c'" using new(3) b by force
      ultimately show ?thesis
        using b take_it(2) by (intro exI [of _ "c # new"]) (auto simp: not_le)
    qed
  qed
qed

lemma collectClusters_Inr:
  assumes "collectClusters s r off endT = Inr cs"
  shows "cs \<noteq> []" "list_all (cluster_read r s) cs" "\<forall>c \<in> set cs. off \<le> c_off c"
    "sorted_wrt (\<lambda>c c'. c_end c \<le> c_off c') cs" "\<forall>c \<in> set (tl cs). c_timestamp c < endT"
  using assms collect_Inr [of r s endT off "[]"]
  by (auto simp: collectClusters_def split: sum.splits if_splits)

section \<open>Properties\<close>

text \<open>A small file: a header, a segment with an empty Info, one video track, two cues and two
  clusters of one block each.\<close>

definition demo_file :: "byte list" where
  "demo_file =
     [0x1A, 0x45, 0xDF, 0xA3, 0x80] @ [0x18, 0x53, 0x80, 0x67, 0xD1] @
     [0x15, 0x49, 0xA9, 0x66, 0x80] @
     [0x16, 0x54, 0xAE, 0x6B, 0x88, 0xAE, 0x86, 0xD7, 0x81, 0x01, 0x83, 0x81, 0x01] @
     [0x1C, 0x53, 0xBB, 0x6B, 0x9B,
      0xBB, 0x8B, 0xB3, 0x81, 0x00, 0xB7, 0x86, 0xF7, 0x81, 0x01, 0xF1, 0x81, 0x32,
      0xBB, 0x8C, 0xB3, 0x82, 0x03, 0xE8, 0xB7, 0x86, 0xF7, 0x81, 0x01, 0xF1, 0x81, 0x41] @
     [0x1F, 0x43, 0xB6, 0x75, 0x8A, 0xE7, 0x81, 0x00, 0xA3, 0x85, 0x81, 0x00, 0x00, 0x80, 0xAA] @
     [0x1F, 0x43, 0xB6, 0x75, 0x8B, 0xE7, 0x82, 0x03, 0xE8, 0xA3, 0x85, 0x81, 0x00, 0x00, 0x80, 0xBB]"

definition demo_tracks :: "element list" where
  "demo_tracks = [\<lparr>e_id = IDTrackEntry, e_data = [0xD7, 0x81, 0x01, 0x83, 0x81, 0x01],
     e_raw = [0xAE, 0x86, 0xD7, 0x81, 0x01, 0x83, 0x81, 0x01], e_pos = 0\<rparr>]"

definition demo_movie :: source where
  "demo_movie = \<lparr>s_size = 91, s_ebml = [0x1A, 0x45, 0xDF, 0xA3, 0x80], s_segdata = 10,
     s_segend = 91, s_scale = 1000000, s_duration = Fin 0, s_info = [], s_tracks = demo_tracks,
     s_video = 1, s_attach = None, s_first = 60,
     s_cues = [\<lparr>cp_time = 0, cp_off = 60\<rparr>, \<lparr>cp_time = 1000, cp_off = 75\<rparr>]\<rparr>"

definition demo_clusters :: "cluster list" where
  "demo_clusters =
     [\<lparr>c_off = 60, c_end = 75, c_blocksOff = 68, c_timestamp = 0, c_newHeader = [], c_body = []\<rparr>,
      \<lparr>c_off = 75, c_end = 91, c_blocksOff = 84, c_timestamp = 1000, c_newHeader = [], c_body = []\<rparr>]"

lemma demo_file_reader: "reader_at (file_reader demo_file) demo_file"
  by unfold_locales

lemma demo_Open:
  "Open (sort_key cp_time) (file_reader demo_file) (int (length demo_file)) = Inr demo_movie"
  by code_simp

lemma demo_collect:
  "collectClusters demo_movie (file_reader demo_file) 60 2000 = Inr demo_clusters"
  by code_simp

text \<open>C15: What \<open>Open\<close> returns describes the file, for any reader that obeys \<open>io.ReaderAt\<close>:
  the kept EBML header is the file's first element, the Info and Tracks children are exactly
  the payloads of elements found in the file, and the video track is a track entry of type 1.
  The first cluster begins inside the Segment, which ends inside the file, and the attachments
  lie between the Segment's start and the first cluster.  The cues are not empty and sorted by
  time, however \<open>sort.Slice\<close> treats ties; each points behind the Segment's start by less
  than the size of the file, which does not exclude a position behind the Segment's end.\<close>

theorem Open_describes_file:
  assumes "cue_sorter srt" "reader_at r f" "Open srt r (int (length f)) = Inr s"
  shows "source_ok f s"
  by (rule Open_source_ok) fact+

theorem Open_describes_file_witness: "source_ok demo_file demo_movie"
  by (rule Open_describes_file [OF stable.cue_sorter_axioms demo_file_reader demo_Open])

text \<open>C18: The clusters collected for a clip are elements of the source, in file order without
  overlap, from the key cluster on; there is at least one, each is what \<open>readCluster\<close>
  decodes at its offset, and every one behind the first starts before the clip's end.\<close>

theorem collectClusters_consecutive:
  assumes "collectClusters s r off endT = Inr cs"
  shows "cs \<noteq> [] \<and> sorted_wrt (\<lambda>c c'. c_end c \<le> c_off c') cs
    \<and> list_all (\<lambda>c. off \<le> c_off c \<and> c_off c < s_segend s
        \<and> c_off c < c_blocksOff c \<and> c_blocksOff c \<le> c_end c
        \<and> readCluster r (c_off c) = Inr (Some c)) cs
    \<and> list_all (\<lambda>c. c_timestamp c < endT) (tl cs)"
proof -
  note c = collectClusters_Inr [OF assms]
  have "off \<le> c_off x \<and> c_off x < s_segend s \<and> c_off x < c_blocksOff x
    \<and> c_blocksOff x \<le> c_end x \<and> readCluster r (c_off x) = Inr (Some x)" if "x \<in> set cs" for x
  proof -
    have rd: "readCluster r (c_off x) = Inr (Some x)" "c_off x < s_segend s"
      using c(2) that by (auto simp: list_all_iff cluster_read_def)
    from readCluster_bounds(2,3) [OF rd(1)] rd c(3) that show ?thesis by blast
  qed
  with c(1,4,5) show ?thesis unfolding list_all_iff by blast
qed

theorem collectClusters_consecutive_witness:
  "list_all (\<lambda>c. c_timestamp c < 2000) (tl demo_clusters) \<and> length demo_clusters = 2"
  using collectClusters_consecutive [OF demo_collect] by (simp add: demo_clusters_def)

end
