(* ===== verification/MkvClip.thy ===== *)
theory MkvClip
  imports MkvSource
begin

text \<open>
  The clip that \<open>assemble\<close> and \<open>BuildClip\<close> of \<^verbatim>\<open>internal/mkv/mkv.go\<close> lay out: the parts
  are valid for the source file, the bytes they serve are a Matroska file whose sizes and
  positions are right, and the program's own readers find in it what was written.
\<close>

section \<open>IDs and element sizes\<close>

lemma valid_ids [simp]:
  "valid_id IDSegment" "valid_id IDSeekHead" "valid_id IDSeek" "valid_id IDSeekID"
  "valid_id IDSeekPosition" "valid_id IDInfo" "valid_id IDDuration" "valid_id IDTitle"
  "valid_id IDTracks" "valid_id IDCues" "valid_id IDCuePoint" "valid_id IDCueTime"
  "valid_id IDCueTrackPositions" "valid_id IDCueTrack" "valid_id IDCueClusterPosition"
  "valid_id IDCluster" "valid_id IDTimestamp" "valid_id IDAttachments"
  by code_simp+

lemma length_AppendElement_cong:
  "length p = length q \<Longrightarrow> length (AppendElement d i p) = length (AppendElement d i q)"
  by (simp add: length_AppendElement)

text \<open>A short payload always fits, and a child is at most 12 bytes longer than its payload.\<close>

lemma element_fits_short: "valid_id i \<Longrightarrow> length p \<le> 1000 \<Longrightarrow> element_fits i p"
  by (simp add: element_fits_def)

lemma length_AppendElement_short:
  "length p \<le> 1000 \<Longrightarrow> length (AppendElement [] i p) \<le> length p + 12"
  by (intro length_AppendElement_le) simp

section \<open>The SeekHead\<close>

lemma seekEntry_eq:
  "seekEntry i pos = AppendElement [] IDSeek
     (AppendElement [] IDSeekID (AppendID [] i)
      @ AppendElement [] IDSeekPosition (be_bytes 8 (word_of_int pos :: u64)))"
  by (simp add: seekEntry_def AppendUintWidth_eq Let_def)

definition seek_payload :: "u32 \<Rightarrow> int \<Rightarrow> byte list" where
  "seek_payload i pos =
     AppendElement [] IDSeekID (AppendID [] i)
      @ AppendElement [] IDSeekPosition (be_bytes 8 (word_of_int pos :: u64))"

lemma length_seek_payload: "length (seek_payload i pos) \<le> 36"
  using length_AppendElement_short [of "AppendID [] i" IDSeekID] AppendID_length [of i]
    length_AppendElement_short [of "be_bytes 8 (word_of_int pos :: u64)" IDSeekPosition]
  by (simp add: seek_payload_def)

lemma length_seek_payload_cong: "length (seek_payload i pos) = length (seek_payload i pos')"
  unfolding seek_payload_def
  using length_AppendElement_cong [of "be_bytes 8 (word_of_int pos :: u64)" "be_bytes 8 (word_of_int pos' :: u64)"]
  by simp

definition seek_ids :: "int \<Rightarrow> int \<Rightarrow> int \<Rightarrow> int \<Rightarrow> (u32 \<times> int) list" where
  "seek_ids infoPos tracksPos cuesPos attPos =
     [(IDInfo, infoPos), (IDTracks, tracksPos)]
      @ (if 0 \<le> attPos then [(IDAttachments, attPos)] else []) @ [(IDCues, cuesPos)]"

definition seekHead_payload :: "int \<Rightarrow> int \<Rightarrow> int \<Rightarrow> int \<Rightarrow> byte list" where
  "seekHead_payload infoPos tracksPos cuesPos attPos =
     concat (map (\<lambda>(i, p). AppendElement [] i p)
       (map (\<lambda>(i, pos). (IDSeek, seek_payload i pos)) (seek_ids infoPos tracksPos cuesPos attPos)))"

lemma seekHead_eq:
  "seekHead a b c d = AppendElement [] IDSeekHead (seekHead_payload a b c d)"
  by (simp add: seekHead_def seekHead_payload_def seek_ids_def seekEntry_eq seek_payload_def Let_def)

lemma length_seekHead_payload: "length (seekHead_payload a b c d) \<le> 192"
proof -
  have "length (AppendElement [] IDSeek (seek_payload i pos)) \<le> 48" for i pos
    using length_AppendElement_short [of "seek_payload i pos" IDSeek] length_seek_payload [of i pos]
    by simp
  from this [of IDInfo a] this [of IDTracks b] this [of IDAttachments d] this [of IDCues c]
  show ?thesis by (simp add: seekHead_payload_def seek_ids_def)
qed

text \<open>The length depends only on whether there are attachments, which is why the code may
  measure it with zero positions.\<close>

lemma length_seekHead_cong:
  assumes "0 \<le> d \<longleftrightarrow> 0 \<le> d'"
  shows "length (seekHead a b c d) = length (seekHead a' b' c' d')"
proof -
  have e: "length (AppendElement [] IDSeek (seek_payload i pos))
      = length (AppendElement [] IDSeek (seek_payload i pos'))" for i pos pos'
    by (rule length_AppendElement_cong) (rule length_seek_payload_cong)
  show ?thesis
    unfolding seekHead_eq
    by (rule length_AppendElement_cong)
      (simp add: seekHead_payload_def seek_ids_def assms e [of IDInfo a a'] e [of IDTracks b b']
        e [of IDAttachments d d'] e [of IDCues c c'])
qed

lemma uint0_be_bytes_8 [simp]: "uint0 (be_bytes 8 v) = v"
  by (simp add: uint0_def)

lemma uint0_AppendUint [simp]: "uint0 (be_bytes (UintLenFrom v 1) v) = v"
  by (simp add: uint0_def Uint_AppendUint [unfolded One_nat_def])

lemma uint0_AppendID: "ucast (uint0 (AppendID [] i)) = i"
proof -
  obtain k where k: "AppendID [] i = be_bytes k i" "k \<le> 4" "unat i < 256 ^ k"
    using AppendID_be_bytes [of i] AppendID_length [of i] unat_lt_AppendID [of i]
    by (metis length_be_bytes)
  have "unat i < 2 ^ LENGTH(32)" by (rule unsigned_less)
  then have "unat (foldl shift_in (0 :: u64) (be_bytes k i)) = unat i"
    using k(3) unat_foldl_shift_in [where v = "0 :: u64" and bs = "be_bytes k i"] by simp
  moreover have "uint0 (AppendID [] i) = foldl shift_in 0 (be_bytes k i)"
    using k(1,2) by (simp add: uint0_def Uint_def)
  ultimately have "unat (uint0 (AppendID [] i)) = unat i" by simp
  with \<open>unat i < 2 ^ LENGTH(32)\<close> show ?thesis
    by (simp add: word_unat_eq_iff unsigned_ucast_eq take_bit_eq_mod)
qed

lemma seek_entry_payload:
  assumes "Children (seek_payload i pos) = Inr kids"
  shows "seek_entry kids = (i, word_of_int pos, True)"
proof -
  let ?es = "[(IDSeekID, AppendID [] i), (IDSeekPosition, be_bytes 8 (word_of_int pos :: u64))]"
  have fits: "element_fits j p" if "(j, p) \<in> set ?es" for j p
    using that AppendID_length [of i] by (auto intro: element_fits_short)
  from Children_written [of ?es, OF fits] assms
  have "map (\<lambda>e. (e_id e, e_data e)) kids = ?es" by (simp add: seek_payload_def)
  then show ?thesis by (auto simp: seek_entry_def uint0_AppendID map_eq_Cons_conv)
qed

lemma seek_scan_found:
  assumes "map (\<lambda>e. (e_id e, e_data e)) seeks = map (\<lambda>(i, pos). (IDSeek, seek_payload i pos)) es"
    and "\<And>i pos. (i, pos) \<in> set es \<Longrightarrow> 0 \<le> pos \<and> pos < 2 ^ 56"
  shows "seek_scan want seeks = map_of es want"
  using assms
proof (induction es arbitrary: seeks)
  case (Cons e es)
  obtain i pos where e: "e = (i, pos)" by fastforce
  with Cons.prems(1) obtain k ks where seeks: "seeks = k # ks" "e_id k = IDSeek"
      "e_data k = seek_payload i pos"
      "map (\<lambda>e. (e_id e, e_data e)) ks = map (\<lambda>(i, pos). (IDSeek, seek_payload i pos)) es"
    by (auto simp: map_eq_Cons_conv)
  let ?es = "[(IDSeekID, AppendID [] i), (IDSeekPosition, be_bytes 8 (word_of_int pos :: u64))]"
  have fits: "element_fits j p" if "(j, p) \<in> set ?es" for j p
    using that AppendID_length [of i] by (auto intro: element_fits_short)
  obtain kids where kids: "Children (seek_payload i pos) = Inr kids"
    using Children_written [of ?es, OF fits] by (auto simp: seek_payload_def)
  have pos: "0 \<le> pos" "pos < 2 ^ 56" using Cons.prems(2) e by auto
  then have u: "uint (word_of_int pos :: u64) = pos"
    by (simp add: unsigned_of_int take_bit_int_eq_self)
  then have lt: "(word_of_int pos :: u64) < 0x3FFFFFFFFFFFFFFF"
    using pos(2) by (simp add: word_less_def)
  have "seek_scan want ks = map_of es want"
    by (rule Cons.IH [OF seeks(4)]) (use Cons.prems(2) in auto)
  then show ?case
    using seeks kids seek_entry_payload [OF kids] u lt e by simp
qed simp

lemma seekPosition_seekHead:
  assumes "0 \<le> a" "a < 2 ^ 56" "0 \<le> b" "b < 2 ^ 56" "0 \<le> c" "c < 2 ^ 56" "d < 2 ^ 56"
  shows "seekPosition (seekHead_payload a b c d) want = map_of (seek_ids a b c d) want"
proof -
  let ?es = "map (\<lambda>(i, pos). (IDSeek, seek_payload i pos)) (seek_ids a b c d)"
  have fits: "element_fits j p" if "(j, p) \<in> set ?es" for j p
    using that length_seek_payload by (fastforce intro!: element_fits_short order_trans [OF length_seek_payload])
  obtain seeks where s: "Children (seekHead_payload a b c d) = Inr seeks"
      "map (\<lambda>e. (e_id e, e_data e)) seeks = ?es"
    using Children_written [of ?es, OF fits] by (auto simp: seekHead_payload_def)
  have "seek_scan want seeks = map_of (seek_ids a b c d) want"
    by (rule seek_scan_found [OF s(2)]) (use assms in \<open>auto simp: seek_ids_def split: if_splits\<close>)
  with s(1) show ?thesis by (simp add: seekPosition_def)
qed

section \<open>The cues\<close>

definition cue_position_payload :: "u64 \<Rightarrow> int \<Rightarrow> byte list" where
  "cue_position_payload video newOffset =
     AppendElement [] IDCueTrack (be_bytes (UintLenFrom video 1) video)
      @ AppendElement [] IDCueClusterPosition (be_bytes 8 (word_of_int newOffset :: u64))"

lemma cuePoint_eq:
  "cuePoint s time newOffset =
     AppendElement [] IDCueTime (be_bytes (UintLenFrom time 1) time)
      @ AppendElement [] IDCueTrackPositions (cue_position_payload (s_video s) newOffset)"
  by (simp add: cuePoint_def cue_position_payload_def AppendUint_eq AppendUintWidth_eq Let_def
      AppendElement_append [of "AppendElement _ _ _"])

lemma length_cue_position_payload: "length (cue_position_payload v n) \<le> 40"
  using length_AppendElement_short [of "be_bytes (UintLenFrom v 1) v" IDCueTrack]
    length_AppendElement_short [of "be_bytes 8 (word_of_int n :: u64)" IDCueClusterPosition]
    UintLen_spec(2) [of v]
  by (simp add: cue_position_payload_def)

lemma length_cuePoint: "length (cuePoint s t n) \<le> 72"
  using length_AppendElement_short [of "be_bytes (UintLenFrom t 1) t" IDCueTime]
    length_AppendElement_short [of "cue_position_payload (s_video s) n" IDCueTrackPositions]
    length_cue_position_payload [of "s_video s" n] UintLen_spec(2) [of t]
  by (simp add: cuePoint_eq)

lemma length_cuePoint_cong: "length (cuePoint s t n) = length (cuePoint s t n')"
proof -
  have "length (cue_position_payload v n) = length (cue_position_payload v n')" for v
    unfolding cue_position_payload_def
    using length_AppendElement_cong [of "be_bytes 8 (word_of_int n :: u64)" "be_bytes 8 (word_of_int n' :: u64)"]
    by simp
  from length_AppendElement_cong [OF this] show ?thesis by (simp add: cuePoint_eq)
qed

definition cues_payload :: "source \<Rightarrow> (u64 \<times> nat) list \<Rightarrow> int list \<Rightarrow> byte list" where
  "cues_payload s cues offs =
     concat (map (\<lambda>(i, p). AppendElement [] i p)
       (map (\<lambda>(time, i). (IDCuePoint, cuePoint s time (offs ! i))) cues))"

lemma cuesElement_eq: "cuesElement s cues offs = AppendElement [] IDCues (cues_payload s cues offs)"
proof -
  have "foldl (\<lambda>pts (time, i). AppendElement pts IDCuePoint (cuePoint s time (offs ! i))) d cues
      = d @ cues_payload s cues offs" for d
    unfolding cues_payload_def
  proof (induction cues arbitrary: d)
    case (Cons c cs)
    then show ?case
      using AppendElement_append [of d IDCuePoint "cuePoint s (fst c) (offs ! snd c)"]
      by (cases c) simp
  qed simp
  then show ?thesis by (simp add: cuesElement_def)
qed

lemma length_cuesElement_cong: "length (cuesElement s cues offs) = length (cuesElement s cues offs')"
proof -
  have e: "length (AppendElement [] IDCuePoint (cuePoint s t n))
      = length (AppendElement [] IDCuePoint (cuePoint s t n'))" for t n n'
    by (rule length_AppendElement_cong) (rule length_cuePoint_cong)
  have "length (cues_payload s cues offs) = length (cues_payload s cues offs')"
    unfolding cues_payload_def
  proof (induction cues)
    case (Cons c cs)
    then show ?case using e [of "fst c" "offs ! snd c" "offs' ! snd c"] by (cases c) simp
  qed simp
  then show ?thesis unfolding cuesElement_eq by (rule length_AppendElement_cong)
qed

lemma cuePoint_parse:
  obtains kids pos where "Children (cuePoint s t n) = Inr kids" "cue_time kids = t"
    "cue_positions s' t kids cues = (
       if s_video s = s_video s' \<and> word_of_int n < (word_of_int (s_size s') :: u64)
       then Inr (cues @ [\<lparr>cp_time = t, cp_off = s_segdata s' + uint (word_of_int n :: u64)\<rparr>])
       else Inr cues)"
proof -
  let ?es = "[(IDCueTime, be_bytes (UintLenFrom t 1) t),
    (IDCueTrackPositions, cue_position_payload (s_video s) n)]"
  let ?ps = "[(IDCueTrack, be_bytes (UintLenFrom (s_video s) 1) (s_video s)),
    (IDCueClusterPosition, be_bytes 8 (word_of_int n :: u64))]"
  have "element_fits j p" if "(j, p) \<in> set ?es" for j p
    using that length_cue_position_payload UintLen_spec(2) [of t]
    by (auto intro!: element_fits_short order_trans [OF length_cue_position_payload])
  from Children_written [of ?es, OF this] obtain kids where kids: "Children (cuePoint s t n) = Inr kids"
    "map (\<lambda>e. (e_id e, e_data e)) kids = ?es"
    by (auto simp: cuePoint_eq)
  have "element_fits j p" if "(j, p) \<in> set ?ps" for j p
    using that UintLen_spec(2) [of "s_video s"] by (auto intro!: element_fits_short)
  from Children_written [of ?ps, OF this] obtain pos where
    pos: "Children (cue_position_payload (s_video s) n) = Inr pos"
      "map (\<lambda>e. (e_id e, e_data e)) pos = ?ps"
    by (auto simp: cue_position_payload_def)
  have p: "cue_position pos = (s_video s, word_of_int n, True)"
    using pos(2) uint0_AppendUint [unfolded One_nat_def]
    by (auto simp: cue_position_def map_eq_Cons_conv)
  have "cue_time kids = t"
    using kids(2) uint0_AppendUint [unfolded One_nat_def]
    by (auto simp: cue_time_def map_eq_Cons_conv)
  moreover obtain k1 k2 where "kids = [k1, k2]" "e_id k1 = IDCueTime" "e_id k2 = IDCueTrackPositions"
    "e_data k2 = cue_position_payload (s_video s) n"
    using kids(2) by (auto simp: map_eq_Cons_conv)
  ultimately show ?thesis
    using pos(1) p by (intro that [OF kids(1)]) auto
qed

lemma cue_points_written:
  assumes "map (\<lambda>e. (e_id e, e_data e)) points
      = map (\<lambda>(time, i). (IDCuePoint, cuePoint s time (offs ! i))) cues"
    and "s_video s' = s_video s" "s_size s' < 2 ^ 63"
    and "\<And>t i. (t, i) \<in> set cues \<Longrightarrow> 0 \<le> offs ! i \<and> offs ! i < s_size s'"
  shows "cue_points s' points acc =
    Inr (acc @ map (\<lambda>(time, i). \<lparr>cp_time = time, cp_off = s_segdata s' + offs ! i\<rparr>) cues)"
  using assms(1,4)
proof (induction cues arbitrary: points acc)
  case (Cons c cs)
  obtain t i where c: "c = (t, i)" by fastforce
  obtain p ps where points: "points = p # ps" "e_id p = IDCuePoint"
      "e_data p = cuePoint s t (offs ! i)"
      "map (\<lambda>e. (e_id e, e_data e)) ps
        = map (\<lambda>(time, i). (IDCuePoint, cuePoint s time (offs ! i))) cs"
    using Cons.prems(1) c by (auto simp: map_eq_Cons_conv)
  let ?o = "offs ! i" and ?n = "s_size s'"
  have r: "0 \<le> ?o" "?o < ?n" using Cons.prems(2) c by auto
  have u: "uint (word_of_int k :: u64) = k" if "0 \<le> k" "k < 2 ^ 63" for k
    using that by (simp add: unsigned_of_int take_bit_int_eq_self)
  have lt: "(word_of_int ?o :: u64) < word_of_int ?n"
    using r assms(3) by (simp add: word_less_def u)
  obtain kids where k: "Children (cuePoint s t ?o) = Inr kids" "cue_time kids = t"
    "cue_positions s' t kids acc = Inr (acc @ [\<lparr>cp_time = t, cp_off = s_segdata s' + ?o\<rparr>])"
    using cuePoint_parse [of s t ?o s' acc] lt r assms(2,3) by (auto simp: u)
  have "cue_points s' ps acc' =
      Inr (acc' @ map (\<lambda>(time, i). \<lparr>cp_time = time, cp_off = s_segdata s' + offs ! i\<rparr>) cs)" for acc'
    by (rule Cons.IH [OF points(4)]) (use Cons.prems(2) in auto)
  with points k c show ?case by simp
qed simp

section \<open>Positions of the clusters\<close>

lemma layClusters_eq:
  "layClusters hs pos =
     (map (\<lambda>k. pos + sum_list (map (\<lambda>(h, body). int (length h) + partsLen body) (take k hs)))
       [0..<length hs],
      pos + sum_list (map (\<lambda>(h, body). int (length h) + partsLen body) hs))"
proof (induction hs arbitrary: pos)
  case (Cons hb hs)
  obtain h body where hb: "hb = (h, body)" by fastforce
  show ?case
    by (simp add: hb Cons map_upt_Suc add.assoc del: upt_Suc)
qed simp

lemma partsLen_eq: "partsLen ps = parts_len ps"
proof -
  have "foldl (\<lambda>n p. n + p_len p) k ps = k + parts_len ps" for k
    by (induction ps arbitrary: k) simp_all
  then show ?thesis by (simp add: partsLen_def)
qed

section \<open>The assembled file\<close>

text \<open>Parts that may be appended: valid ones and empty ones.\<close>

definition appendable :: "int \<Rightarrow> part \<Rightarrow> bool" where
  "appendable n p \<longleftrightarrow> append_ok p \<and> (p_len p = 0 \<or> part_ok n p)"

lemma good_appendable: "part_good n p \<Longrightarrow> appendable n p"
  by (auto simp: appendable_def part_good_def intro: part_ok_append_ok)

lemma Literal_appendable [simp]: "appendable n (Literal b)"
  by (simp add: appendable_def append_ok_def part_ok_def Literal_def)

lemma part_bytes_Literal [simp]: "part_bytes f (Literal b) = b"
  by (simp add: part_bytes_def Literal_def)

lemma Append_appendable:
  assumes "list_all (part_good n) ps" "appendable n p"
  shows "list_all (part_good n) (Append ps p)
    \<and> parts_content f (Append ps p) = parts_content f ps @ part_bytes f p"
  using Append_good [of n ps p] Append_content(1) [OF good_append_ok [OF assms(1)], of p f] assms
  by (simp add: appendable_def)

lemma foldl_Append:
  assumes "list_all (part_good n) ps" "list_all (appendable n) qs"
  shows "list_all (part_good n) (foldl Append ps qs)
    \<and> parts_content f (foldl Append ps qs) = parts_content f ps @ parts_content f qs"
  using assms
proof (induction qs arbitrary: ps)
  case (Cons q qs)
  then show ?case
    using Append_appendable [of n ps q f] Cons.IH [of "Append ps q"] by simp
qed simp

text \<open>The abstract clip: what the new file consists of.\<close>

definition attach_bytes :: "byte list \<Rightarrow> source \<Rightarrow> byte list" where
  "attach_bytes f s = (case s_attach s of None \<Rightarrow> [] | Some (off, n) \<Rightarrow> part_bytes f (Range off n))"

definition cluster_bytes :: "byte list \<Rightarrow> i64 \<Rightarrow> cluster \<Rightarrow> byte list" where
  "cluster_bytes f origin c = newHeader origin c @ parts_content f (c_body c)"

definition clip_at :: "source \<Rightarrow> cluster list \<Rightarrow> i64 \<Rightarrow> u64 \<Rightarrow> byte list \<Rightarrow> positions" where
  "clip_at s clusters origin endT title =
     layOut s (infoElement s endT origin title) (tracksElement s) (clipCues s clusters origin endT)
       (map (\<lambda>c. c\<lparr>c_newHeader := newHeader origin c\<rparr>) clusters)"

definition clip_payload ::
  "byte list \<Rightarrow> source \<Rightarrow> cluster list \<Rightarrow> i64 \<Rightarrow> u64 \<Rightarrow> byte list \<Rightarrow> byte list" where
  "clip_payload f s clusters origin endT title =
     (let pos = clip_at s clusters origin endT title in
      seekHead (pos_info pos) (pos_tracks pos) (pos_cues pos) (pos_att pos)
      @ infoElement s endT origin title @ tracksElement s @ attach_bytes f s
      @ cuesElement s (clipCues s clusters origin endT) (pos_clusters pos)
      @ concat (map (cluster_bytes f origin) clusters))"

lemma clipCues_header [simp]:
  "clipCues s (map (\<lambda>c. c\<lparr>c_newHeader := h c\<rparr>) clusters) origin endT = clipCues s clusters origin endT"
proof -
  let ?cs = "map (\<lambda>c. c\<lparr>c_newHeader := h c\<rparr>) clusters"
  have "map (\<lambda>i. (c_off (?cs ! i), i)) [0..<length ?cs]
      = map (\<lambda>i. (c_off (clusters ! i), i)) [0..<length clusters]"
    by (rule map_cong) auto
  then have "byOff ?cs = byOff clusters" by (simp only: byOff_def)
  then show ?thesis by (simp add: clipCues_def)
qed

definition clusters_ok :: "int \<Rightarrow> cluster list \<Rightarrow> bool" where
  "clusters_ok n cs \<longleftrightarrow> list_all (\<lambda>c. list_all (appendable n) (c_body c)) cs"

definition attach_ok :: "int \<Rightarrow> source \<Rightarrow> bool" where
  "attach_ok n s \<longleftrightarrow> (case s_attach s of None \<Rightarrow> True | Some (off, k) \<Rightarrow> part_good n (Range off k))"

lemma foldl_clusters:
  fixes origin :: i64
  assumes "clusters_ok (int (length f)) cs" "list_all (part_good (int (length f))) ps"
  defines "out \<equiv> foldl (\<lambda>parts c. foldl Append (Append parts (Literal (c_newHeader c))) (c_body c)) ps
      (map (\<lambda>c. c\<lparr>c_newHeader := newHeader origin c\<rparr>) cs)"
  shows "list_all (part_good (int (length f))) out
    \<and> parts_content f out = parts_content f ps @ concat (map (cluster_bytes f origin) cs)"
  using assms(1,2) unfolding out_def
proof (induction cs arbitrary: ps)
  case (Cons c cs)
  let ?q = "Append ps (Literal (newHeader origin c))"
  have body: "list_all (appendable (int (length f))) (c_body c)"
    using Cons.prems(1) by (simp add: clusters_ok_def)
  note q = Append_appendable [OF Cons.prems(2) Literal_appendable [of _ "newHeader origin c"], of f]
  note r = foldl_Append [OF conjunct1 [OF q] body, of f]
  show ?case
    using Cons.IH [of "foldl Append ?q (c_body c)"] Cons.prems(1) q r
    by (simp add: clusters_ok_def cluster_bytes_def)
qed simp

lemma Literal_good: "b \<noteq> [] \<Longrightarrow> part_good n (Literal b)"
  by (simp add: part_good_def part_ok_def Literal_def)

lemma assemble_content:
  assumes "clusters_ok (int (length f)) clusters" "attach_ok (int (length f)) s"
  shows "list_all (part_good (int (length f))) (assemble s clusters origin endT title)"
    and "parts_content f (assemble s clusters origin endT title) =
      s_ebml s @ AppendSizeWidth (AppendID [] IDSegment)
        (pos_end (clip_at s clusters origin endT title)) 8
      @ clip_payload f s clusters origin endT title"
proof -
  let ?n = "int (length f)" and ?at = "clip_at s clusters origin endT title"
  let ?head = "s_ebml s @ AppendSizeWidth (AppendID [] IDSegment) (pos_end ?at) 8
    @ seekHead (pos_info ?at) (pos_tracks ?at) (pos_cues ?at) (pos_att ?at)
    @ infoElement s endT origin title @ tracksElement s"
  let ?cues = "cuesElement s (clipCues s clusters origin endT) (pos_clusters ?at)"
  let ?p0 = "[Literal ?head]"
  let ?p1 = "case s_attach s of Some (off, n) \<Rightarrow> Append ?p0 (Range off n) | None \<Rightarrow> ?p0"
  let ?p2 = "Append ?p1 (Literal ?cues)"
  have asm: "assemble s clusters origin endT title =
    foldl (\<lambda>parts c. foldl Append (Append parts (Literal (c_newHeader c))) (c_body c)) ?p2
      (map (\<lambda>c. c\<lparr>c_newHeader := newHeader origin c\<rparr>) clusters)"
    unfolding assemble_def Let_def clip_at_def clipCues_header
    by (simp only: AppendID_append [of "s_ebml s"] AppendSizeWidth_append [of "s_ebml s @ _"]
        AppendSizeWidth_append [of "AppendID [] IDSegment"] append_assoc)
  have "?head \<noteq> []" using AppendID_length [of IDSegment] by (auto simp: AppendSizeWidth_def)
  then have p0: "list_all (part_good ?n) ?p0" by (simp add: Literal_good)
  have p1: "list_all (part_good ?n) ?p1 \<and> parts_content f ?p1 = ?head @ attach_bytes f s"
  proof (cases "s_attach s")
    case None
    with p0 show ?thesis by (simp add: attach_bytes_def)
  next
    case (Some a)
    then obtain off k where a: "s_attach s = Some (off, k)" by (cases a) auto
    then have "part_good ?n (Range off k)" using assms(2) by (simp add: attach_ok_def)
    from Append_appendable [OF p0 good_appendable [OF this], of f] show ?thesis
      by (simp add: a attach_bytes_def)
  qed
  note p2 = Append_appendable [OF conjunct1 [OF p1] Literal_appendable [of _ ?cues], of f]
  note fc = foldl_clusters [OF assms(1) conjunct1 [OF p2], of origin]
  show "list_all (part_good ?n) (assemble s clusters origin endT title)"
    unfolding asm using fc by blast
  show "parts_content f (assemble s clusters origin endT title) =
      s_ebml s @ AppendSizeWidth (AppendID [] IDSegment) (pos_end ?at) 8
      @ clip_payload f s clusters origin endT title"
    unfolding asm conjunct2 [OF fc] conjunct2 [OF p2] conjunct2 [OF p1]
    by (simp add: clip_payload_def Let_def)
qed

section \<open>Positions\<close>

lemma appendable_length:
  "appendable (int (length f)) p \<Longrightarrow> int (length (part_bytes f p)) = p_len p"
  by (auto simp: appendable_def append_ok_def part_ok_def part_bytes_def split: option.splits)

lemma appendable_parts_len:
  "list_all (appendable (int (length f))) ps \<Longrightarrow> partsLen ps = int (length (parts_content f ps))"
  unfolding partsLen_eq by (induction ps) (auto simp: appendable_length)

definition clusters_before :: "byte list \<Rightarrow> i64 \<Rightarrow> cluster list \<Rightarrow> nat \<Rightarrow> int" where
  "clusters_before f origin cs k = int (length (concat (map (cluster_bytes f origin) (take k cs))))"

lemma cluster_sizes:
  assumes "clusters_ok (int (length f)) cs"
  shows "sum_list (map (\<lambda>(h, body). int (length h) + partsLen body)
      (take k (map (\<lambda>c. (newHeader origin c, c_body c)) cs))) = clusters_before f origin cs k"
  using assms
proof (induction cs arbitrary: k)
  case (Cons c cs)
  then show ?case
    by (cases k)
      (simp_all add: clusters_ok_def clusters_before_def cluster_bytes_def appendable_parts_len)
qed (simp add: clusters_before_def)

lemma attach_length:
  assumes "attach_ok (int (length f)) s" "s_attach s = Some (off, n)"
  shows "int (length (attach_bytes f s)) = n"
proof -
  have "part_ok (int (length f)) (Range off n)" using assms by (simp add: attach_ok_def part_good_def)
  from length_part_bytes [OF this] show ?thesis by (simp add: attach_bytes_def assms(2) Range_def)
qed

lemma seekHead_sections:
  fixes s clusters origin endT title f
  defines "P \<equiv> clip_at s clusters origin endT title"
    and "I \<equiv> infoElement s endT origin title" and "T \<equiv> tracksElement s"
    and "K \<equiv> clipCues s clusters origin endT"
  assumes "clusters_ok (int (length f)) clusters" "attach_ok (int (length f)) s"
  shows "pos_info P = int (length (seekHead (pos_info P) (pos_tracks P) (pos_cues P) (pos_att P)))"
    "pos_tracks P = pos_info P + int (length I)"
    "pos_att P = (if s_attach s = None then -1 else pos_tracks P + int (length T))"
    "pos_cues P = pos_tracks P + int (length T) + int (length (attach_bytes f s))"
    "length (pos_clusters P) = length clusters"
    "k < length clusters \<Longrightarrow> pos_clusters P ! k =
      pos_cues P + int (length (cuesElement s K (pos_clusters P))) + clusters_before f origin clusters k"
    "pos_end P = int (length (clip_payload f s clusters origin endT title))"
proof -
  let ?cs = "map (\<lambda>c. c\<lparr>c_newHeader := newHeader origin c\<rparr>) clusters"
  let ?hs = "map (\<lambda>c. (newHeader origin c, c_body c)) clusters"
  let ?a0 = "if s_attach s \<noteq> None then 0 else -1 :: int"
  let ?i0 = "int (length (seekHead 0 0 0 ?a0))"
  let ?c0 = "?i0 + int (length I) + int (length T)"
  have hs: "map (\<lambda>c. (c_newHeader c, c_body c)) ?cs = ?hs" by simp
  have P: "pos_info P = ?i0" "pos_tracks P = ?i0 + int (length I)"
    "pos_att P = (if s_attach s = None then -1 else ?c0)"
    "pos_cues P = ?c0 + (case s_attach s of None \<Rightarrow> 0 | Some (_, n) \<Rightarrow> n)"
    and L: "(pos_clusters P, pos_end P) = layClusters ?hs
      (pos_cues P + int (length (cuesElement s K (replicate (length clusters) 0))))"
    unfolding P_def I_def T_def K_def clip_at_def layOut_def Let_def hs
    by (auto split: option.splits prod.splits)
  show "pos_tracks P = pos_info P + int (length I)" by (simp only: P)
  show "pos_att P = (if s_attach s = None then -1 else pos_tracks P + int (length T))"
    by (simp only: P)
  have att: "(case s_attach s of None \<Rightarrow> 0 | Some (_, n) \<Rightarrow> n) = int (length (attach_bytes f s))"
  proof (cases "s_attach s")
    case (Some a)
    then show ?thesis using attach_length [OF assms(6)] by (cases a) simp
  qed (simp add: attach_bytes_def)
  show cu: "pos_cues P = pos_tracks P + int (length T) + int (length (attach_bytes f s))"
    using P(2,4) att by simp
  have "0 \<le> ?a0 \<longleftrightarrow> 0 \<le> pos_att P" by (auto simp: P)
  from length_seekHead_cong [OF this]
  show sh: "pos_info P = int (length (seekHead (pos_info P) (pos_tracks P) (pos_cues P) (pos_att P)))"
    unfolding P(1) by simp
  have L': "pos_clusters P = map (\<lambda>k. pos_cues P + int (length (cuesElement s K (pos_clusters P)))
      + clusters_before f origin clusters k) [0..<length clusters]"
    "pos_end P = pos_cues P + int (length (cuesElement s K (pos_clusters P)))
      + clusters_before f origin clusters (length clusters)"
  proof -
    have len: "length (cuesElement s K (replicate (length clusters) 0))
        = length (cuesElement s K (pos_clusters P))"
      by (rule length_cuesElement_cong)
    note cs = cluster_sizes [OF assms(5), of _ origin]
    have all: "sum_list (map (\<lambda>(h, body). int (length h) + partsLen body) ?hs)
        = clusters_before f origin clusters (length clusters)"
      using cs [of "length clusters"] by simp
    show "pos_clusters P = map (\<lambda>k. pos_cues P + int (length (cuesElement s K (pos_clusters P)))
      + clusters_before f origin clusters k) [0..<length clusters]"
      using L unfolding layClusters_eq len cs by simp
    show "pos_end P = pos_cues P + int (length (cuesElement s K (pos_clusters P)))
      + clusters_before f origin clusters (length clusters)"
      using L unfolding layClusters_eq len all by simp
  qed
  show "length (pos_clusters P) = length clusters"
    using arg_cong [OF L'(1), of length] by simp
  show "k < length clusters \<Longrightarrow> pos_clusters P ! k =
      pos_cues P + int (length (cuesElement s K (pos_clusters P))) + clusters_before f origin clusters k"
    using arg_cong [OF L'(1), of "\<lambda>xs. xs ! k"] by simp
  show "pos_end P = int (length (clip_payload f s clusters origin endT title))"
    using L'(2) cu sh P(2)
    by (simp add: clip_payload_def Let_def clusters_before_def flip: P_def I_def T_def K_def)
      (simp add: P)
qed

section \<open>Elements at their positions\<close>

lemma payload_at_header:
  assumes "0 \<le> off" "drop (nat off) f = AppendSizeWidth (AppendID [] i) (int (length b)) w @ b @ rest"
    and "valid_id i" "fits_width w (int (length b))"
  shows "payload_at f off i b"
proof -
  let ?h = "\<lparr>h_id = i, h_size = int (length b), h_len = length (AppendID [] i) + w\<rparr>"
  have "ParseHeader (drop (nat off) f) = Inr ?h"
    unfolding assms(2) by (rule ParseHeader_written) fact+
  moreover have "drop (nat off + h_len ?h) f = b @ rest"
    using arg_cong [OF assms(2), of "drop (h_len ?h)"] by (simp add: add.commute)
  ultimately show ?thesis
    unfolding payload_at_def using assms(1) by (intro exI [of _ ?h]) simp
qed

lemma payload_at_element:
  assumes "0 \<le> off" "drop (nat off) f = AppendElement [] i b @ rest" "element_fits i b"
  shows "payload_at f off i b"
proof (rule payload_at_header)
  show "drop (nat off) f =
      AppendSizeWidth (AppendID [] i) (int (length b)) (SizeWidth (int (length b))) @ b @ rest"
    using assms(2) by (simp add: AppendElement_def)
  show "fits_width (SizeWidth (int (length b))) (int (length b))"
    using assms(3) by (intro SizeWidth_spec) (simp_all add: element_fits_def)
qed (use assms in \<open>simp_all add: element_fits_def\<close>)

definition info_payload :: "source \<Rightarrow> u64 \<Rightarrow> i64 \<Rightarrow> byte list \<Rightarrow> byte list" where
  "info_payload s endT origin title =
     concat (map e_raw (filter (\<lambda>c. e_id c \<notin> droppedInfo) (s_info s)))
     @ AppendElement [] IDDuration (be_bytes 8 (f64_bits (f64_of_int (sint (endT - origin)))))
     @ AppendElement [] IDTitle title"

definition tracks_payload :: "source \<Rightarrow> byte list" where
  "tracks_payload s =
     concat (map e_raw (filter (\<lambda>c. e_id c \<noteq> IDCRC32 \<and> e_id c \<noteq> IDVoid) (s_tracks s)))"

lemma foldl_raw:
  "foldl (\<lambda>acc c. if P c then acc @ e_raw c else acc) d cs = d @ concat (map e_raw (filter P cs))"
  by (induction cs arbitrary: d) auto

lemma infoElement_eq: "infoElement s endT origin title = AppendElement [] IDInfo (info_payload s endT origin title)"
  by (simp add: infoElement_def info_payload_def foldl_raw AppendFloat_eq Let_def
      AppendElement_append [of "_ @ _"] del: f64_bits.simps)

lemma tracksElement_eq: "tracksElement s = AppendElement [] IDTracks (tracks_payload s)"
  using foldl_raw [of "\<lambda>c. e_id c \<noteq> IDCRC32 \<and> e_id c \<noteq> IDVoid" "[]" "s_tracks s"]
  by (simp add: tracksElement_def tracks_payload_def)

definition cluster_payload :: "byte list \<Rightarrow> i64 \<Rightarrow> cluster \<Rightarrow> byte list" where
  "cluster_payload f origin c =
     AppendUint [] IDTimestamp (c_timestamp c - origin) @ parts_content f (c_body c)"

lemma cluster_bytes_eq:
  assumes "list_all (appendable (int (length f))) (c_body c)"
  shows "cluster_bytes f origin c = AppendSizeWidth (AppendID [] IDCluster)
    (int (length (cluster_payload f origin c))) 8 @ cluster_payload f origin c"
  using appendable_parts_len [OF assms]
  by (simp add: cluster_bytes_def newHeader_def cluster_payload_def Let_def)

lemma length_payload_le: "length p \<le> length (AppendElement [] i p)"
  by (simp add: length_AppendElement)

lemma clip_elements:
  fixes s clusters origin endT title f
  defines "P \<equiv> clip_at s clusters origin endT title"
    and "body \<equiv> clip_payload f s clusters origin endT title"
  assumes ok: "clusters_ok (int (length f)) clusters" "attach_ok (int (length f)) s"
    and fits: "pos_end P < 2 ^ 56 - 1"
  shows "payload_at body 0 IDSeekHead
      (seekHead_payload (pos_info P) (pos_tracks P) (pos_cues P) (pos_att P))"
    "payload_at body (pos_info P) IDInfo (info_payload s endT origin title)"
    "payload_at body (pos_tracks P) IDTracks (tracks_payload s)"
    "s_attach s \<noteq> None \<Longrightarrow>
      take (length (attach_bytes f s)) (drop (nat (pos_att P)) body) = attach_bytes f s"
    "payload_at body (pos_cues P) IDCues (cues_payload s (clipCues s clusters origin endT) (pos_clusters P))"
    "k < length clusters \<Longrightarrow>
      payload_at body (pos_clusters P ! k) IDCluster (cluster_payload f origin (clusters ! k))"
proof -
  define S where "S = seekHead (pos_info P) (pos_tracks P) (pos_cues P) (pos_att P)"
  define I where "I = infoElement s endT origin title"
  define T where "T = tracksElement s"
  define A where "A = attach_bytes f s"
  define Q where "Q = cuesElement s (clipCues s clusters origin endT) (pos_clusters P)"
  define C where "C = concat (map (cluster_bytes f origin) clusters)"
  have body: "body = S @ I @ T @ A @ Q @ C"
    by (simp add: body_def clip_payload_def Let_def S_def I_def T_def A_def Q_def C_def flip: P_def)
  note sec = seekHead_sections [OF ok, where endT = endT and origin = origin and title = title, folded P_def]
  have pos: "pos_info P = int (length S)" "pos_tracks P = int (length (S @ I))"
    "pos_cues P = int (length (S @ I @ T @ A))"
    "s_attach s \<noteq> None \<Longrightarrow> pos_att P = int (length (S @ I @ T))"
    using sec(1-4) by (simp_all add: S_def I_def T_def A_def)
  have "pos_end P = int (length body)" using sec(7) by (simp add: body_def)
  with fits have len: "int (length body) < 2 ^ 56 - 1" by simp
  have short: "int (length p) < 2 ^ 56 - 1" if "length p \<le> length (AppendElement [] i p)"
    "length (AppendElement [] i p) \<le> length body" for i p
    using that len by linarith
  have d: "drop (length (S @ I)) body = T @ A @ Q @ C" "drop (length (S @ I @ T)) body = A @ Q @ C"
    "drop (length (S @ I @ T @ A)) body = Q @ C" "drop (length S) body = I @ T @ A @ Q @ C"
    by (simp_all add: body)
  show "payload_at body 0 IDSeekHead
      (seekHead_payload (pos_info P) (pos_tracks P) (pos_cues P) (pos_att P))"
    by (rule payload_at_element [where rest = "I @ T @ A @ Q @ C"])
      (use length_seekHead_payload in \<open>auto simp: body S_def seekHead_eq
        intro!: element_fits_short order_trans [OF length_seekHead_payload]\<close>)
  have le: "length I \<le> length body" "length T \<le> length body" "length Q \<le> length body"
    by (simp_all add: body)
  show "payload_at body (pos_info P) IDInfo (info_payload s endT origin title)"
  proof (rule payload_at_element [where rest = "T @ A @ Q @ C"])
    show "drop (nat (pos_info P)) body = AppendElement [] IDInfo (info_payload s endT origin title) @ T @ A @ Q @ C"
      using d(4) by (simp add: pos I_def infoElement_eq)
    show "element_fits IDInfo (info_payload s endT origin title)"
      using short [OF length_payload_le] le(1) by (simp add: element_fits_def I_def infoElement_eq)
  qed (simp add: pos)
  show "payload_at body (pos_tracks P) IDTracks (tracks_payload s)"
  proof (rule payload_at_element [where rest = "A @ Q @ C"])
    show "drop (nat (pos_tracks P)) body = AppendElement [] IDTracks (tracks_payload s) @ A @ Q @ C"
      using d(1) unfolding pos(2) nat_int by (simp add: T_def tracksElement_eq)
    show "element_fits IDTracks (tracks_payload s)"
      using short [OF length_payload_le] le(2) by (simp add: element_fits_def T_def tracksElement_eq)
  qed (simp add: pos)
  show "payload_at body (pos_cues P) IDCues (cues_payload s (clipCues s clusters origin endT) (pos_clusters P))"
  proof (rule payload_at_element [where rest = C])
    show "drop (nat (pos_cues P)) body = AppendElement [] IDCues
        (cues_payload s (clipCues s clusters origin endT) (pos_clusters P)) @ C"
      using d(3) unfolding pos(3) nat_int by (simp add: Q_def cuesElement_eq)
    show "element_fits IDCues (cues_payload s (clipCues s clusters origin endT) (pos_clusters P))"
      using short [OF length_payload_le] le(3) by (simp add: element_fits_def Q_def cuesElement_eq)
  qed (simp add: pos)
  show "take (length (attach_bytes f s)) (drop (nat (pos_att P)) body) = attach_bytes f s"
    if "s_attach s \<noteq> None"
    using d(2) unfolding pos(4) [OF that] nat_int by (simp add: A_def)
  show "payload_at body (pos_clusters P ! k) IDCluster (cluster_payload f origin (clusters ! k))"
    if k: "k < length clusters"
  proof -
    let ?pre = "concat (map (cluster_bytes f origin) (take k clusters))"
      and ?post = "concat (map (cluster_bytes f origin) (drop (Suc k) clusters))"
    have bk: "list_all (appendable (int (length f))) (c_body (clusters ! k))"
      using ok(1) k by (simp add: clusters_ok_def list_all_length)
    have "clusters = take k clusters @ clusters ! k # drop (Suc k) clusters"
      using k by (simp add: id_take_nth_drop)
    then have C: "C = ?pre @ cluster_bytes f origin (clusters ! k) @ ?post"
      unfolding C_def by (metis concat.simps(2) concat_append list.map(2) map_append)
    have at: "pos_clusters P ! k = int (length (S @ I @ T @ A @ Q @ ?pre))"
      using sec(6) [OF k] pos(3) by (simp add: Q_def clusters_before_def)
    have "body = (S @ I @ T @ A @ Q @ ?pre) @ cluster_bytes f origin (clusters ! k) @ ?post"
      by (simp add: body C)
    then have dk: "drop (length (S @ I @ T @ A @ Q @ ?pre)) body = cluster_bytes f origin (clusters ! k) @ ?post"
      by (metis append_eq_conv_conj)
    have "length (cluster_payload f origin (clusters ! k)) \<le> length body"
      by (simp add: body C cluster_bytes_eq [OF bk])
    with len have "fits_width 8 (int (length (cluster_payload f origin (clusters ! k))))"
      by (simp add: fits_width_def)
    then show ?thesis
      by (intro payload_at_header [where w = 8 and rest = ?post])
        (use dk in \<open>simp_all only: at nat_int cluster_bytes_eq [OF bk] append_assoc valid_ids of_nat_0_le_iff\<close>)
  qed
qed

section \<open>The clusters of a clip\<close>

text \<open>Collected clusters of an opened file: consecutive, inside the segment.\<close>

definition raw_clusters :: "reader \<Rightarrow> source \<Rightarrow> cluster list \<Rightarrow> bool" where
  "raw_clusters r s cs \<longleftrightarrow> cs \<noteq> [] \<and> list_all (cluster_read r s) cs
     \<and> (\<forall>c \<in> set cs. 0 \<le> c_off c) \<and> sorted_wrt (\<lambda>c c'. c_end c \<le> c_off c') cs"

lemma raw_clustersI:
  "collectClusters s r off endT = Inr cs \<Longrightarrow> 0 \<le> off \<Longrightarrow> raw_clusters r s cs"
  using collectClusters_Inr [of s r off endT cs] by (force simp: raw_clusters_def)

lemma raw_cluster:
  assumes "raw_clusters r s cs" "c \<in> set cs"
  shows "0 \<le> c_off c" "c_off c < s_segend s" "0 \<le> c_blocksOff c" "c_blocksOff c \<le> c_end c"
proof -
  have rd: "readCluster r (c_off c) = Inr (Some c)" "c_off c < s_segend s" "0 \<le> c_off c"
    using assms unfolding raw_clusters_def list_all_iff cluster_read_def by blast+
  from readCluster_bounds(2,3) [OF rd(1)] rd(2,3)
  show "0 \<le> c_off c" "c_off c < s_segend s" "0 \<le> c_blocksOff c" "c_blocksOff c \<le> c_end c"
    by linarith+
qed

text \<open>A cluster that is not the last ends inside the file, because another one starts behind
  it.\<close>

lemma raw_cluster_inside:
  assumes "raw_clusters r s cs" "c \<in> set (butlast cs)" "s_segend s \<le> n"
  shows "c_end c \<le> n"
proof -
  have cs: "cs = butlast cs @ [last cs]" using assms(1) by (simp add: raw_clusters_def)
  have "sorted_wrt (\<lambda>c c'. c_end c \<le> c_off c') (butlast cs @ [last cs])"
    using assms(1) cs by (simp add: raw_clusters_def)
  then have "c_end c \<le> c_off (last cs)" using assms(2) by (simp add: sorted_wrt_append)
  also have "c_off (last cs) < s_segend s"
    using raw_cluster(2) [OF assms(1), of "last cs"] assms(1) by (simp add: raw_clusters_def)
  finally show ?thesis using assms(3) by simp
qed

definition whole_bytes :: "byte list \<Rightarrow> cluster \<Rightarrow> byte list" where
  "whole_bytes f c = take (nat (c_end c - c_blocksOff c)) (drop (nat (c_blocksOff c)) f)"

lemma wholeCluster_ok:
  assumes "0 \<le> c_blocksOff c" "c_blocksOff c \<le> c_end c" "c_end c \<le> int (length f)"
  shows "list_all (appendable (int (length f))) (c_body (wholeCluster c))"
    "parts_content f (c_body (wholeCluster c)) = whole_bytes f c"
  using assms
  by (auto simp: wholeCluster_def appendable_def append_ok_def part_ok_def part_bytes_def
      whole_bytes_def Range_def)

lemma good_appendable_all: "list_all (part_good n) ps \<Longrightarrow> list_all (appendable n) ps"
  by (auto simp: list_all_iff good_appendable)

text \<open>What \<open>firstCluster\<close> serves: the kept blocks, unchanged where the cluster already starts
  at the keyframe and re-based otherwise.\<close>

lemma firstCluster_Inr:
  assumes "reader_at r f" "0 \<le> c_blocksOff (hd cs)" "firstCluster s r cs t endT = Inr c"
  obtains bs keep where "readBlocks r (hd cs) = Inr bs"
    "keep = (if length cs = 1 then keepUntil s (keepFrom s bs t) endT else keepFrom s bs t)"
    "list_all (block_ok f (hd cs)) keep"
    "list_all (appendable (int (length f))) (c_body c)" "c_off c = c_off (hd cs)" "c_timestamp c = t"
    "parts_content f (c_body c) = concat (map
       (if c_timestamp (hd cs) = t then block_raw f else rebased_raw f t) keep)"
proof -
  let ?c = "hd cs"
  obtain bs where bs: "readBlocks r ?c = Inr bs"
    using assms(3) by (auto simp: firstCluster_def Let_def split: sum.splits)
  define keep where "keep = (if length cs = 1 then keepUntil s (keepFrom s bs t) endT else keepFrom s bs t)"
  have all: "list_all (block_ok f ?c) bs"
    using reader_at.readBlocks_ok [OF assms(1,2) bs] by metis
  have "subseq keep bs"
    unfolding keep_def keepUntil_def
    using keepUntilFrom_subseq [of s endT False "keepFrom s bs t"] keepFrom_subseq [of s bs t]
    by (auto intro: subseq_order.order_trans)
  then have keep: "list_all (block_ok f ?c) keep" using all by (rule subseq_all)
  note bp = blockParts_ok [OF keep assms(2)]
  show ?thesis
  proof (cases "c_timestamp ?c = t")
    case True
    then have "c = ?c\<lparr>c_body := blockParts keep\<rparr>"
      using assms(3) bs by (simp add: firstCluster_def Let_def keep_def)
    with True bp show ?thesis
      by (intro that [OF bs keep_def keep]) (simp_all add: good_appendable_all)
  next
    case False
    then obtain ps where ps: "rebasedParts keep t = Inr ps"
        and c: "c = ?c\<lparr>c_body := ps, c_timestamp := t\<rparr>"
      using assms(3) bs unfolding keep_def by (auto simp: firstCluster_def Let_def split: sum.splits)
    note rp = rebasedParts_ok [OF keep assms(2) ps]
    with False c show ?thesis
      by (intro that [OF bs keep_def keep]) (simp_all add: good_appendable_all)
  qed
qed

text \<open>Where each served cluster comes from.\<close>

definition served :: "byte list \<Rightarrow> reader \<Rightarrow> source \<Rightarrow> cluster list \<Rightarrow> u64 \<Rightarrow> u64 \<Rightarrow> nat \<Rightarrow> byte list \<Rightarrow> bool" where
  "served f r s raw t endT k b \<longleftrightarrow>
     (if k = 0 then \<exists>bs. readBlocks r (hd raw) = Inr bs
        \<and> b = concat (map (if c_timestamp (hd raw) = t then block_raw f else rebased_raw f t)
            (if length raw = 1 then keepUntil s (keepFrom s bs t) endT else keepFrom s bs t))
      else if k = length raw - 1 then \<exists>bs. readBlocks r (last raw) = Inr bs
        \<and> b = concat (map (block_raw f) (keepUntil s bs endT))
      else b = whole_bytes f (raw ! k))"

lemma clipClusters_Inr:
  assumes "reader_at r f" "raw_clusters r s raw" "s_segend s \<le> int (length f)"
    and "clipClusters s r raw t endT = Inr cs"
  shows "clusters_ok (int (length f)) cs" "length cs = length raw"
    "map c_off cs = map c_off raw"
    "map c_timestamp cs = t # map c_timestamp (tl raw)"
    "k < length cs \<Longrightarrow> served f r s raw t endT k (parts_content f (c_body (cs ! k)))"
proof -
  have ne: "raw \<noteq> []" using assms(2) by (simp add: raw_clusters_def)
  then have h0: "0 \<le> c_blocksOff (hd raw)" by (intro raw_cluster(3) [OF assms(2)]) simp
  obtain c1 where c1: "firstCluster s r raw t endT = Inr c1"
    using assms(4) by (auto simp: clipClusters_def split: sum.splits)
  obtain bs keep where f1: "readBlocks r (hd raw) = Inr bs"
    "keep = (if length raw = 1 then keepUntil s (keepFrom s bs t) endT else keepFrom s bs t)"
    "list_all (appendable (int (length f))) (c_body c1)" "c_off c1 = c_off (hd raw)" "c_timestamp c1 = t"
    "parts_content f (c_body c1) = concat (map
       (if c_timestamp (hd raw) = t then block_raw f else rebased_raw f t) keep)"
    using firstCluster_Inr [OF assms(1) h0 c1] by metis
  then have s0: "served f r s raw t endT 0 (parts_content f (c_body c1))"
    by (auto simp: served_def)
  have "clusters_ok (int (length f)) cs \<and> length cs = length raw \<and> map c_off cs = map c_off raw
    \<and> map c_timestamp cs = t # map c_timestamp (tl raw)
    \<and> (\<forall>k < length cs. served f r s raw t endT k (parts_content f (c_body (cs ! k))))"
  proof (cases "length raw = 1")
    case True
    then have "cs = [c1]" using assms(4) c1 by (simp add: clipClusters_def)
    moreover obtain c where "raw = [c]" using True by (cases raw) auto
    ultimately show ?thesis using f1 s0 by (simp add: clusters_ok_def)
  next
    case False
    let ?mid = "butlast (tl raw)" and ?l = "last raw"
    obtain bl where bl: "readBlocks r ?l = Inr bl"
        and cs: "cs = c1 # map wholeCluster ?mid @ [?l\<lparr>c_body := blockParts (keepUntil s bl endT)\<rparr>]"
      using assms(4) c1 False by (auto simp: clipClusters_def split: sum.splits)
    obtain h t' where raw: "raw = h # t'" and t': "t' \<noteq> []"
      using ne False by (cases raw) auto
    have split: "raw = hd raw # ?mid @ [?l]" using raw t' by simp
    have l0: "0 \<le> c_blocksOff ?l" using ne by (intro raw_cluster(3) [OF assms(2)]) simp
    have "list_all (block_ok f ?l) bl" using reader_at.readBlocks_ok [OF assms(1) l0 bl] by metis
    then have kl: "list_all (block_ok f ?l) (keepUntil s bl endT)"
      unfolding keepUntil_def by (rule subseq_all [OF keepUntilFrom_subseq])
    note lp = blockParts_ok [OF kl l0]
    have mid: "list_all (appendable (int (length f))) (c_body (wholeCluster c))
        \<and> parts_content f (c_body (wholeCluster c)) = whole_bytes f c" if "c \<in> set ?mid" for c
    proof -
      have c: "c \<in> set raw" "c \<in> set (butlast raw)"
        using that raw t' by (auto dest: in_set_butlastD)
      show ?thesis
        using wholeCluster_ok [OF raw_cluster(3,4) [OF assms(2) c(1)] raw_cluster_inside [OF assms(2) c(2) assms(3)]]
        by blast
    qed
    have mt: "map c_off (map wholeCluster ?mid) = map c_off ?mid"
      "map c_timestamp (map wholeCluster ?mid) = map c_timestamp ?mid"
      by (simp_all add: wholeCluster_def)
    have ok: "clusters_ok (int (length f)) cs"
      using f1(3) mid good_appendable_all [OF lp(1)]
      by (simp add: clusters_ok_def cs list_all_iff)
    have len: "length cs = length raw" using raw t' by (simp add: cs)
    have offs: "map c_off cs = map c_off raw"
      by (subst split, subst cs) (simp add: f1(4) mt del: map_map)
    have ts: "map c_timestamp cs = t # map c_timestamp (tl raw)"
    proof -
      have "map c_timestamp (?mid @ [?l]) = map c_timestamp ?mid @ [c_timestamp ?l]" by simp
      moreover have "?mid @ [?l] = tl raw" using raw t' by simp
      ultimately have "map c_timestamp (tl raw) = map c_timestamp ?mid @ [c_timestamp ?l]"
        by (simp only:)
      then show ?thesis by (simp add: cs f1(5) mt del: map_map)
    qed
    have "served f r s raw t endT k (parts_content f (c_body (cs ! k)))" if k: "k < length cs" for k
    proof (cases "k = 0")
      case True
      then show ?thesis using s0 by (simp add: cs)
    next
      case pos: False
      show ?thesis
      proof (cases "k = length raw - 1")
        case True
        then have "cs ! k = ?l\<lparr>c_body := blockParts (keepUntil s bl endT)\<rparr>"
          using len raw t' by (simp add: cs nth_append nth_Cons')
        then show ?thesis using True pos lp(2) bl by (simp add: served_def)
      next
        case False
        then have km: "k - 1 < length ?mid" using k len pos raw by simp
        then have "cs ! k = wholeCluster (?mid ! (k - 1))"
          using pos by (simp add: cs nth_append nth_Cons')
        moreover have "?mid ! (k - 1) = raw ! k"
          using km pos raw by (simp add: nth_butlast nth_Cons')
        ultimately show ?thesis
          using False pos mid [OF nth_mem [OF km]] by (simp add: served_def)
      qed
    qed
    with ok len offs ts show ?thesis by blast
  qed
  then show "clusters_ok (int (length f)) cs" "length cs = length raw" "map c_off cs = map c_off raw"
    "map c_timestamp cs = t # map c_timestamp (tl raw)"
    "k < length cs \<Longrightarrow> served f r s raw t endT k (parts_content f (c_body (cs ! k)))"
    by blast+
qed

section \<open>BuildClip\<close>

lemma BuildClip_Inr:
  assumes "BuildClip oor s r start stop title = Inr c"
  obtains startT endT ci key raw cs where "startT = Ticks oor s start"
    "ci = (let k = sort_Search (length (s_cues s)) (\<lambda>i. startT < cp_time (s_cues s ! i))
       in if k = 0 then 0 else k - 1)"
    "ci < length (s_cues s)" "key = s_cues s ! ci" "cp_time key < endT"
    "endT = (if f64_less (Fin 0) (s_duration s) then min (Ticks oor s stop) (f64_to_u64 oor (s_duration s))
       else Ticks oor s stop)"
    "collectClusters s r (cp_off key) endT = Inr raw" "clipClusters s r raw (cp_time key) endT = Inr cs"
    "list_all (\<lambda>c. sint (cp_time key) \<le> sint (c_timestamp c)) cs"
    "c = \<lparr>clip_parts = assemble s cs (cp_time key) endT title,
      clip_start = Seconds s (cp_time key), clip_end = Seconds s endT\<rparr>"
proof -
  define startT where "startT = Ticks oor s start"
  define endT where "endT = (if f64_less (Fin 0) (s_duration s)
    then min (Ticks oor s stop) (f64_to_u64 oor (s_duration s)) else Ticks oor s stop)"
  define ci where "ci = (let k = sort_Search (length (s_cues s)) (\<lambda>i. startT < cp_time (s_cues s ! i))
       in if k = 0 then 0 else k - 1)"
  define key where "key = s_cues s ! ci"
  have eq: "BuildClip oor s r start stop title =
    (if f64_le stop start then Inl EndNotAfterStart
     else if f64_less (Fin 0) (s_duration s) \<and> f64_to_u64 oor (s_duration s) \<le> startT
     then Inl StartPastEnd
     else if length (s_cues s) \<le> ci then Inl IndexPanic
     else if endT \<le> cp_time key then Inl StartPastEnd
     else (case collectClusters s r (cp_off key) endT of Inl e \<Rightarrow> Inl e
       | Inr raw \<Rightarrow>
         (case clipClusters s r raw (cp_time key) endT of Inl e \<Rightarrow> Inl e
          | Inr clusters \<Rightarrow>
            (case find (\<lambda>c. sint (c_timestamp c) < sint (cp_time key)) clusters of
               Some c \<Rightarrow> Inl (Unsupported (TimestampsDecrease (c_off c)))
             | None \<Rightarrow>
                 Inr \<lparr>clip_parts = assemble s clusters (cp_time key) endT title,
                   clip_start = Seconds s (cp_time key), clip_end = Seconds s endT\<rparr>))))"
    unfolding BuildClip_def Let_def key_def ci_def endT_def startT_def by (rule refl)
  from assms obtain raw cs where c: "ci < length (s_cues s)" "cp_time key < endT"
    "collectClusters s r (cp_off key) endT = Inr raw"
    "clipClusters s r raw (cp_time key) endT = Inr cs"
    "find (\<lambda>c. sint (c_timestamp c) < sint (cp_time key)) cs = None"
    "c = \<lparr>clip_parts = assemble s cs (cp_time key) endT title,
      clip_start = Seconds s (cp_time key), clip_end = Seconds s endT\<rparr>"
    unfolding eq by (auto simp: not_le split: if_splits sum.splits option.splits)
  show ?thesis
    by (rule that [OF startT_def ci_def c(1) key_def c(2) endT_def c(3,4) _ c(6)])
      (use c(5) in \<open>auto simp: find_None_iff list_all_iff not_less\<close>)
qed

lemma source_ok_attach: "source_ok f s \<Longrightarrow> attach_ok (int (length f)) s"
  by (auto simp: source_ok_def attach_ok_def attach_inside_def part_good_def part_ok_def Range_def
      split: option.splits)

text \<open>The clusters behind a built clip.\<close>

lemma BuildClip_clusters:
  assumes "source_ok f s" "reader_at r f" "key \<in> set (s_cues s)"
    and "collectClusters s r (cp_off key) endT = Inr raw" "clipClusters s r raw t endT = Inr cs"
  shows "raw_clusters r s raw" "clusters_ok (int (length f)) cs" "attach_ok (int (length f)) s"
    "length cs = length raw" "map c_off cs = map c_off raw"
    "map c_timestamp cs = t # map c_timestamp (tl raw)"
    "k < length cs \<Longrightarrow> served f r s raw t endT k (parts_content f (c_body (cs ! k)))"
proof -
  have "s_segdata s \<le> cp_off key" "0 \<le> s_segdata s" "s_segend s \<le> int (length f)"
    using assms(1,3) by (auto simp: source_ok_def)
  then have off: "0 \<le> cp_off key" and segend: "s_segend s \<le> int (length f)" by linarith+
  show raw: "raw_clusters r s raw" using raw_clustersI [OF assms(4) off] .
  note c = clipClusters_Inr [OF assms(2) raw segend assms(5)]
  show "clusters_ok (int (length f)) cs" "length cs = length raw" "map c_off cs = map c_off raw"
    "map c_timestamp cs = t # map c_timestamp (tl raw)"
    "k < length cs \<Longrightarrow> served f r s raw t endT k (parts_content f (c_body (cs ! k)))"
    by (rule c, assumption?)+
  show "attach_ok (int (length f)) s" by (rule source_ok_attach) fact
qed

lemma assemble_finalizes:
  fixes f :: "byte list"
  assumes "clusters_ok (f_size (l_data l)) cs" "attach_ok (f_size (l_data l)) s" "l_size l = 0"
    "l_parts l = assemble s cs origin endT title" "f_size (l_data l) = int (length f)"
    "int (length f) < 2 ^ 63" "parts_len (l_parts l) < 2 ^ 63"
  shows "snd (Finalize l) = None" "fits (l_parts l)"
proof -
  have "list_all (part_good (int (length f))) (l_parts l)"
    using assemble_content(1) [of f cs s] assms by simp
  then have "list_all (part_ok (f_size (l_data l))) (l_parts l)"
    by (auto simp: assms(5) part_good_def list_all_iff)
  moreover from this show "fits (l_parts l)"
    using assms(5-7) by (intro part_ok_fits [where n = "int (length f)"]) simp_all
  ultimately show "snd (Finalize l) = None" using assms(3) by (simp add: Finalize_ok)
qed

section \<open>The cues of the clip\<close>

lemma byOff_Some:
  assumes "distinct (map c_off cs)"
  shows "byOff cs off = Some i \<longleftrightarrow> i < length cs \<and> c_off (cs ! i) = off"
proof -
  have "map fst (map (\<lambda>i. (c_off (cs ! i), i)) [0..<length cs]) = map c_off cs"
    by (rule nth_equalityI) simp_all
  then have "distinct (map fst (rev (map (\<lambda>i. (c_off (cs ! i), i)) [0..<length cs])))"
    using assms by (simp only: rev_map [symmetric] distinct_rev)
  then show ?thesis unfolding byOff_def by (subst map_of_eq_Some_iff) auto
qed

text \<open>The source cues that end up in the clip: those of the collected clusters inside the
  clip's time range.\<close>

definition in_clip :: "cluster list \<Rightarrow> i64 \<Rightarrow> u64 \<Rightarrow> cue_point \<Rightarrow> bool" where
  "in_clip cs origin endT cp \<longleftrightarrow>
     cp_off cp \<in> set (map c_off cs) \<and> sint origin \<le> sint (cp_time cp) \<and> cp_time cp < endT"

lemma clipCues_eq:
  "clipCues s cs origin endT =
     map (\<lambda>cp. (cp_time cp - origin, the (byOff cs (cp_off cp))))
       (filter (\<lambda>cp. byOff cs (cp_off cp) \<noteq> None \<and> sint origin \<le> sint (cp_time cp) \<and> cp_time cp < endT)
         (s_cues s))"
proof -
  let ?P = "\<lambda>cp. byOff cs (cp_off cp) \<noteq> None \<and> sint origin \<le> sint (cp_time cp) \<and> cp_time cp < endT"
  have "foldl (\<lambda>cues cp.
         (case byOff cs (cp_off cp) of
            Some i \<Rightarrow>
              if sint origin \<le> sint (cp_time cp) \<and> cp_time cp < endT
              then cues @ [(cp_time cp - origin, i)] else cues
          | None \<Rightarrow> cues)) acc cps
      = acc @ map (\<lambda>cp. (cp_time cp - origin, the (byOff cs (cp_off cp)))) (filter ?P cps)" for acc cps
    by (induction cps arbitrary: acc) (auto split: option.splits)
  from this [of "[]" "s_cues s"] show ?thesis
    unfolding clipCues_def by (simp only: append_Nil)
qed

lemma byOff_None: "byOff cs off = None \<longleftrightarrow> off \<notin> set (map c_off cs)"
proof -
  have "fst ` set (rev (map (\<lambda>i. (c_off (cs ! i), i)) [0..<length cs])) = set (map c_off cs)"
    by (force simp: in_set_conv_nth image_iff)
  then show ?thesis unfolding byOff_def by (simp only: map_of_eq_None_iff)
qed

lemma raw_distinct:
  assumes "raw_clusters r s raw"
  shows "distinct (map c_off raw)"
proof -
  have sorted: "sorted_wrt (\<lambda>c c'. c_end c \<le> c_off c') raw"
    and "\<And>c. c \<in> set raw \<Longrightarrow> c_off c < c_end c"
    using assms readCluster_bounds(4) by (auto simp: raw_clusters_def list_all_iff cluster_read_def)
  then have "sorted_wrt (<) (map c_off raw)"
    unfolding sorted_wrt_map by (elim sorted_wrt_mono_rel [rotated]) force
  then show ?thesis by (simp add: strict_sorted_iff)
qed

section \<open>Properties\<close>

definition demo_built :: "cluster list" where
  "demo_built =
     [\<lparr>c_off = 60, c_end = 75, c_blocksOff = 68, c_timestamp = 0, c_newHeader = [],
       c_body = [Range 68 7]\<rparr>,
      \<lparr>c_off = 75, c_end = 91, c_blocksOff = 84, c_timestamp = 1000, c_newHeader = [],
       c_body = [Range 84 7]\<rparr>]"

lemma demo_clipClusters:
  "clipClusters demo_movie (file_reader demo_file) demo_clusters 0 2000 = Inr demo_built"
  by code_simp

lemma demo_clusters_ok: "clusters_ok (int (length demo_file)) demo_built"
  by code_simp

lemma demo_attach_ok: "attach_ok (int (length demo_file)) demo_movie"
  by code_simp

lemma demo_length: "length demo_file = 91"
  by code_simp

lemma demo_end: "pos_end (clip_at demo_movie demo_built 0 2000 [0x54]) < 2 ^ 56 - 1"
proof -
  let ?K = "clipCues demo_movie demo_built 0 2000"
  let ?P = "clip_at demo_movie demo_built 0 2000 [0x54]"
  have i: "length (infoElement demo_movie 2000 0 [0x54]) \<le> 100"
  proof -
    have info: "s_info demo_movie = []" by (simp add: demo_movie_def)
    let ?b = "be_bytes 8 (f64_bits (f64_of_int (sint (2000 - 0 :: 64 word))))"
    have "length (AppendElement [] IDDuration ?b) \<le> 20"
      using length_AppendElement_short [of ?b IDDuration] by simp
    moreover have "length (AppendElement [] IDTitle [0x54]) \<le> 13"
      using length_AppendElement_short [of "[0x54]" IDTitle] by simp
    ultimately have "length (info_payload demo_movie 2000 0 [0x54]) \<le> 33"
      by (simp add: info_payload_def info del: f64_bits.simps)
    then show ?thesis
      using length_AppendElement_short [of "info_payload demo_movie 2000 0 [0x54]" IDInfo]
      by (simp add: infoElement_eq)
  qed
  have t: "length (tracksElement demo_movie) \<le> 100" by code_simp
  have a: "attach_bytes demo_file demo_movie = []" by code_simp
  have q: "length (cuesElement demo_movie ?K (pos_clusters ?P)) \<le> 100"
  proof -
    have "length (cuesElement demo_movie ?K [0, 0]) \<le> 100" by code_simp
    then show ?thesis
      by (simp only: length_cuesElement_cong [of demo_movie ?K "pos_clusters ?P" "[0, 0]"])
  qed
  have c: "length (concat (map (cluster_bytes demo_file 0) demo_built)) \<le> 100" by code_simp
  have s: "length (seekHead (pos_info ?P) (pos_tracks ?P) (pos_cues ?P) (pos_att ?P)) \<le> 300"
    using length_AppendElement_short
        [of "seekHead_payload (pos_info ?P) (pos_tracks ?P) (pos_cues ?P) (pos_att ?P)" IDSeekHead]
      length_seekHead_payload [of "pos_info ?P" "pos_tracks ?P" "pos_cues ?P" "pos_att ?P"]
    by (simp add: seekHead_eq)
  have "length (clip_payload demo_file demo_movie demo_built 0 2000 [0x54]) \<le> 700"
    using i t a q c s by (simp add: clip_payload_def Let_def)
  moreover have "pos_end ?P = int (length (clip_payload demo_file demo_movie demo_built 0 2000 [0x54]))"
    by (rule seekHead_sections(7) [OF demo_clusters_ok demo_attach_ok])
  ultimately show ?thesis by simp
qed

text \<open>C4: An assembled clip is one well-formed Matroska file.  Its bytes are the source's EBML
  header followed by one Segment whose size is exactly what follows; inside it, the SeekHead,
  Info, Tracks, Cues and every Cluster lie at the positions the code computed before it wrote
  them, each with a payload of exactly the size its header announces, and the attachments
  are the source's bytes.\<close>

theorem assemble_is_matroska:
  assumes "clusters_ok (int (length f)) clusters" "attach_ok (int (length f)) s"
    and "pos_end (clip_at s clusters origin endT title) < 2 ^ 56 - 1"
  shows "let P = clip_at s clusters origin endT title;
      out = parts_content f (assemble s clusters origin endT title);
      body = drop (length (s_ebml s) + 12) out
    in take (length (s_ebml s)) out = s_ebml s
      \<and> payload_at out (int (length (s_ebml s))) IDSegment body
      \<and> pos_end P = int (length body)
      \<and> payload_at body 0 IDSeekHead
          (seekHead_payload (pos_info P) (pos_tracks P) (pos_cues P) (pos_att P))
      \<and> payload_at body (pos_info P) IDInfo (info_payload s endT origin title)
      \<and> payload_at body (pos_tracks P) IDTracks (tracks_payload s)
      \<and> (s_attach s \<noteq> None \<longrightarrow>
          take (length (attach_bytes f s)) (drop (nat (pos_att P)) body) = attach_bytes f s)
      \<and> payload_at body (pos_cues P) IDCues
          (cues_payload s (clipCues s clusters origin endT) (pos_clusters P))
      \<and> (\<forall>k < length clusters.
          payload_at body (pos_clusters P ! k) IDCluster (cluster_payload f origin (clusters ! k)))"
proof -
  let ?P = "clip_at s clusters origin endT title"
  let ?out = "parts_content f (assemble s clusters origin endT title)"
  let ?body = "clip_payload f s clusters origin endT title"
  have out: "?out = s_ebml s @ AppendSizeWidth (AppendID [] IDSegment) (pos_end ?P) 8 @ ?body"
    by (rule assemble_content(2)) fact+
  have stop: "pos_end ?P = int (length ?body)"
    by (rule seekHead_sections(7)) fact+
  have "length (AppendSizeWidth (AppendID [] IDSegment) (pos_end ?P) 8) = 12"
    by (simp add: AppendID_def)
  then have body: "drop (length (s_ebml s) + 12) ?out = ?body" by (simp add: out)
  have "payload_at ?out (int (length (s_ebml s))) IDSegment ?body"
    by (rule payload_at_header [where w = 8 and rest = "[]"])
      (use assms(3) in \<open>simp_all add: out stop fits_width_def\<close>)
  with clip_elements [OF assms] stop show ?thesis
    unfolding Let_def body by (auto simp: out)
qed

theorem assemble_is_matroska_witness:
  "take 5 (parts_content demo_file (assemble demo_movie demo_built 0 2000 [0x54])) = s_ebml demo_movie"
proof -
  have "length (s_ebml demo_movie) = 5" by (simp add: demo_movie_def)
  with assemble_is_matroska [OF demo_clusters_ok demo_attach_ok demo_end]
  show ?thesis by (simp add: Let_def)
qed

text \<open>C16: The SeekHead of an assembled clip works.  The bytes \<open>seekHead\<close> writes for the
  computed positions stand at the start of the Segment; the program's own \<open>seekPosition\<close>,
  given their payload, returns a position for Info, Tracks and Cues, for the attachments
  exactly when there are any, and nothing for any other ID; and in the clip's bytes the
  element with the ID asked for begins at that position.\<close>

theorem seekHead_is_readable:
  fixes f :: "byte list"
  assumes "clusters_ok (int (length f)) clusters" "attach_ok (int (length f)) s"
    and "pos_end (clip_at s clusters origin endT title) < 2 ^ 56 - 1"
  shows "let P = clip_at s clusters origin endT title;
      body = drop (length (s_ebml s) + 12) (parts_content f (assemble s clusters origin endT title))
    in \<exists>b. seekHead (pos_info P) (pos_tracks P) (pos_cues P) (pos_att P) = AppendElement [] IDSeekHead b
      \<and> payload_at body 0 IDSeekHead b
      \<and> (\<forall>want. seekPosition b want \<noteq> None \<longleftrightarrow>
           want \<in> {IDInfo, IDTracks, IDCues} \<or> want = IDAttachments \<and> s_attach s \<noteq> None)
      \<and> (\<forall>want \<in> {IDInfo, IDTracks, IDCues}. \<exists>pos x.
           seekPosition b want = Some pos \<and> payload_at body pos want x)
      \<and> (s_attach s \<noteq> None \<longrightarrow> (\<exists>pos. seekPosition b IDAttachments = Some pos
           \<and> take (length (attach_bytes f s)) (drop (nat pos) body) = attach_bytes f s))"
proof -
  let ?P = "clip_at s clusters origin endT title"
  let ?body = "clip_payload f s clusters origin endT title"
  let ?b = "seekHead_payload (pos_info ?P) (pos_tracks ?P) (pos_cues ?P) (pos_att ?P)"
  have body: "drop (length (s_ebml s) + 12) (parts_content f (assemble s clusters origin endT title)) = ?body"
    by (simp add: assemble_content(2) [OF assms(1,2)] AppendID_def)
  note sec = seekHead_sections [OF assms(1,2), where endT = endT and origin = origin and title = title]
  have le: "pos_cues ?P \<le> pos_end ?P"
    unfolding sec(7) using sec(1-4)
    by (simp add: clip_payload_def Let_def)
  have nn: "0 \<le> pos_info ?P" "pos_info ?P \<le> pos_tracks ?P" "pos_tracks ?P \<le> pos_cues ?P"
    "pos_att ?P \<le> pos_cues ?P"
    using sec(1-4) by auto
  have "0 \<le> pos_att ?P \<longleftrightarrow> s_attach s \<noteq> None" using sec(3) nn by simp
  with nn le assms(3) have at: "seekPosition ?b want =
      (if want = IDInfo then Some (pos_info ?P)
       else if want = IDTracks then Some (pos_tracks ?P)
       else if want = IDAttachments then (if s_attach s = None then None else Some (pos_att ?P))
       else if want = IDCues then Some (pos_cues ?P)
       else None)" for want
    by (simp add: Let_def seekPosition_seekHead seek_ids_def)
  have ids: "seekPosition ?b IDInfo = Some (pos_info ?P)"
    "seekPosition ?b IDTracks = Some (pos_tracks ?P)" "seekPosition ?b IDCues = Some (pos_cues ?P)"
    by (simp_all add: at)
  note el = clip_elements [OF assms]
  show ?thesis
    unfolding Let_def body
    using el(1-5) ids by (intro exI [of _ ?b]) (auto simp: seekHead_eq at split: if_splits)
qed

theorem seekHead_is_readable_witness:
  "\<exists>b pos x. seekPosition b IDCues = Some pos
     \<and> payload_at (drop 17 (parts_content demo_file (assemble demo_movie demo_built 0 2000 [0x54])))
         pos IDCues x"
proof -
  have "length (s_ebml demo_movie) = 5" by (simp add: demo_movie_def)
  then show ?thesis
    using seekHead_is_readable [OF demo_clusters_ok demo_attach_ok demo_end] by (auto simp: Let_def)
qed

lemma pos_clusters_bounds:
  fixes f :: "byte list"
  assumes "clusters_ok (int (length f)) clusters" "attach_ok (int (length f)) s"
    and "pos_end (clip_at s clusters origin endT title) < 2 ^ 56 - 1" "k < length clusters"
  defines "P \<equiv> clip_at s clusters origin endT title"
  shows "0 \<le> pos_clusters P ! k" "pos_clusters P ! k < pos_end P"
proof -
  let ?body = "clip_payload f s clusters origin endT title"
  have "payload_at ?body (pos_clusters P ! k) IDCluster (cluster_payload f origin (clusters ! k))"
    unfolding P_def by (rule clip_elements(6)) fact+
  then obtain h where at: "0 \<le> pos_clusters P ! k" "ParseHeader (drop (nat (pos_clusters P ! k)) ?body) = Inr h"
    by (auto simp: payload_at_def)
  from ParseHeader_bounds(1,3) [OF at(2)] have "nat (pos_clusters P ! k) < length ?body" by simp
  moreover have "pos_end P = int (length ?body)"
    unfolding P_def by (rule seekHead_sections(7)) fact+
  ultimately show "0 \<le> pos_clusters P ! k" "pos_clusters P ! k < pos_end P" using at(1) by linarith+
qed





text \<open>A build on the small file: seconds 0 to 2.\<close>

lemma demo_ticks: "Ticks oor demo_movie (Fin 0) = 0" "Ticks oor demo_movie (Fin 2) = 2000"
proof -
  show "Ticks oor demo_movie (Fin 0) = 0" by (simp add: Ticks_def f64_le_def)
  have a: "f64_mul (Fin 2) (Fin 1000000000) = Fin 2000000000" by (simp add: f64_round_numeral)
  have b: "f64_of_u64 1000000 = Fin 1000000"
    using f64_of_int_exact [of 1000000] by (simp add: f64_of_u64_def)
  have c: "f64_div (Fin 2000000000) (Fin 1000000) = Fin 2000" by (simp add: f64_round_numeral)
  have d: "\<lfloor>2000 + 1 / 2 :: rat\<rfloor> = 2000" by (simp add: floor_eq_iff)
  show "Ticks oor demo_movie (Fin 2) = 2000"
    using a b c d by (simp add: Ticks_def f64_le_def demo_movie_def)
qed

lemma demo_BuildClip:
  "BuildClip oor demo_movie (file_reader demo_file) (Fin 0) (Fin 2) title =
     Inr \<lparr>clip_parts = assemble demo_movie demo_built 0 2000 title,
       clip_start = Seconds demo_movie 0, clip_end = Seconds demo_movie 2000\<rparr>"
proof -
  have le: "\<not> f64_le (Fin 2) (Fin 0)" by (simp add: f64_le_def)
  have dur: "\<not> f64_less (Fin 0) (s_duration demo_movie)" by (simp add: demo_movie_def)
  have s: "sort_Search (length (s_cues demo_movie)) (\<lambda>i. 0 < cp_time (s_cues demo_movie ! i)) = 1"
    by code_simp
  have key: "s_cues demo_movie ! 0 = \<lparr>cp_time = 0, cp_off = 60\<rparr>" "length (s_cues demo_movie) = 2"
    by (simp_all add: demo_movie_def)
  have f: "find (\<lambda>c. sint (c_timestamp c) < sint (0 :: 64 word)) demo_built = None" by code_simp
  have k0: "s_cues demo_movie ! (if (1::nat) = 0 then 0 else 1 - 1) = \<lparr>cp_time = 0, cp_off = 60\<rparr>"
    using key by simp
  show ?thesis
    unfolding BuildClip_def Let_def demo_ticks s k0
    by (simp add: le dur demo_collect demo_clipClusters f [simplified] key(2))
qed

lemma demo_source_ok: "source_ok demo_file demo_movie"
  by (rule Open_source_ok [OF stable.cue_sorter_axioms demo_file_reader demo_Open])

text \<open>C3: A clip that was built can always be served: whatever the times and the title are, its
  parts pass \<open>Finalize\<close> against the source file, every range lies inside it and no part is
  empty, and the finished layout obeys \<open>io.ReaderAt\<close> for the assembled bytes.  The source and
  the clip are assumed to be shorter than \<open>2 ^ 63\<close> bytes.\<close>

theorem BuildClip_can_be_served:
  assumes "source_ok f s" "reader_at r f" "BuildClip oor s r start stop title = Inr c"
    and "l_parts l = clip_parts c" "f_size (l_data l) = int (length f)" "l_size l = 0"
    and "int (length f) < 2 ^ 63" "parts_len (clip_parts c) < 2 ^ 63"
  shows "snd (Finalize l) = None
    \<and> list_all (\<lambda>p. part_ok (int (length f)) p \<and> 0 < p_len p) (clip_parts c)
    \<and> reader_at (layout_reader (fst (Finalize l)) r) (parts_content f (clip_parts c))"
proof -
  obtain key endT raw cs where key: "key \<in> set (s_cues s)"
      and b: "collectClusters s r (cp_off key) endT = Inr raw"
      "clipClusters s r raw (cp_time key) endT = Inr cs"
      "clip_parts c = assemble s cs (cp_time key) endT title"
    using BuildClip_Inr [OF assms(3)] by (metis clip.select_convs(1) nth_mem)
  note cl = BuildClip_clusters(2,3) [OF assms(1,2) key b(1,2)]
  have none: "snd (Finalize l) = None" and fit: "fits (l_parts l)"
    using assemble_finalizes [of l cs s "cp_time key" endT title f] cl assms(4-8) b(3) by simp_all
  have good: "list_all (\<lambda>p. part_ok (int (length f)) p \<and> 0 < p_len p) (clip_parts c)"
    using assemble_content(1) [of f cs s] cl b(3) by (simp add: part_good_def [abs_def])
  from none have F: "Finalize l = (fst (Finalize l), None)" by (simp add: prod_eq_iff)
  have l: "l_parts (fst (Finalize l)) = clip_parts c" "l_data (fst (Finalize l)) = l_data l"
    using Finalize_fields [OF F] assms(4) by simp_all
  have "reader_at (layout_reader (fst (Finalize l)) r) (layout_content f (fst (Finalize l)))"
    by (rule layout_reader_reader_at [OF assms(2) Finalize_finalized [OF F fit]]) (simp add: l assms(5))
  with none good show ?thesis by (simp add: layout_content_def l)
qed

lemma demo_parts_len: "parts_len (assemble demo_movie demo_built 0 2000 [0x54]) < 2 ^ 63"
proof -
  let ?ps = "assemble demo_movie demo_built 0 2000 [0x54]"
  note c = assemble_content [OF demo_clusters_ok demo_attach_ok, of 0 2000 "[0x54]"]
  have "list_all (part_ok (int (length demo_file))) ?ps"
    using c(1) by (auto simp: part_good_def list_all_iff)
  then have "parts_len ?ps = int (length (parts_content demo_file ?ps))"
    by (simp only: length_parts_content)
  also have "length (s_ebml demo_movie) = 5" by (simp add: demo_movie_def)
  then have "int (length (parts_content demo_file ?ps))
      = 17 + pos_end (clip_at demo_movie demo_built 0 2000 [0x54])"
    unfolding c(2) by (simp add: seekHead_sections(7) [OF demo_clusters_ok demo_attach_ok] AppendID_def)
  finally show ?thesis using demo_end by simp
qed

theorem BuildClip_can_be_served_witness:
  "snd (Finalize \<lparr>l_version = 1, l_kind = KindMKV, l_origin = \<lparr>f_path = ''m'', f_size = 91, f_mtime = 0\<rparr>,
      l_data = \<lparr>f_path = ''m'', f_size = 91, f_mtime = 0\<rparr>, l_start = Fin 0, l_end = Fin 2,
      l_actual_start = Fin 0, l_actual_end = Fin 2, l_size = 0, l_built = 0,
      l_parts = assemble demo_movie demo_built 0 2000 [0x54], l_offsets = []\<rparr>) = None"
  using BuildClip_can_be_served [OF demo_source_ok demo_file_reader demo_BuildClip [of _ "[0x54]"],
      of "\<lparr>l_version = 1, l_kind = KindMKV, l_origin = \<lparr>f_path = ''m'', f_size = 91, f_mtime = 0\<rparr>,
      l_data = \<lparr>f_path = ''m'', f_size = 91, f_mtime = 0\<rparr>, l_start = Fin 0, l_end = Fin 2,
      l_actual_start = Fin 0, l_actual_end = Fin 2, l_size = 0, l_built = 0,
      l_parts = assemble demo_movie demo_built 0 2000 [0x54], l_offsets = []\<rparr>"]
  demo_parts_len by (simp add: demo_length)

text \<open>C12: A clip starts at the last keyframe at or before the requested start, or at the first
  keyframe when there is none; it starts before its end, and the end is the requested one, cut
  at the file's duration when that is known.  No cluster of the clip starts before the
  keyframe.\<close>

theorem BuildClip_starts_at_keyframe:
  assumes "sorted (map cp_time (s_cues s))" "BuildClip oor s r start stop title = Inr c"
  shows "\<exists>key \<in> set (s_cues s). \<exists>endT raw cs.
      (\<forall>cp \<in> set (s_cues s). cp_time cp \<le> Ticks oor s start \<longrightarrow> cp_time cp \<le> cp_time key)
    \<and> (cp_time key \<le> Ticks oor s start \<or> key = hd (s_cues s))
    \<and> endT = (if f64_less (Fin 0) (s_duration s)
        then min (Ticks oor s stop) (f64_to_u64 oor (s_duration s)) else Ticks oor s stop)
    \<and> cp_time key < endT
    \<and> collectClusters s r (cp_off key) endT = Inr raw
    \<and> clipClusters s r raw (cp_time key) endT = Inr cs
    \<and> (\<forall>x \<in> set cs. sint (cp_time key) \<le> sint (c_timestamp x))
    \<and> c = \<lparr>clip_parts = assemble s cs (cp_time key) endT title,
        clip_start = Seconds s (cp_time key), clip_end = Seconds s endT\<rparr>"
proof -
  let ?cues = "s_cues s" and ?t = "Ticks oor s start"
  let ?P = "\<lambda>i. ?t < cp_time (?cues ! i)" and ?n = "length ?cues"
  obtain endT ci key raw cs where ci: "ci = (let k = sort_Search ?n ?P in if k = 0 then 0 else k - 1)"
    "ci < ?n" "key = ?cues ! ci"
    and rest: "cp_time key < endT" "endT = (if f64_less (Fin 0) (s_duration s)
        then min (Ticks oor s stop) (f64_to_u64 oor (s_duration s)) else Ticks oor s stop)"
    "collectClusters s r (cp_off key) endT = Inr raw" "clipClusters s r raw (cp_time key) endT = Inr cs"
    "list_all (\<lambda>c. sint (cp_time key) \<le> sint (c_timestamp c)) cs"
    "c = \<lparr>clip_parts = assemble s cs (cp_time key) endT title,
      clip_start = Seconds s (cp_time key), clip_end = Seconds s endT\<rparr>"
    using BuildClip_Inr [OF assms(2)] by metis
  have mono: "cp_time (?cues ! i) \<le> cp_time (?cues ! j)" if "i \<le> j" "j < ?n" for i j
    using sorted_nth_mono [OF assms(1), of i j] that by simp
  have P: "?P k \<longleftrightarrow> sort_Search ?n ?P \<le> k" if "k < ?n" for k
    by (rule sort_Search_least [OF _ that]) (use mono in \<open>force\<close>)
  have last: "cp_time cp \<le> cp_time key" if cp: "cp \<in> set ?cues" "cp_time cp \<le> ?t" for cp
  proof -
    obtain k where k: "k < ?n" "cp = ?cues ! k" using cp(1) by (auto simp: in_set_conv_nth)
    then have "\<not> ?P k" using cp(2) by (simp add: not_less)
    then have "k < sort_Search ?n ?P" unfolding P [OF k(1)] by (simp only: not_le)
    then have "k \<le> ci" by (simp add: ci(1) Let_def)
    then show ?thesis using mono [of k ci] k(2) ci(2,3) by simp
  qed
  have "cp_time key \<le> ?t \<or> key = hd ?cues"
  proof (cases "sort_Search ?n ?P = 0")
    case True
    then show ?thesis using ci by (cases ?cues) (simp_all add: Let_def)
  next
    case False
    then have "ci < sort_Search ?n ?P" by (simp add: ci(1) Let_def)
    then have "\<not> ?P ci" unfolding P [OF ci(2)] by (simp only: not_le)
    then show ?thesis by (simp only: ci(3) not_less simp_thms)
  qed
  moreover have "key \<in> set ?cues" using ci(2,3) by simp
  ultimately show ?thesis
    using last rest by (intro bexI [of _ key] exI conjI) (auto simp: list_all_iff)
qed

theorem BuildClip_starts_at_keyframe_witness:
  "\<exists>key \<in> set (s_cues demo_movie). cp_time key \<le> Ticks (\<lambda>_. 0) demo_movie (Fin 0)
     \<or> key = hd (s_cues demo_movie)"
proof -
  have "sorted (map cp_time (s_cues demo_movie))" by (simp add: demo_movie_def)
  from BuildClip_starts_at_keyframe [OF this demo_BuildClip [of "\<lambda>_. 0" "[]"]] show ?thesis by blast
qed

end
