(* ===== verification/Paths.thy ===== *)
theory Paths
  imports Prelude "HOL-Library.Sublist" "HOL-Library.Char_ord"
begin

text \<open>
  Go's strings and slash-separated paths: the functions of the packages \<open>strings\<close>, \<open>path\<close>
  and \<open>path/filepath\<close> that the program calls, as the standard library writes them for Unix.
  A string is a list of bytes.
\<close>

section \<open>strings\<close>

abbreviation slash :: char where "slash \<equiv> CHR ''/''"

text \<open>\<open>strings.Split\<close> with a separator of one byte, and \<open>strings.Join\<close>.\<close>

fun split_on :: "char \<Rightarrow> string \<Rightarrow> string list" where
  "split_on c [] = [[]]"
| "split_on c (x # xs) =
     (if x = c then [] # split_on c xs
      else (x # hd (split_on c xs)) # tl (split_on c xs))"

fun join :: "string \<Rightarrow> string list \<Rightarrow> string" where
  "join sep [] = []"
| "join sep [s] = s"
| "join sep (s # t # ts) = s @ sep @ join sep (t # ts)"

text \<open>\<open>strings.Trim\<close> with a cut set of one byte.\<close>

definition trim_char :: "char \<Rightarrow> string \<Rightarrow> string" where
  "trim_char c s = rev (dropWhile (\<lambda>x. x = c) (rev (dropWhile (\<lambda>x. x = c) s)))"

definition HasPrefix :: "string \<Rightarrow> string \<Rightarrow> bool" where
  "HasPrefix s p \<longleftrightarrow> take (length p) s = p"

definition HasSuffix :: "string \<Rightarrow> string \<Rightarrow> bool" where
  "HasSuffix s p \<longleftrightarrow> length p \<le> length s \<and> drop (length s - length p) s = p"

definition TrimPrefix :: "string \<Rightarrow> string \<Rightarrow> string" where
  "TrimPrefix s p = (if HasPrefix s p then drop (length p) s else s)"

definition TrimSuffix :: "string \<Rightarrow> string \<Rightarrow> string" where
  "TrimSuffix s p = (if HasSuffix s p then take (length s - length p) s else s)"

text \<open>\<open>strings.TrimSpace\<close>: white space is the ASCII blanks and the UTF-8 encodings of the
  other runes for which \<open>unicode.IsSpace\<close> holds.\<close>

definition space_runes :: "string list" where
  "space_runes =
    [[CHR 0x09], [CHR 0x0A], [CHR 0x0B], [CHR 0x0C], [CHR 0x0D], [CHR 0x20],
     [CHR 0xC2, CHR 0x85], [CHR 0xC2, CHR 0xA0], [CHR 0xE1, CHR 0x9A, CHR 0x80],
     [CHR 0xE2, CHR 0x80, CHR 0x80], [CHR 0xE2, CHR 0x80, CHR 0x81],
     [CHR 0xE2, CHR 0x80, CHR 0x82], [CHR 0xE2, CHR 0x80, CHR 0x83],
     [CHR 0xE2, CHR 0x80, CHR 0x84], [CHR 0xE2, CHR 0x80, CHR 0x85],
     [CHR 0xE2, CHR 0x80, CHR 0x86], [CHR 0xE2, CHR 0x80, CHR 0x87],
     [CHR 0xE2, CHR 0x80, CHR 0x88], [CHR 0xE2, CHR 0x80, CHR 0x89],
     [CHR 0xE2, CHR 0x80, CHR 0x8A], [CHR 0xE2, CHR 0x80, CHR 0xA8],
     [CHR 0xE2, CHR 0x80, CHR 0xA9], [CHR 0xE2, CHR 0x80, CHR 0xAF],
     [CHR 0xE2, CHR 0x81, CHR 0x9F], [CHR 0xE3, CHR 0x80, CHR 0x80]]"

lemma space_runes_ne: "r \<in> set space_runes \<Longrightarrow> r \<noteq> []"
  by (auto simp: space_runes_def)

function trim_front :: "string list \<Rightarrow> string \<Rightarrow> string" where
  "trim_front rs s =
     (case filter (\<lambda>r. r \<noteq> [] \<and> HasPrefix s r) rs of
        [] \<Rightarrow> s
      | r # _ \<Rightarrow> trim_front rs (drop (length r) s))"
  by pat_completeness auto
termination
proof (relation "measure (\<lambda>(rs, s). length s)", simp)
  fix rs s r rest
  assume "filter (\<lambda>r. r \<noteq> [] \<and> HasPrefix s r) rs = r # rest"
  then have "r \<in> set (filter (\<lambda>r. r \<noteq> [] \<and> HasPrefix s r) rs)" by simp
  then have "r \<noteq> []" "take (length r) s = r" by (auto simp: HasPrefix_def)
  then have "s \<noteq> []" by auto
  with \<open>r \<noteq> []\<close> show "((rs, drop (length r) s), rs, s) \<in> measure (\<lambda>(rs, s). length s)" by simp
qed

declare trim_front.simps [simp del]

definition TrimSpace :: "string \<Rightarrow> string" where
  "TrimSpace s =
     rev (trim_front (map rev space_runes) (rev (trim_front space_runes s)))"

text \<open>\<open>strings.ToLower\<close>: ASCII strings by the byte; the case tables of Unicode for the others
  are the parameter \<open>unicode_lower\<close>.\<close>

definition is_ascii :: "string \<Rightarrow> bool" where
  "is_ascii s \<longleftrightarrow> list_all (\<lambda>c. of_char c < (0x80::nat)) s"

definition lower_char :: "char \<Rightarrow> char" where
  "lower_char c =
     (if CHR ''A'' \<le> c \<and> c \<le> CHR ''Z'' then char_of (of_char c + (32::nat)) else c)"

definition ToLower :: "(string \<Rightarrow> string) \<Rightarrow> string \<Rightarrow> string" where
  "ToLower unicode_lower s = (if is_ascii s then map lower_char s else unicode_lower s)"

lemma split_on_ne [simp]: "split_on c s \<noteq> []"
  by (cases "(c, s)" rule: split_on.cases) auto

lemma split_on_none: "c \<notin> set s \<Longrightarrow> split_on c s = [s]"
  by (induction s) auto

lemma split_on_append: "split_on c (a @ c # b) = split_on c a @ split_on c b"
  by (induction a) (auto simp: hd_append tl_append split: list.splits)

lemma split_on_parts: "p \<in> set (split_on c s) \<Longrightarrow> c \<notin> set p"
proof (induction s arbitrary: p)
  case (Cons x s)
  then show ?case
    by (cases "split_on c s") (auto split: if_splits)
qed simp

lemma join_Cons: "ps \<noteq> [] \<Longrightarrow> join sep (p # ps) = p @ sep @ join sep ps"
  by (cases ps) auto

lemma join_split_on: "join [c] (split_on c s) = s"
proof (induction s)
  case (Cons x s)
  obtain p ps where s: "split_on c s = p # ps" by (cases "split_on c s") auto
  with Cons show ?case by (cases ps) auto
qed simp

lemma split_on_join:
  "ps \<noteq> [] \<Longrightarrow> list_all (\<lambda>p. c \<notin> set p) ps \<Longrightarrow> split_on c (join [c] ps) = ps"
proof (induction "[c]" ps rule: join.induct)
  case (3 s t ts)
  then show ?case by (simp add: split_on_append split_on_none)
qed (simp_all add: split_on_none)

lemma join_append:
  "ps \<noteq> [] \<Longrightarrow> qs \<noteq> [] \<Longrightarrow> join sep (ps @ qs) = join sep ps @ sep @ join sep qs"
proof (induction sep ps rule: join.induct)
  case (2 sep s)
  then show ?case by (cases qs) auto
qed auto

section \<open>path\<close>

text \<open>\<open>path.Split\<close>: after the last slash.\<close>

definition path_Split :: "string \<Rightarrow> string \<times> string" where
  "path_Split p =
     (rev (dropWhile (\<lambda>c. c \<noteq> slash) (rev p)), rev (takeWhile (\<lambda>c. c \<noteq> slash) (rev p)))"

text \<open>\<open>Clean\<close>: the elements written so far, from which \<open>..\<close> takes one back.\<close>

definition clean_step :: "bool \<Rightarrow> string list \<Rightarrow> string \<Rightarrow> string list" where
  "clean_step rooted out c =
     (if c = [] \<or> c = ''.'' then out
      else if c = ''..'' then
        (if out \<noteq> [] \<and> last out \<noteq> ''..'' then butlast out
         else if rooted then out
         else out @ [c])
      else out @ [c])"

definition IsAbs :: "string \<Rightarrow> bool" where
  "IsAbs p \<longleftrightarrow> HasPrefix p ''/''"

definition Clean :: "string \<Rightarrow> string" where
  "Clean p =
     (let rooted = IsAbs p;
          out = foldl (clean_step rooted) [] (split_on slash p);
          s = (if rooted then ''/'' else []) @ join ''/'' out
      in if s = [] then ''.'' else s)"

definition path_Dir :: "string \<Rightarrow> string" where
  "path_Dir p = Clean (fst (path_Split p))"

definition path_Join :: "string list \<Rightarrow> string" where
  "path_Join es =
     (case dropWhile (\<lambda>e. e = []) es of [] \<Rightarrow> [] | es' \<Rightarrow> Clean (join ''/'' es'))"

definition path_Base :: "string \<Rightarrow> string" where
  "path_Base p =
     (if p = [] then ''.''
      else let q = rev (dropWhile (\<lambda>c. c = slash) (rev p))
           in if q = [] then ''/'' else snd (path_Split q))"

text \<open>\<open>filepath.Ext\<close>: from the last dot of the last element.\<close>

definition path_Ext :: "string \<Rightarrow> string" where
  "path_Ext p =
     (let name = snd (path_Split p)
      in if CHR ''.'' \<in> set name
         then CHR ''.'' # rev (takeWhile (\<lambda>c. c \<noteq> CHR ''.'') (rev name))
         else [])"

definition IsLocal :: "string \<Rightarrow> bool" where
  "IsLocal p =
     (if IsAbs p \<or> p = [] then False
      else let parts = split_on slash p;
               q = (if ''.'' \<in> set parts \<or> ''..'' \<in> set parts then Clean p else p)
           in \<not> (q = ''..'' \<or> HasPrefix q ''../''))"

text \<open>\<open>filepath.Rel\<close> on cleaned paths, by their elements: the common front is dropped, then
  one \<open>..\<close> for each element left of the base.\<close>

fun drop_common :: "string list \<Rightarrow> string list \<Rightarrow> string list \<times> string list" where
  "drop_common (b # bs) (t # ts) = (if b = t then drop_common bs ts else (b # bs, t # ts))"
| "drop_common bs ts = (bs, ts)"

definition elements :: "string \<Rightarrow> string list" where
  "elements p = filter (\<lambda>c. c \<noteq> []) (split_on slash p)"

definition path_Rel :: "string \<Rightarrow> string \<Rightarrow> string option" where
  "path_Rel basepath targpath =
     (let base = Clean basepath; targ = Clean targpath
      in if targ = base then Some ''.''
         else if IsAbs base \<noteq> IsAbs targ then None
         else (case drop_common (if base = ''.'' then [] else elements base) (elements targ) of
             (bs, ts) \<Rightarrow>
               if bs \<noteq> [] \<and> ts \<noteq> [] \<and> hd bs = ''..'' then None
               else Some (join ''/'' (replicate (length bs) ''..'' @ ts))))"

subsection \<open>Paths made of names\<close>

text \<open>A name is a non-empty string without a slash; \<open>join ''/''\<close> of names is the form of a
  clip path, and of the directories above it.\<close>

definition is_name :: "string \<Rightarrow> bool" where
  "is_name n \<longleftrightarrow> n \<noteq> [] \<and> slash \<notin> set n"

lemma path_Split_eq: "p = fst (path_Split p) @ snd (path_Split p)"
  by (simp add: path_Split_def flip: rev_append)

lemma path_Split_app:
  assumes "slash \<notin> set n"
  shows "path_Split n = ([], n)" "path_Split (d @ slash # n) = (d @ ''/'', n)"
proof -
  have "slash \<notin> set m \<Longrightarrow>
      dropWhile (\<lambda>c. c \<noteq> slash) (m @ xs) = dropWhile (\<lambda>c. c \<noteq> slash) xs
      \<and> takeWhile (\<lambda>c. c \<noteq> slash) (m @ xs) = m @ takeWhile (\<lambda>c. c \<noteq> slash) xs" for m xs
    by (induction m) auto
  with assms have
    "dropWhile (\<lambda>c. c \<noteq> slash) (rev n @ xs) = dropWhile (\<lambda>c. c \<noteq> slash) xs"
    "takeWhile (\<lambda>c. c \<noteq> slash) (rev n @ xs) = rev n @ takeWhile (\<lambda>c. c \<noteq> slash) xs" for xs
    by simp_all
  note this(1) [of "[]"] this(2) [of "[]"] this(1) [of "slash # rev d"]
    this(2) [of "slash # rev d"]
  then show "path_Split n = ([], n)" "path_Split (d @ slash # n) = (d @ ''/'', n)"
    unfolding path_Split_def
    by (simp_all only: append_Nil2 dropWhile.simps takeWhile.simps rev_rev_ident rev.simps
        rev_append simp_thms if_False append_assoc append_Cons append_Nil)
qed

lemma join_names_ne:
  assumes "list_all is_name ps" "ps \<noteq> []"
  shows "join ''/'' ps \<noteq> []" "hd (join ''/'' ps) \<noteq> slash" "last (join ''/'' ps) \<noteq> slash"
proof -
  have "join ''/'' ps \<noteq> [] \<and> hd (join ''/'' ps) \<noteq> slash \<and> last (join ''/'' ps) \<noteq> slash"
    using assms
  proof (induction "''/''" ps rule: join.induct)
    case (2 s)
    then have "s \<noteq> []" "slash \<notin> set s" by (simp_all add: is_name_def)
    then have "hd s \<noteq> slash" "last s \<noteq> slash"
      by (metis hd_in_set) (metis \<open>s \<noteq> []\<close> \<open>slash \<notin> set s\<close> last_in_set)
    with \<open>s \<noteq> []\<close> show ?case by simp
  next
    case (3 s t ts)
    then have "s \<noteq> []" "hd s \<noteq> slash" by (auto simp: is_name_def) (metis hd_in_set)
    with 3 show ?case by simp
  qed simp
  then show "join ''/'' ps \<noteq> []" "hd (join ''/'' ps) \<noteq> slash" "last (join ''/'' ps) \<noteq> slash"
    by simp_all
qed

lemma trim_char_id:
  assumes "s = [] \<or> (hd s \<noteq> c \<and> last s \<noteq> c)"
  shows "trim_char c s = s"
proof -
  have "dropWhile (\<lambda>x. x = c) s = s" using assms by (cases s) auto
  moreover have "dropWhile (\<lambda>x. x = c) (rev s) = rev s"
    using assms by (cases s rule: rev_cases) auto
  ultimately show ?thesis by (simp add: trim_char_def)
qed

lemma trim_char_snoc:
  assumes "s \<noteq> []" "hd s \<noteq> c" "last s \<noteq> c"
  shows "trim_char c (s @ [c]) = s"
proof -
  have "dropWhile (\<lambda>x. x = c) (s @ [c]) = s @ [c]" using assms by (cases s) auto
  moreover have "dropWhile (\<lambda>x. x = c) (rev s) = rev s"
    using assms by (cases s rule: rev_cases) auto
  ultimately show ?thesis by (simp add: trim_char_def)
qed

text \<open>The directory part of a clip path, as the code cuts it.\<close>

definition dir_string :: "string list \<Rightarrow> string" where
  "dir_string ds = (if ds = [] then [] else join ''/'' ds @ ''/'')"

lemma path_Split_join:
  "is_name n \<Longrightarrow> path_Split (join ''/'' (ds @ [n])) = (dir_string ds, n)"
  by (cases "ds = []") (auto simp: dir_string_def join_append path_Split_app is_name_def)

lemma trim_dir_string: "list_all is_name ds \<Longrightarrow> trim_char slash (dir_string ds) = join ''/'' ds"
  by (cases "ds = []") (auto simp: dir_string_def trim_char_id trim_char_snoc join_names_ne)

lemma elements_join: "list_all is_name ds \<Longrightarrow> elements (join ''/'' ds) = ds"
proof (cases "ds = []")
  case False
  assume n: "list_all is_name ds"
  then have "list_all (\<lambda>p. slash \<notin> set p) ds" "filter (\<lambda>c. c \<noteq> []) ds = ds"
    by (auto simp: is_name_def list_all_iff filter_id_conv)
  with False show ?thesis by (simp add: elements_def split_on_join)
qed (simp add: elements_def)

lemma elements_names: "list_all is_name (elements p)"
  by (auto simp: elements_def list_all_iff is_name_def dest: split_on_parts)

subsection \<open>Clean\<close>

definition weight :: "string list \<Rightarrow> nat" where
  "weight ps = sum_list (map (\<lambda>p. length p + 1) ps)"

lemma weight_simps [simp]:
  "weight [] = 0" "weight (p # ps) = length p + 1 + weight ps"
  "weight (ps @ qs) = weight ps + weight qs"
  by (simp_all add: weight_def)

lemma weight_join: "ps \<noteq> [] \<Longrightarrow> length (join [c] ps) + 1 = weight ps"
  by (induction "[c]" ps rule: join.induct) auto

lemma weight_butlast: "weight (butlast ps) \<le> weight ps"
  by (cases ps rule: rev_cases) auto

lemma clean_step_weight: "weight (clean_step r out c) \<le> weight out + weight [c]"
  using weight_butlast [of out] by (auto simp: clean_step_def)

lemma clean_step_names: "list_all is_name out \<Longrightarrow> slash \<notin> set c \<Longrightarrow>
  list_all is_name (clean_step r out c)"
  by (cases out rule: rev_cases) (auto simp: clean_step_def is_name_def)

lemma clean_steps:
  assumes "list_all is_name out" "\<And>c. c \<in> set cs \<Longrightarrow> slash \<notin> set c"
  shows "list_all is_name (foldl (clean_step r) out cs)"
    and "weight (foldl (clean_step r) out cs) \<le> weight out + weight cs"
proof -
  have "list_all is_name (foldl (clean_step r) out cs)
    \<and> weight (foldl (clean_step r) out cs) \<le> weight out + weight cs"
    using assms
  proof (induction cs arbitrary: out)
    case (Cons c cs)
    have "list_all is_name (clean_step r out c)"
      using Cons.prems by (intro clean_step_names) auto
    from Cons.IH [OF this] Cons.prems(2) clean_step_weight [of r out c] show ?case by simp
  qed simp
  then show "list_all is_name (foldl (clean_step r) out cs)"
    "weight (foldl (clean_step r) out cs) \<le> weight out + weight cs" by simp_all
qed

lemma IsAbs_simps [simp]: "\<not> IsAbs []" "IsAbs (c # p) \<longleftrightarrow> c = slash"
  by (simp_all add: IsAbs_def HasPrefix_def)

lemma IsAbs_join: "list_all is_name ps \<Longrightarrow> \<not> IsAbs (join ''/'' ps)"
  using join_names_ne [of ps] by (cases "ps = []"; cases "join ''/'' ps") auto

text \<open>Cleaning a relative path that ends in a slash gives a shorter relative path.\<close>

lemma Clean_shorter:
  assumes "\<not> IsAbs (d @ ''/'')"
  shows "length (Clean (d @ ''/'')) \<le> length d" "Clean (d @ ''/'') \<noteq> []"
    "\<not> IsAbs (Clean (d @ ''/''))"
proof -
  let ?r = "IsAbs (d @ ''/'')"
  let ?out = "foldl (clean_step ?r) [] (split_on slash (d @ ''/''))"
  have ne: "d \<noteq> []" using assms by auto
  have eq: "?out = foldl (clean_step ?r) [] (split_on slash d)"
    by (simp add: split_on_append clean_step_def)
  have names: "list_all is_name ?out" and w: "weight ?out \<le> weight (split_on slash d)"
    unfolding eq using clean_steps [of "[]" "split_on slash d" ?r] split_on_parts by fastforce+
  have len: "length d + 1 = weight (split_on slash d)"
    using weight_join [of "split_on slash d" slash] by (simp add: join_split_on)
  have "length (Clean (d @ ''/'')) \<le> length d \<and> Clean (d @ ''/'') \<noteq> []
    \<and> \<not> IsAbs (Clean (d @ ''/''))"
  proof (cases "?out = []")
    case True
    with assms ne show ?thesis by (cases d) (auto simp: Clean_def Let_def)
  next
    case False
    then have "length (join ''/'' ?out) + 1 = weight ?out" by (rule weight_join)
    with False names w len assms show ?thesis
      by (simp add: Clean_def Let_def join_names_ne IsAbs_join)
  qed
  then show "length (Clean (d @ ''/'')) \<le> length d" "Clean (d @ ''/'') \<noteq> []"
    "\<not> IsAbs (Clean (d @ ''/''))" by simp_all
qed

text \<open>Elements that are neither dots nor empty stay as they are.\<close>

definition is_plain :: "string \<Rightarrow> bool" where
  "is_plain n \<longleftrightarrow> is_name n \<and> n \<noteq> ''.'' \<and> n \<noteq> ''..''"

text \<open>A clip's path below the mount.\<close>

definition clip_path :: "string \<Rightarrow> bool" where
  "clip_path p \<longleftrightarrow> elements p \<noteq> [] \<and> list_all is_plain (elements p) \<and> join ''/'' (elements p) = p"

lemma is_plain_name: "list_all is_plain ps \<Longrightarrow> list_all is_name ps"
  by (auto simp: list_all_iff is_plain_def)

lemma clean_plain: "list_all is_plain cs \<Longrightarrow> foldl (clean_step r) out cs = out @ cs"
  by (induction cs arbitrary: out) (auto simp: clean_step_def is_plain_def is_name_def)

lemma Clean_join:
  assumes "list_all is_plain ps" "ps \<noteq> []"
  shows "Clean (join ''/'' ps) = join ''/'' ps" "Clean (join ''/'' ps @ ''/'') = join ''/'' ps"
    "Clean (''/'' @ join ''/'' ps) = ''/'' @ join ''/'' ps"
proof -
  have names: "list_all is_name ps" using assms(1) by (rule is_plain_name)
  then have nosl: "list_all (\<lambda>p. slash \<notin> set p) ps" by (auto simp: list_all_iff is_name_def)
  note s = split_on_join [OF assms(2) nosl]
  note ne = join_names_ne [OF names assms(2)] IsAbs_join [OF names]
  have plain: "foldl (clean_step r) [] ps = ps" for r using clean_plain [OF assms(1)] by simp
  show "Clean (join ''/'' ps) = join ''/'' ps"
    by (simp add: Clean_def Let_def ne s plain)
  have "\<not> IsAbs (join ''/'' ps @ ''/'')" using ne by (cases "join ''/'' ps") auto
  then show "Clean (join ''/'' ps @ ''/'') = join ''/'' ps"
    by (simp add: Clean_def Let_def split_on_append s ne plain clean_step_def [of _ _ "[]"])
  show "Clean (''/'' @ join ''/'' ps) = ''/'' @ join ''/'' ps"
    by (simp add: Clean_def Let_def s plain clean_step_def [of _ _ "[]"])
qed

lemma clip_path_join: "list_all is_plain ps \<Longrightarrow> ps \<noteq> [] \<Longrightarrow> clip_path (join ''/'' ps)"
  by (simp add: clip_path_def elements_join is_plain_name)

subsection \<open>What Clean returns\<close>

definition abs_of :: "string list \<Rightarrow> string" where
  "abs_of ps = ''/'' @ join ''/'' ps"

definition rel_of :: "nat \<Rightarrow> string list \<Rightarrow> string" where
  "rel_of k ps = (if k = 0 \<and> ps = [] then ''.'' else join ''/'' (replicate k ''..'' @ ps))"

lemma foldl_clean_rooted:
  "list_all is_plain out \<Longrightarrow> list_all (\<lambda>c. slash \<notin> set c) cs \<Longrightarrow>
    list_all is_plain (foldl (clean_step True) out cs)"
proof (induction cs arbitrary: out)
  case (Cons c cs)
  have "list_all is_plain (butlast out)"
    using Cons.prems(1) by (auto simp: list_all_iff dest: in_set_butlastD)
  with Cons.prems have "list_all is_plain (clean_step True out c)"
    by (auto simp: clean_step_def is_plain_def [of c] is_name_def)
  with Cons show ?case by simp
qed simp

lemma foldl_clean_rel:
  "list_all is_plain ps \<Longrightarrow> list_all (\<lambda>c. slash \<notin> set c) cs \<Longrightarrow>
    \<exists>k' ps'. list_all is_plain ps' \<and>
      foldl (clean_step False) (replicate k ''..'' @ ps) cs = replicate k' ''..'' @ ps'"
proof (induction cs arbitrary: k ps)
  case (Cons c cs)
  have "\<exists>k' ps'. list_all is_plain ps' \<and> clean_step False (replicate k ''..'' @ ps) c = replicate k' ''..'' @ ps'"
  proof -
    consider "c = [] \<or> c = ''.''" | "c = ''..''" | "is_plain c"
      using Cons.prems(2) by (auto simp: is_plain_def is_name_def)
    then show ?thesis
    proof cases
      case 1
      with Cons.prems(1) show ?thesis
        by (intro exI [of _ k] exI [of _ ps]) (auto simp: clean_step_def)
    next
      case 2
      show ?thesis
      proof (cases ps rule: rev_cases)
        case Nil
        with 2 show ?thesis
          by (intro exI [of _ "Suc k"] exI [of _ "[]"])
            (cases k; simp add: clean_step_def replicate_append_same)
      next
        case (snoc qs q)
        with Cons.prems(1) have "q \<noteq> ''..''" "list_all is_plain qs" by (auto simp: is_plain_def [of q])
        with 2 snoc show ?thesis
          by (intro exI [of _ k] exI [of _ qs]) (simp add: clean_step_def butlast_append)
      qed
    next
      case 3
      with Cons.prems(1) show ?thesis
        by (intro exI [of _ k] exI [of _ "ps @ [c]"])
          (auto simp: clean_step_def is_plain_def [of c] is_name_def)
    qed
  qed
  with Cons show ?case by fastforce
qed (simp, blast)

lemma split_on_noslash: "list_all (\<lambda>c. slash \<notin> set c) (split_on slash p)"
  by (auto simp: list_all_iff dest: split_on_parts)

lemma Clean_abs:
  assumes "IsAbs p"
  obtains ps where "list_all is_plain ps" "Clean p = abs_of ps"
  using foldl_clean_rooted [of "[]", OF _ split_on_noslash [of p]] assms
  by (auto simp: Clean_def abs_of_def Let_def intro: that)

lemma Clean_rel:
  assumes "\<not> IsAbs p"
  obtains k ps where "list_all is_plain ps" "Clean p = rel_of k ps"
proof -
  obtain k ps where ps: "list_all is_plain ps"
    "foldl (clean_step False) [] (split_on slash p) = replicate k ''..'' @ ps"
    using foldl_clean_rel [of "[]" "split_on slash p" 0] split_on_noslash [of p] by auto
  have "list_all is_name (replicate k ''..'' @ ps)"
    using is_plain_name [OF ps(1)] by (auto simp: list_all_iff is_name_def)
  from join_names_ne(1) [OF this] ps assms show thesis
    by (intro that [of ps k]) (auto simp: Clean_def rel_of_def Let_def)
qed

lemma split_dotdot:
  assumes "q = ''..'' \<or> HasPrefix q ''../''"
  shows "''..'' \<in> set (split_on slash q)"
  using assms
proof
  assume "HasPrefix q ''../''"
  then have "q = ''..'' @ slash # drop 3 q"
    using append_take_drop_id [of 3 q] unfolding HasPrefix_def
    by (metis append_Cons append_Nil length_Cons list.size(3) numeral_3_eq_3)
  then have "split_on slash q = split_on slash ''..'' @ split_on slash (drop 3 q)"
    using split_on_append by metis
  then show ?thesis by simp
qed simp

lemma rel_of_up: "rel_of (Suc k) ps = ''..'' \<or> HasPrefix (rel_of (Suc k) ps) ''../''"
  by (cases "replicate k ''..'' @ ps") (auto simp: rel_of_def HasPrefix_def)

lemma IsLocal_rel_of:
  assumes "list_all is_plain ps"
  shows "IsLocal (rel_of k ps) \<longleftrightarrow> k = 0"
proof (cases "k = 0 \<and> ps = []")
  case True
  then show ?thesis by (simp add: rel_of_def IsLocal_def Clean_def clean_step_def HasPrefix_def)
next
  case False
  let ?cs = "replicate k ''..'' @ ps"
  have names: "list_all is_name ?cs" "?cs \<noteq> []"
    using is_plain_name [OF assms] False by (auto simp: list_all_iff is_name_def)
  have s: "split_on slash (join ''/'' ?cs) = ?cs"
    using names by (intro split_on_join) (auto simp: list_all_iff is_name_def)
  have r: "rel_of k ps = join ''/'' ?cs" using False by (auto simp: rel_of_def)
  have ne: "\<not> IsAbs (join ''/'' ?cs)" "join ''/'' ?cs \<noteq> []"
    using join_names_ne [OF names] IsAbs_join [OF names(1)] by auto
  show ?thesis
  proof (cases k)
    case 0
    with assms have "''..'' \<notin> set ps" "''.'' \<notin> set ps"
      by (auto simp: list_all_iff is_plain_def)
    with 0 have nd: "''..'' \<notin> set ?cs" "''.'' \<notin> set ?cs" by simp_all
    moreover from this(1) have "\<not> (join ''/'' ?cs = ''..'' \<or> HasPrefix (join ''/'' ?cs) ''../'')"
      using split_dotdot [of "join ''/'' ?cs"] unfolding s by blast
    ultimately have "IsLocal (join ''/'' ?cs)" using ne unfolding IsLocal_def Let_def s by simp
    then show ?thesis using 0 r by simp
  next
    case (Suc j)
    have "foldl (clean_step False) (replicate i ''..'') (replicate k ''..'') = replicate (i + k) ''..''" for i k
    proof (induction k arbitrary: i)
      case (Suc k)
      have "clean_step False (replicate i ''..'') ''..'' = replicate (Suc i) ''..''"
        by (cases i) (auto simp: clean_step_def replicate_append_same)
      with Suc.IH [of "Suc i"] show ?case by simp
    qed simp
    from this [of 0 k] have "foldl (clean_step False) [] ?cs = ?cs" by (simp add: clean_plain [OF assms])
    then have "Clean (join ''/'' ?cs) = join ''/'' ?cs"
      using ne s by (simp add: Clean_def Let_def)
    moreover have "join ''/'' ?cs = ''..'' \<or> HasPrefix (join ''/'' ?cs) ''../''"
      using rel_of_up [of j ps] Suc r by simp
    ultimately show ?thesis using ne s r Suc by (auto simp: IsLocal_def Let_def)
  qed
qed

lemma elements_abs_of: "list_all is_name ps \<Longrightarrow> elements (abs_of ps) = ps"
  using elements_join [of ps] by (simp add: elements_def abs_of_def)

lemma IsAbs_abs_of [simp]: "IsAbs (abs_of ps)"
  by (simp add: abs_of_def)

lemma split_abs_of:
  assumes "list_all is_name ps"
  shows "split_on slash (abs_of ps) = [] # (if ps = [] then [[]] else ps)"
proof -
  have "list_all (\<lambda>c. slash \<notin> set c) ps" using assms by (auto simp: list_all_iff is_name_def)
  then show ?thesis by (simp add: abs_of_def split_on_join)
qed

lemma Clean_abs_of_append:
  assumes "list_all is_plain rs" "list_all is_plain ds" "ds \<noteq> [] \<Longrightarrow> s = join ''/'' ds"
    "ds = [] \<Longrightarrow> s = ''.'' \<or> s = []"
  shows "Clean (abs_of rs @ slash # s) = abs_of (rs @ ds)"
proof -
  have nosl: "list_all (\<lambda>c. slash \<notin> set c) ds"
    using is_plain_name [OF assms(2)] by (auto simp: list_all_iff is_name_def)
  have "foldl (clean_step True) rs (split_on slash s) = rs @ ds"
    using assms(3,4) clean_plain [OF assms(2)] nosl
    by (cases "ds = []") (auto simp: split_on_join clean_step_def)
  moreover have "foldl (clean_step True) [] (split_on slash (abs_of rs)) = rs"
    using split_abs_of [OF is_plain_name [OF assms(1)]] clean_plain [OF assms(1), of True "[]"]
    by (auto simp: clean_step_def)
  ultimately have "foldl (clean_step True) [] (split_on slash (abs_of rs @ slash # s)) = rs @ ds"
    by (simp add: split_on_append)
  moreover have "IsAbs (abs_of rs @ slash # s)" by (simp add: abs_of_def)
  ultimately show ?thesis by (simp add: Clean_def Let_def abs_of_def)
qed

lemma Join_abs_of:
  assumes "list_all is_plain rs" "list_all is_plain ds" "s \<noteq> []" "s = rel_of 0 ds"
  shows "path_Join [abs_of rs, s] = abs_of (rs @ ds)"
  using Clean_abs_of_append [OF assms(1,2), of s] assms(3,4)
  by (simp add: path_Join_def abs_of_def rel_of_def split: if_splits)

lemma abs_of_inj:
  "list_all is_name ps \<Longrightarrow> list_all is_name qs \<Longrightarrow> abs_of ps = abs_of qs \<longleftrightarrow> ps = qs"
  using elements_abs_of by metis

lemma drop_common_append:
  "drop_common bs ts = (bs', ts') \<Longrightarrow> \<exists>cs. bs = cs @ bs' \<and> ts = cs @ ts'"
proof (induction bs ts arbitrary: bs' ts' rule: drop_common.induct)
  case (1 b bs t ts)
  show ?case
  proof (cases "b = t")
    case True
    with 1 obtain cs where "bs = cs @ bs'" "ts = cs @ ts'" by auto
    with True show ?thesis by (intro exI [of _ "b # cs"]) simp
  next
    case False
    with 1 show ?thesis by simp
  qed
qed auto

text \<open>\<open>Rel\<close> between absolute paths: a local result means that the target is below the base.\<close>

lemma Clean_abs_of:
  assumes "list_all is_plain rs"
  shows "Clean (abs_of rs) = abs_of rs"
  using clean_plain [OF assms, of True "[]"] split_abs_of [OF is_plain_name [OF assms]]
  by (auto simp: Clean_def Let_def abs_of_def clean_step_def)

lemma path_Rel_abs:
  assumes "list_all is_plain rs" "IsAbs p" "path_Rel (abs_of rs) p = Some rel"
  obtains k us where "list_all is_plain us" "rel = rel_of k us" "k = 0 \<Longrightarrow> Clean p = abs_of (rs @ us)"
proof -
  obtain ts where ts: "list_all is_plain ts" "Clean p = abs_of ts" using Clean_abs [OF assms(2)] .
  note cl = Clean_abs_of [OF assms(1)]
  have ab: "abs_of rs \<noteq> ''.''" by (simp add: abs_of_def)
  show thesis
  proof (cases "abs_of ts = abs_of rs")
    case True
    with assms(3) ts cl have "rel = ''.''" by (simp add: path_Rel_def)
    with True ts show thesis by (intro that [of "[]" 0]) (simp_all add: rel_of_def)
  next
    case False
    obtain bs us where dc: "drop_common rs ts = (bs, us)" by fastforce
    from drop_common_append [OF dc] obtain cs where cs: "rs = cs @ bs" "ts = cs @ us" by blast
    with False have "\<not> (length bs = 0 \<and> us = [])" by auto
    with assms(3) ts cl ab False dc have rel: "rel = rel_of (length bs) us"
      using elements_abs_of [OF is_plain_name [OF assms(1)]] elements_abs_of [OF is_plain_name [OF ts(1)]]
      by (auto simp: path_Rel_def Let_def rel_of_def split: if_splits)
    have us: "list_all is_plain us" using ts(1) cs by simp
    with rel cs ts show thesis by (intro that [of us "length bs"]) simp_all
  qed
qed

lemma path_Rel_local:
  assumes "list_all is_plain rs" "IsAbs p" "path_Rel (abs_of rs) p = Some rel" "IsLocal rel"
  obtains ds where "list_all is_plain ds" "rel = rel_of 0 ds" "Clean p = abs_of (rs @ ds)"
  using path_Rel_abs [OF assms(1-3)] assms(4) IsLocal_rel_of that by metis

subsection \<open>Joining names to an absolute path\<close>

lemma Join_abs_names:
  assumes "list_all is_plain rs" "rs \<noteq> []" "list_all is_plain ns" "ns \<noteq> []"
  shows "path_Join (abs_of rs # ns) = abs_of (rs @ ns)"
proof -
  have "path_Join (abs_of rs # ns) = Clean (abs_of rs @ slash # join ''/'' ns)"
    using assms(4) by (simp add: path_Join_def abs_of_def join_Cons)
  then show ?thesis using Clean_abs_of_append [OF assms(1,3)] assms(4) by simp
qed

lemma Dir_abs_names:
  assumes "list_all is_plain rs" "rs \<noteq> []" "is_plain n"
  shows "path_Dir (abs_of (rs @ [n])) = abs_of rs"
proof -
  have "slash \<notin> set n" using assms(3) by (simp add: is_plain_def is_name_def)
  then have "path_Split (abs_of rs @ slash # n) = (abs_of rs @ ''/'', n)" by (rule path_Split_app)
  moreover have "abs_of (rs @ [n]) = abs_of rs @ slash # n"
    using assms(2) by (simp add: abs_of_def join_append)
  ultimately show ?thesis
    using Clean_abs_of_append [OF assms(1), of "[]" "[]"] by (simp add: path_Dir_def)
qed

subsection \<open>The last element of a joined path\<close>

lemma Join_last:
  assumes "is_plain n"
  shows "snd (path_Split (path_Join (ds @ [n]))) = n"
proof -
  have n: "slash \<notin> set n" "n \<noteq> []" "is_name n"
    using assms by (simp_all add: is_plain_def is_name_def)
  have nosl: "\<And>c. c \<in> set (split_on slash d) \<Longrightarrow> slash \<notin> set c" for d by (rule split_on_parts)
  have last: "snd (path_Split (pre @ join ''/'' (out @ [n]))) = n"
    if "pre = [] \<or> pre = ''/''" for pre out
  proof -
    have "pre @ join ''/'' (out @ [n]) = n \<or> (\<exists>d. pre @ join ''/'' (out @ [n]) = d @ slash # n)"
      using that join_append [of out "[n]" "''/''"] by (cases "out = []") auto
    then show ?thesis using path_Split_app [OF n(1)] by auto
  qed
  have clean: "Clean (d @ slash # n) =
      (if IsAbs (d @ slash # n) then ''/'' else []) @ join ''/''
        (foldl (clean_step (IsAbs (d @ slash # n))) [] (split_on slash d) @ [n])" for d
  proof -
    let ?r = "IsAbs (d @ slash # n)" and ?out = "foldl (clean_step (IsAbs (d @ slash # n))) [] (split_on slash d)"
    have out: "foldl (clean_step ?r) [] (split_on slash (d @ slash # n)) = ?out @ [n]"
      using assms by (simp add: split_on_append split_on_none n clean_step_def is_plain_def)
    have "list_all is_name ?out" by (rule clean_steps(1)) (auto dest: split_on_parts)
    then have "join ''/'' (?out @ [n]) \<noteq> []" using n(3) by (intro join_names_ne(1)) auto
    with out show ?thesis by (simp add: Clean_def Let_def)
  qed
  let ?ds = "dropWhile (\<lambda>e. e = []) ds"
  have w: "dropWhile (\<lambda>e. e = []) (ds @ [n]) = ?ds @ [n]"
    using n(2) by (induction ds) auto
  show ?thesis
  proof (cases "?ds = []")
    case True
    have "Clean n = join ''/'' [n]"
      using Clean_join(1) [of "[n]"] assms by simp
    with True w n last [of "[]" "[]"] show ?thesis by (simp add: path_Join_def)
  next
    case False
    then have "path_Join (ds @ [n]) = Clean (join ''/'' ?ds @ slash # n)"
      using w join_append [OF False, of "[n]" "''/''"] by (cases "?ds @ [n]") (simp_all add: path_Join_def)
    then show ?thesis using clean [of "join ''/'' ?ds"] last by (simp del: last_snoc)
  qed
qed

lemma Join_name: "is_plain n \<Longrightarrow> snd (path_Split (path_Join [dir, n])) = n"
  using Join_last [of n "[dir]"] by simp

lemma Join_inj: "is_plain n \<Longrightarrow> is_plain m \<Longrightarrow> path_Join [dir, n] = path_Join [dir, m] \<longleftrightarrow> n = m"
  using Join_name by metis

end
