(* ===== verification/Sink.thy ===== *)
theory Sink
  imports Layout
begin

text \<open>
  The interface \<open>Sink\<close> of \<^verbatim>\<open>internal/engine/engine.go\<close>, through which the engine publishes the
  clips that are ready.  \<open>clips\<close> is what a sink shows for each clip path.
\<close>

locale clip_sink =
  fixes set_clip :: "string \<Rightarrow> layout \<Rightarrow> byte list option \<Rightarrow> int \<Rightarrow> 's \<Rightarrow> 's"
    and remove_clip :: "string \<Rightarrow> 's \<Rightarrow> 's"
    and clips :: "'s \<Rightarrow> string \<Rightarrow> (layout \<times> byte list option \<times> int) option"
  assumes clips_set: "clips (set_clip p l nfo t s) = (clips s)(p \<mapsto> (l, nfo, t))"
    and clips_remove: "clips (remove_clip p s) = (clips s)(p := None)"
begin

lemma clips_foldl_remove:
  "clips (foldl (\<lambda>s p. remove_clip p s) s ps) p = (if p \<in> set ps then None else clips s p)"
  by (induction ps arbitrary: s) (auto simp: clips_remove)

lemma clips_replace: "clips (set_clip p l nfo t (remove_clip p s)) = clips (set_clip p l nfo t s)"
  by (simp add: clips_set clips_remove)

end

end
