(* ===== verification/Clipfs.thy ===== *)
theory Clipfs
  imports Sink Paths "HOL-Library.AList" "HOL-Library.Multiset"
begin

text \<open>
  \<^verbatim>\<open>internal/clipfs/clipfs.go\<close>: the read-only file system that shows the clips.  \<open>Root\<close>
  keeps the entries by clip path and, once mounted, a tree of inodes with a file
  \<open><clip>.mkv\<close>, an optional \<open><clip>.nfo\<close> and the directories above them.

  The inode tree belongs to the library \<open>go-fuse\<close>: it is the parameter \<open>ops\<close>, and the
  locale \<open>inode_tree\<close> states what its documentation promises (a new inode has no parent and
  no children, \<open>AddChild\<close> and \<open>RmChild\<close> change one entry of one directory).  It is
  interpreted on a concrete heap of inodes.  \<open>NotifyEntry\<close>, which tells the kernel to drop
  a cached directory entry, is recorded in \<open>r_notes\<close>.
\<close>

section \<open>State\<close>

type_synonym ino = nat

record entry =
  e_layout :: layout
  e_nfo :: "byte list option"
  e_nfo_time :: int

text \<open>What an inode embeds; the pointer back to the root is left out.\<close>

datatype node =
    RootNode
  | DirNode
  | StaticNode "byte list" int
  | ClipNode string layout

text \<open>The operations of \<open>fs.Inode\<close> on a store \<open>'f\<close> of inodes.  \<open>Operations\<close> gives what an
  inode embeds.\<close>

record 'f inode_ops =
  RootInode :: ino
  GetChild :: "'f \<Rightarrow> ino \<Rightarrow> string \<Rightarrow> ino option"
  NewPersistentInode :: "'f \<Rightarrow> node \<Rightarrow> u32 \<Rightarrow> ino \<times> 'f"
  AddChild :: "'f \<Rightarrow> ino \<Rightarrow> string \<Rightarrow> ino \<Rightarrow> bool \<Rightarrow> 'f"
  RmChild :: "'f \<Rightarrow> ino \<Rightarrow> string \<Rightarrow> 'f"
  Children :: "'f \<Rightarrow> ino \<Rightarrow> (string \<times> ino) list"
  Operations :: "'f \<Rightarrow> ino \<Rightarrow> node option"

record 'f root =
  r_uid :: u32
  r_gid :: u32
  r_created :: int
  r_on_stale :: bool
  r_entries :: "(string \<times> entry) list"
  r_mounted :: bool
  r_tree :: 'f
  r_notes :: "(ino \<times> string) list"

definition New :: "u32 \<Rightarrow> u32 \<Rightarrow> bool \<Rightarrow> int \<Rightarrow> 'f \<Rightarrow> 'f root" where
  "New uid gid on_stale now f =
     \<lparr>r_uid = uid, r_gid = gid, r_created = now, r_on_stale = on_stale, r_entries = [],
      r_mounted = False, r_tree = f, r_notes = []\<rparr>"

section \<open>The tree\<close>

definition S_IFDIR :: u32 where "S_IFDIR = 0x4000"
definition S_IFREG :: u32 where "S_IFREG = 0x8000"

fun walk :: "'f inode_ops \<Rightarrow> 'f \<Rightarrow> ino \<Rightarrow> string list \<Rightarrow> ino option" where
  "walk ops f node [] = Some node"
| "walk ops f node (part # parts) =
     (if part = [] then walk ops f node parts
      else (case GetChild ops f node part of
          None \<Rightarrow> None
        | Some child \<Rightarrow> walk ops f child parts))"

definition lookupDir :: "'f inode_ops \<Rightarrow> 'f \<Rightarrow> string \<Rightarrow> ino option" where
  "lookupDir ops f dir = walk ops f (RootInode ops) (split_on slash (trim_char slash dir))"

definition NotifyEntry :: "ino \<Rightarrow> string \<Rightarrow> 'f root \<Rightarrow> 'f root" where
  "NotifyEntry i n R = R\<lparr>r_notes := r_notes R @ [(i, n)]\<rparr>"

text \<open>The first loop of \<open>place\<close>: the directories above the clip, made where missing.\<close>

fun place_dirs ::
  "'f inode_ops \<Rightarrow> bool \<Rightarrow> 'f root \<Rightarrow> ino \<Rightarrow> string list \<Rightarrow> 'f root \<times> ino" where
  "place_dirs ops notify R parent [] = (R, parent)"
| "place_dirs ops notify R parent (part # parts) =
     (if part = [] then place_dirs ops notify R parent parts
      else (case GetChild ops (r_tree R) parent part of
          Some child \<Rightarrow> place_dirs ops notify R child parts
        | None \<Rightarrow>
            (case NewPersistentInode ops (r_tree R) DirNode S_IFDIR of
               (child, f) \<Rightarrow>
                 let R1 = R\<lparr>r_tree := AddChild ops f parent part child False\<rparr>;
                     R2 = (if notify then NotifyEntry parent part R1 else R1)
                 in place_dirs ops notify R2 child parts)))"

text \<open>The closure \<open>set\<close> of \<open>place\<close>.\<close>

definition place_set ::
  "'f inode_ops \<Rightarrow> bool \<Rightarrow> ino \<Rightarrow> string \<Rightarrow> node \<Rightarrow> 'f root \<Rightarrow> 'f root" where
  "place_set ops notify parent n node R =
     (case NewPersistentInode ops (r_tree R) node S_IFREG of
        (child, f) \<Rightarrow>
          let R1 = R\<lparr>r_tree := AddChild ops f parent n child True\<rparr>
          in if notify then NotifyEntry parent n R1 else R1)"

definition drop_child :: "'f inode_ops \<Rightarrow> bool \<Rightarrow> ino \<Rightarrow> string \<Rightarrow> 'f root \<Rightarrow> 'f root" where
  "drop_child ops notify parent n R =
     (if GetChild ops (r_tree R) parent n \<noteq> None
      then (let R1 = R\<lparr>r_tree := RmChild ops (r_tree R) parent n\<rparr>
            in if notify then NotifyEntry parent n R1 else R1)
      else R)"

definition place :: "'f inode_ops \<Rightarrow> string \<Rightarrow> entry \<Rightarrow> bool \<Rightarrow> 'f root \<Rightarrow> 'f root" where
  "place ops clipPath e notify R =
     (case path_Split clipPath of (dir, name) \<Rightarrow>
      (case place_dirs ops notify R (RootInode ops) (split_on slash (trim_char slash dir)) of
         (R1, parent) \<Rightarrow>
           let R2 = place_set ops notify parent (name @ ''.mkv'')
                      (ClipNode clipPath (e_layout e)) R1
           in (case e_nfo e of
                 Some d \<Rightarrow> place_set ops notify parent (name @ ''.nfo'')
                             (StaticNode d (e_nfo_time e)) R2
               | None \<Rightarrow> drop_child ops notify parent (name @ ''.nfo'') R2)))"

text \<open>\<open>prune\<close> removes empty directories upwards; \<open>None\<close> is a loop that does not end.\<close>

partial_function (option) prune_loop ::
  "'f inode_ops \<Rightarrow> string \<Rightarrow> 'f root \<Rightarrow> 'f root option" where
  "prune_loop ops dir R =
     (if dir = [] then Some R
      else (case lookupDir ops (r_tree R) dir of
          None \<Rightarrow> Some R
        | Some node \<Rightarrow>
            if Children ops (r_tree R) node \<noteq> [] then Some R
            else (case lookupDir ops (r_tree R) (fst (path_Split dir)) of
                None \<Rightarrow> Some R
              | Some parent \<Rightarrow>
                  let name = snd (path_Split dir);
                      R1 = NotifyEntry parent name
                             (R\<lparr>r_tree := RmChild ops (r_tree R) parent name\<rparr>)
                  in if fst (path_Split dir) = [] then Some R1
                     else prune_loop ops (path_Dir dir) R1)))"

definition prune :: "'f inode_ops \<Rightarrow> string \<Rightarrow> 'f root \<Rightarrow> 'f root option" where
  "prune ops dir R = prune_loop ops (trim_char slash dir) R"

section \<open>Operations of the root\<close>

text \<open>\<open>OnAdd\<close> goes over a map, in any \<open>order\<close>.\<close>

definition OnAdd :: "'f inode_ops \<Rightarrow> (string \<times> entry) list \<Rightarrow> 'f root \<Rightarrow> 'f root" where
  "OnAdd ops order R =
     (foldl (\<lambda>R (p, e). place ops p e False R) R order)\<lparr>r_mounted := True\<rparr>"

definition SetClip ::
  "'f inode_ops \<Rightarrow> string \<Rightarrow> layout \<Rightarrow> byte list option \<Rightarrow> int \<Rightarrow> 'f root \<Rightarrow> 'f root" where
  "SetClip ops clipPath l nfo nfoTime R =
     (let e = \<lparr>e_layout = l, e_nfo = nfo, e_nfo_time = nfoTime\<rparr>;
          R1 = R\<lparr>r_entries := AList.update clipPath e (r_entries R)\<rparr>
      in if r_mounted R then place ops clipPath e True R1 else R1)"

definition RemoveClip :: "'f inode_ops \<Rightarrow> string \<Rightarrow> 'f root \<Rightarrow> 'f root option" where
  "RemoveClip ops clipPath R =
     (if map_of (r_entries R) clipPath = None then Some R
      else let R1 = R\<lparr>r_entries := AList.delete clipPath (r_entries R)\<rparr>
           in if \<not> r_mounted R then Some R1
              else (case path_Split clipPath of (dir, name) \<Rightarrow>
                (case lookupDir ops (r_tree R1) dir of
                   None \<Rightarrow> Some R1
                 | Some parent \<Rightarrow>
                     prune ops dir
                       (drop_child ops True parent (name @ ''.nfo'')
                         (drop_child ops True parent (name @ ''.mkv'') R1)))))"

definition Len :: "'f root \<Rightarrow> nat" where
  "Len R = length (r_entries R)"

section \<open>Attributes\<close>

record attr =
  a_mode :: u32
  a_size :: u64
  a_uid :: u32
  a_gid :: u32
  a_nlink :: u32
  a_times :: "int \<times> int \<times> int"
  a_blksize :: u32
  a_blocks :: u64

definition fill :: "'f root \<Rightarrow> u32 \<Rightarrow> u64 \<Rightarrow> int \<Rightarrow> attr" where
  "fill R mode sz mtime =
     \<lparr>a_mode = mode, a_size = sz, a_uid = r_uid R, a_gid = r_gid R, a_nlink = 1,
      a_times = (mtime, mtime, mtime), a_blksize = push_bit 16 1, a_blocks = (sz + 511) div 512\<rparr>"

text \<open>The \<open>Getattr\<close> of each kind of node.\<close>

definition Getattr_root :: "'f root \<Rightarrow> attr" where
  "Getattr_root R = fill R (S_IFDIR OR 0x16D) 0 (r_created R)"

definition Getattr_dir :: "'f root \<Rightarrow> attr" where
  "Getattr_dir R = fill R (S_IFDIR OR 0x16D) 0 (r_created R)"

definition Getattr_static :: "'f root \<Rightarrow> byte list \<Rightarrow> int \<Rightarrow> attr" where
  "Getattr_static R d mtime = fill R (S_IFREG OR 0x124) (of_nat (length d)) mtime"

definition Getattr_clip :: "'f root \<Rightarrow> layout \<Rightarrow> attr" where
  "Getattr_clip R l = fill R (S_IFREG OR 0x124) (of_int (l_size l)) (l_built l)"

definition Getattr :: "'f root \<Rightarrow> node \<Rightarrow> attr" where
  "Getattr R nd =
     (case nd of
        RootNode \<Rightarrow> Getattr_root R
      | DirNode \<Rightarrow> Getattr_dir R
      | StaticNode d mtime \<Rightarrow> Getattr_static R d mtime
      | ClipNode p l \<Rightarrow> Getattr_clip R l)"

record statfs =
  s_blocks :: u64
  s_bfree :: u64
  s_bsize :: u32
  s_namelen :: u32

definition Statfs :: "statfs \<Rightarrow> statfs" where
  "Statfs out = out\<lparr>s_bsize := push_bit 16 1, s_namelen := 255\<rparr>"

section \<open>Opening and reading\<close>

definition O_WRONLY :: u32 where "O_WRONLY = 1"
definition O_RDWR :: u32 where "O_RDWR = 2"
definition ENOENT :: nat where "ENOENT = 2"
definition EIO :: nat where "EIO = 5"
definition EROFS :: nat where "EROFS = 30"

text \<open>\<open>errors.As(err, &e)\<close> for an \<open>Errno\<close> finds one in the error or does not.\<close>

definition errno :: "nat option \<Rightarrow> nat" where
  "errno a = (case a of Some e \<Rightarrow> e | None \<Rightarrow> EIO)"

text \<open>The flag of the kernel's FUSE protocol that keeps the pages cached at an earlier open.\<close>

definition FOPEN_KEEP_CACHE :: u32 where "FOPEN_KEEP_CACHE = 2"

definition static_Open :: "u32 \<Rightarrow> u32 \<times> nat" where
  "static_Open flags =
     (if flags AND (O_WRONLY OR O_RDWR) \<noteq> 0 then (0, EROFS) else (FOPEN_KEEP_CACHE, 0))"

text \<open>\<open>None\<close> is a slice bound out of range.\<close>

definition static_Read :: "byte list \<Rightarrow> nat \<Rightarrow> int \<Rightarrow> byte list option" where
  "static_Read data n off =
     (if int (length data) \<le> off then Some []
      else let to = min (int (length data)) (off + int n)
           in if off < 0 \<or> to < off then None
              else Some (take (nat (to - off)) (drop (nat off) data)))"

text \<open>\<open>os.Open\<close> fails with an \<open>Errno\<close> or without one.  The result is the error or the handle,
  and the clip paths for which \<open>onStale\<close> was called.\<close>

definition clip_Open ::
  "'f root \<Rightarrow> string \<Rightarrow> layout \<Rightarrow> (string \<Rightarrow> nat option + 'h) \<Rightarrow> ('h \<Rightarrow> string + file_info) \<Rightarrow>
   u32 \<Rightarrow> (nat + ('h \<times> layout) \<times> u32) \<times> string list" where
  "clip_Open R path l os_open fstat flags =
     (if flags AND (O_WRONLY OR O_RDWR) \<noteq> 0 then (Inl EROFS, [])
      else (case os_open (f_path (l_data l)) of
          Inl a \<Rightarrow>
            (Inl (errno a), if a = Some ENOENT \<and> r_on_stale R then [path] else [])
        | Inr f \<Rightarrow>
            if \<not> Matches (l_data l) (fstat f)
            then (Inl EIO, if r_on_stale R then [path] else [])
            else (Inr ((f, l), FOPEN_KEEP_CACHE), [])))"

text \<open>\<open>as_errno\<close> is \<open>errors.As\<close> on a read error.\<close>

definition clip_Read ::
  "(io_err \<Rightarrow> nat option) \<Rightarrow> layout \<Rightarrow> reader \<Rightarrow> byte list \<Rightarrow> int \<Rightarrow> (nat + byte list) option" where
  "clip_Read as_errno l f dest off =
     (case ReadAt l dest off f of
        None \<Rightarrow> None
      | Some (buf, n, err) \<Rightarrow>
          (case err of
             None \<Rightarrow> Some (Inr (take n buf))
           | Some e \<Rightarrow> if e = EOF then Some (Inr (take n buf)) else Some (Inl (errno (as_errno e)))))"

section \<open>What go-fuse promises\<close>

text \<open>\<open>wf\<close> is the library's own consistency of its inodes.\<close>

locale inode_tree =
  fixes ops :: "'f inode_ops" and wf :: "'f \<Rightarrow> bool"
  assumes root_known: "wf f \<Longrightarrow> Operations ops f (RootInode ops) \<noteq> None"
    and child_known: "wf f \<Longrightarrow> GetChild ops f i n = Some c \<Longrightarrow> Operations ops f c \<noteq> None"
    and new_inode: "wf f \<Longrightarrow> NewPersistentInode ops f nd mode = (c, f') \<Longrightarrow>
      wf f' \<and> Operations ops f c = None \<and> Operations ops f' = (Operations ops f)(c \<mapsto> nd)
      \<and> GetChild ops f' = GetChild ops f \<and> GetChild ops f c = Map.empty"
    and add_child: "wf f \<Longrightarrow> Operations ops f i \<noteq> None \<Longrightarrow> Operations ops f c \<noteq> None \<Longrightarrow>
      wf (AddChild ops f i n c overwrite)
      \<and> Operations ops (AddChild ops f i n c overwrite) = Operations ops f
      \<and> GetChild ops (AddChild ops f i n c overwrite) =
          (if overwrite \<or> GetChild ops f i n = None
           then (GetChild ops f)(i := (GetChild ops f i)(n \<mapsto> c)) else GetChild ops f)"
    and rm_child: "wf f \<Longrightarrow> Operations ops f i \<noteq> None \<Longrightarrow>
      wf (RmChild ops f i n) \<and> Operations ops (RmChild ops f i n) = Operations ops f
      \<and> GetChild ops (RmChild ops f i n) = (GetChild ops f)(i := (GetChild ops f i)(n := None))"
    and children: "wf f \<Longrightarrow> Children ops f i = [] \<longleftrightarrow> GetChild ops f i = Map.empty"

text \<open>The instance: inodes numbered in the order of their creation, the root first.\<close>

record heap =
  h_nodes :: "node list"
  h_children :: "ino \<Rightarrow> (string \<times> ino) list"

definition heap_ops :: "heap inode_ops" where
  "heap_ops =
     \<lparr>RootInode = 0,
      GetChild = (\<lambda>h i n. map_of (h_children h i) n),
      NewPersistentInode = (\<lambda>h nd mode.
        (length (h_nodes h), h\<lparr>h_nodes := h_nodes h @ [nd]\<rparr>)),
      AddChild = (\<lambda>h i n c overwrite.
        if overwrite \<or> map_of (h_children h i) n = None
        then h\<lparr>h_children := (h_children h)(i := AList.update n c (h_children h i))\<rparr> else h),
      RmChild = (\<lambda>h i n. h\<lparr>h_children := (h_children h)(i := AList.delete n (h_children h i))\<rparr>),
      Children = (\<lambda>h i. h_children h i),
      Operations = (\<lambda>h i. if i < length (h_nodes h) then Some (h_nodes h ! i) else None)\<rparr>"

definition heap_wf :: "heap \<Rightarrow> bool" where
  "heap_wf h \<longleftrightarrow> h_nodes h \<noteq> [] \<and> (\<forall>i\<ge>length (h_nodes h). h_children h i = [])
     \<and> (\<forall>i. \<forall>c \<in> snd ` set (h_children h i). c < length (h_nodes h))"

definition empty_heap :: heap where
  "empty_heap = \<lparr>h_nodes = [RootNode], h_children = (\<lambda>_. [])\<rparr>"

lemma heap_wf_update:
  assumes "heap_wf h" "i < length (h_nodes h)" "c < length (h_nodes h)"
  shows "heap_wf (h\<lparr>h_children := (h_children h)(i := AList.update n c (h_children h i))\<rparr>)"
proof -
  have "snd ` set (AList.update n c xs) \<subseteq> insert c (snd ` set xs)" for xs :: "(string \<times> ino) list"
    by (induction xs) auto
  with assms show ?thesis by (fastforce simp: heap_wf_def)
qed

lemma heap_wf_delete:
  assumes "heap_wf h" "i < length (h_nodes h)"
  shows "heap_wf (h\<lparr>h_children := (h_children h)(i := AList.delete n (h_children h i))\<rparr>)"
proof -
  have "snd ` set (AList.delete n xs) \<subseteq> snd ` set xs" for xs :: "(string \<times> ino) list"
    by (auto simp: AList.delete_eq)
  with assms show ?thesis by (fastforce simp: heap_wf_def)
qed

interpretation heap: inode_tree heap_ops heap_wf
proof
  fix f i n c
  assume wf: "heap_wf f"
  then show "Operations heap_ops f (RootInode heap_ops) \<noteq> None"
    by (simp add: heap_ops_def heap_wf_def)
  show "GetChild heap_ops f i n = Some c \<Longrightarrow> Operations heap_ops f c \<noteq> None"
    using wf by (force simp: heap_ops_def heap_wf_def dest: map_of_SomeD)
  show "Children heap_ops f i = [] \<longleftrightarrow> GetChild heap_ops f i = Map.empty"
    by (cases "h_children f i") (auto simp: heap_ops_def fun_eq_iff split: if_splits)
next
  fix f nd mode c f'
  assume "heap_wf f" "NewPersistentInode heap_ops f nd mode = (c, f')"
  then show "heap_wf f' \<and> Operations heap_ops f c = None
      \<and> Operations heap_ops f' = (Operations heap_ops f)(c \<mapsto> nd)
      \<and> GetChild heap_ops f' = GetChild heap_ops f \<and> GetChild heap_ops f c = Map.empty"
    by (fastforce simp: heap_ops_def heap_wf_def nth_append fun_eq_iff less_Suc_eq)
next
  fix f i c n overwrite
  assume wf: "heap_wf f" and i: "Operations heap_ops f i \<noteq> None"
  then have lt: "i < length (h_nodes f)" by (simp add: heap_ops_def split: if_splits)
  show "heap_wf (RmChild heap_ops f i n)
      \<and> Operations heap_ops (RmChild heap_ops f i n) = Operations heap_ops f
      \<and> GetChild heap_ops (RmChild heap_ops f i n)
        = (GetChild heap_ops f)(i := (GetChild heap_ops f i)(n := None))"
    using heap_wf_delete [OF wf lt, of n]
    by (simp add: heap_ops_def fun_eq_iff AList.delete_conv)
  assume "Operations heap_ops f c \<noteq> None"
  then have "c < length (h_nodes f)" by (simp add: heap_ops_def split: if_splits)
  from heap_wf_update [OF wf lt this, of n] wf
  show "heap_wf (AddChild heap_ops f i n c overwrite)
      \<and> Operations heap_ops (AddChild heap_ops f i n c overwrite) = Operations heap_ops f
      \<and> GetChild heap_ops (AddChild heap_ops f i n c overwrite) =
          (if overwrite \<or> GetChild heap_ops f i n = None
           then (GetChild heap_ops f)(i := (GetChild heap_ops f i)(n \<mapsto> c))
           else GetChild heap_ops f)"
    by (simp add: heap_ops_def fun_eq_iff AList.update_conv')
qed

section \<open>Paths in the tree\<close>

fun resolve :: "'f inode_ops \<Rightarrow> 'f \<Rightarrow> ino \<Rightarrow> string list \<Rightarrow> ino option" where
  "resolve ops f i [] = Some i"
| "resolve ops f i (p # ps) =
     (case GetChild ops f i p of None \<Rightarrow> None | Some c \<Rightarrow> resolve ops f c ps)"

definition view :: "'f inode_ops \<Rightarrow> 'f \<Rightarrow> string list \<Rightarrow> node option" where
  "view ops f ps =
     (case resolve ops f (RootInode ops) ps of None \<Rightarrow> None | Some i \<Rightarrow> Operations ops f i)"

lemma walk_resolve: "walk ops f i ps = resolve ops f i (filter (\<lambda>p. p \<noteq> []) ps)"
  by (induction ps arbitrary: i) (auto split: option.splits)

lemma lookupDir_resolve:
  "lookupDir ops f dir = resolve ops f (RootInode ops) (elements (trim_char slash dir))"
  by (simp add: lookupDir_def walk_resolve elements_def)

lemma resolve_append:
  "resolve ops f i (ps @ qs) = Option.bind (resolve ops f i ps) (\<lambda>j. resolve ops f j qs)"
  by (induction ps arbitrary: i) (auto split: option.splits)

lemma resolve_snoc:
  "resolve ops f i (ps @ [p]) = Option.bind (resolve ops f i ps) (\<lambda>j. GetChild ops f j p)"
  by (cases "resolve ops f i ps") (simp_all add: resolve_append split: option.splits)

text \<open>The inodes form a tree: the root is nobody's child, and every other inode is the child
  of at most one directory, under one name.\<close>

definition tree :: "'f inode_ops \<Rightarrow> 'f \<Rightarrow> bool" where
  "tree ops f \<longleftrightarrow>
     (\<forall>i n j m c. GetChild ops f i n = Some c \<and> GetChild ops f j m = Some c \<longrightarrow> i = j \<and> n = m)
     \<and> (\<forall>i n. GetChild ops f i n \<noteq> Some (RootInode ops))"

lemma resolve_inj:
  assumes "tree ops f" "resolve ops f (RootInode ops) p = Some i"
    "resolve ops f (RootInode ops) q = Some i"
  shows "p = q"
  using assms(2,3)
proof (induction p arbitrary: q i rule: rev_induct)
  case Nil
  then have "i = RootInode ops" by simp
  with Nil(2) assms(1) show ?case
    by (cases q rule: rev_cases) (simp_all add: resolve_snoc tree_def bind_eq_Some_conv)
next
  case (snoc x p)
  from snoc.prems(1) obtain j where j: "resolve ops f (RootInode ops) p = Some j"
    "GetChild ops f j x = Some i"
    by (auto simp: resolve_snoc bind_eq_Some_conv)
  show ?case
  proof (cases q rule: rev_cases)
    case Nil
    with snoc.prems(2) j(2) assms(1) show ?thesis by (simp add: tree_def)
  next
    case (snoc q' y)
    with snoc.prems(2) obtain k where k: "resolve ops f (RootInode ops) q' = Some k"
      "GetChild ops f k y = Some i"
      by (auto simp: resolve_snoc bind_eq_Some_conv)
    with j assms(1) have "j = k" "x = y" unfolding tree_def by blast+
    with j k snoc.IH [of j q'] snoc show ?thesis by simp
  qed
qed

lemma tree_I:
  assumes "\<And>i n j m c. GetChild ops f i n = Some c \<Longrightarrow> GetChild ops f j m = Some c \<Longrightarrow>
      i = j \<and> n = m"
    and "\<And>i n. GetChild ops f i n \<noteq> Some (RootInode ops)"
  shows "tree ops f"
  using assms by (fastforce simp: tree_def)

lemma tree_parent:
  "tree ops f \<Longrightarrow> GetChild ops f i n = Some c \<Longrightarrow> GetChild ops f j m = Some c \<Longrightarrow> i = j \<and> n = m"
  unfolding tree_def by blast

lemma tree_root: "tree ops f \<Longrightarrow> GetChild ops f i n \<noteq> Some (RootInode ops)"
  unfolding tree_def by blast

text \<open>How the paths change when an entry of a directory is set to a new inode or removed.\<close>

context inode_tree
begin

lemma resolve_known:
  assumes "wf f" "resolve ops f (RootInode ops) p = Some i"
  shows "Operations ops f i \<noteq> None"
  using assms(2)
proof (induction p arbitrary: i rule: rev_induct)
  case Nil
  with root_known [OF assms(1)] show ?case by simp
next
  case (snoc x p)
  with child_known [OF assms(1)] show ?case by (auto simp: resolve_snoc bind_eq_Some_conv)
qed

lemma resolve_at:
  assumes "tree ops f" "resolve ops f (RootInode ops) p = Some i"
    "resolve ops f (RootInode ops) q = Some j"
  shows "j = i \<longleftrightarrow> q = p"
  using assms resolve_inj [OF assms(1,2)] by (metis option.inject)

lemma resolve_set:
  assumes wf: "wf f" and t: "tree ops f" and i: "resolve ops f (RootInode ops) p = Some i"
    and c: "Operations ops f c = None" and cc: "GetChild ops f c = Map.empty"
    and g: "GetChild ops f' = (GetChild ops f)(i := (GetChild ops f i)(n \<mapsto> c))"
  shows "resolve ops f' (RootInode ops) q =
    (if prefix (p @ [n]) q then (if q = p @ [n] then Some c else None)
     else resolve ops f (RootInode ops) q)"
proof (induction q rule: rev_induct)
  case (snoc m q)
  have ci: "c \<noteq> i" using resolve_known [OF wf i] c by auto
  show ?case
  proof (cases "prefix (p @ [n]) q")
    case True
    then have "prefix (p @ [n]) (q @ [m])" "q @ [m] \<noteq> p @ [n]"
      by (simp, metis prefix_length_le length_append_singleton Suc_n_not_le_n)
    with True snoc ci show ?thesis by (simp add: resolve_snoc g cc)
  next
    case False
    with snoc have IH: "resolve ops f' (RootInode ops) q = resolve ops f (RootInode ops) q"
      by simp
    show ?thesis
    proof (cases "resolve ops f (RootInode ops) q")
      case None
      with IH i show ?thesis by (auto simp: resolve_snoc)
    next
      case (Some j)
      with resolve_at [OF t i Some] IH False show ?thesis by (auto simp: resolve_snoc g)
    qed
  qed
qed simp

lemma resolve_unset:
  assumes t: "tree ops f" and i: "resolve ops f (RootInode ops) p = Some i"
    and g: "GetChild ops f' = (GetChild ops f)(i := (GetChild ops f i)(n := None))"
  shows "resolve ops f' (RootInode ops) q =
    (if prefix (p @ [n]) q then None else resolve ops f (RootInode ops) q)"
proof (induction q rule: rev_induct)
  case (snoc m q)
  show ?case
  proof (cases "prefix (p @ [n]) q")
    case True
    with snoc show ?thesis by (simp add: resolve_snoc)
  next
    case False
    with snoc have IH: "resolve ops f' (RootInode ops) q = resolve ops f (RootInode ops) q"
      by simp
    show ?thesis
    proof (cases "resolve ops f (RootInode ops) q")
      case None
      with IH i show ?thesis by (auto simp: resolve_snoc)
    next
      case (Some j)
      with resolve_at [OF t i Some] IH False show ?thesis by (auto simp: resolve_snoc g)
    qed
  qed
qed simp

lemma attach:
  assumes wf: "wf f" and t: "tree ops f" and i: "resolve ops f (RootInode ops) p = Some i"
    and new: "NewPersistentInode ops f nd mode = (c, f1)"
    and ow: "overwrite \<or> GetChild ops f i n = None"
  defines "f2 \<equiv> AddChild ops f1 i n c overwrite"
  shows "wf f2" "tree ops f2" "resolve ops f2 (RootInode ops) (p @ [n]) = Some c"
    "GetChild ops f2 = (GetChild ops f)(i := (GetChild ops f i)(n \<mapsto> c))"
    "view ops f2 = (\<lambda>q. if prefix (p @ [n]) q then (if q = p @ [n] then Some nd else None)
       else view ops f q)"
proof -
  note n = new_inode [OF wf new]
  have i1: "Operations ops f1 i \<noteq> None" "Operations ops f1 c \<noteq> None"
    using n resolve_known [OF wf i] by auto
  note a = add_child [of f1 i c n overwrite, OF _ i1]
  have wf1: "wf f1" using n by simp
  show g: "GetChild ops f2 = (GetChild ops f)(i := (GetChild ops f i)(n \<mapsto> c))"
    using a [OF wf1] n ow by (simp add: f2_def)
  show "wf f2" using a [OF wf1] by (simp add: f2_def)
  have op: "Operations ops f2 = (Operations ops f)(c \<mapsto> nd)"
    using a [OF wf1] n by (simp add: f2_def)
  have nochild: "GetChild ops f j m \<noteq> Some c" for j m
    using child_known [OF wf, of j m c] n by auto
  have noroot: "c \<noteq> RootInode ops" using n root_known [OF wf] by auto
  show "tree ops f2"
    using nochild noroot tree_root [OF t]
    by (intro tree_I) (auto simp: g split: if_splits dest: tree_parent [OF t])
  have r: "resolve ops f2 (RootInode ops) q =
      (if prefix (p @ [n]) q then (if q = p @ [n] then Some c else None)
       else resolve ops f (RootInode ops) q)" for q
    by (rule resolve_set [OF wf t i _ _ g]) (use n in simp_all)
  then show "resolve ops f2 (RootInode ops) (p @ [n]) = Some c" by simp
  show "view ops f2 = (\<lambda>q. if prefix (p @ [n]) q then (if q = p @ [n] then Some nd else None)
       else view ops f q)"
  proof
    fix q
    show "view ops f2 q = (if prefix (p @ [n]) q then (if q = p @ [n] then Some nd else None)
       else view ops f q)"
      using resolve_known [OF wf, of q] n
      by (auto simp: view_def r op split: option.splits)
  qed
qed

lemma detach:
  fixes n :: string
  assumes wf: "wf f" and t: "tree ops f" and i: "resolve ops f (RootInode ops) p = Some i"
  defines "f2 \<equiv> RmChild ops f i n"
  shows "wf f2" "tree ops f2"
    "resolve ops f2 (RootInode ops) =
      (\<lambda>q. if prefix (p @ [n]) q then None else resolve ops f (RootInode ops) q)"
    "view ops f2 = (\<lambda>q. if prefix (p @ [n]) q then None else view ops f q)"
proof -
  note a = rm_child [OF wf resolve_known [OF wf i], of n]
  then have g: "GetChild ops f2 = (GetChild ops f)(i := (GetChild ops f i)(n := None))"
    by (simp add: f2_def)
  show "wf f2" using a by (simp add: f2_def)
  show "tree ops f2" using tree_root [OF t]
    by (intro tree_I) (auto simp: g split: if_splits dest: tree_parent [OF t])
  show r: "resolve ops f2 (RootInode ops) =
      (\<lambda>q. if prefix (p @ [n]) q then None else resolve ops f (RootInode ops) q)"
    by (rule ext) (rule resolve_unset [OF t i g])
  have "Operations ops f2 = Operations ops f" using a by (simp add: f2_def)
  then show "view ops f2 = (\<lambda>q. if prefix (p @ [n]) q then None else view ops f q)"
    by (auto simp: view_def r fun_eq_iff split: option.splits)
qed

lemma view_None: "wf f \<Longrightarrow> view ops f q = None \<longleftrightarrow> resolve ops f (RootInode ops) q = None"
  using resolve_known by (auto simp: view_def split: option.splits)

lemma view_beyond: "wf f \<Longrightarrow> view ops f q = None \<Longrightarrow> prefix q q' \<Longrightarrow> view ops f q' = None"
  by (auto simp: view_None resolve_append elim!: prefixE)

end

section \<open>What place does to the tree\<close>

lemma place_dirs_filter:
  "place_dirs ops notify R i ps = place_dirs ops notify R i (filter (\<lambda>p. p \<noteq> []) ps)"
  by (induction ps arbitrary: R i) (auto split: option.splits prod.splits simp: Let_def)

definition same_root :: "'f root \<Rightarrow> 'f root \<Rightarrow> bool" where
  "same_root R R' \<longleftrightarrow> R' = R\<lparr>r_tree := r_tree R', r_notes := r_notes R'\<rparr>"

lemma same_root_refl [simp]: "same_root R R"
  by (simp add: same_root_def)

lemma same_root_trans [trans]: "same_root R R' \<Longrightarrow> same_root R' R'' \<Longrightarrow> same_root R R''"
  unfolding same_root_def by (cases R; cases R'; cases R'') simp

lemma same_root_sel:
  "same_root R R' \<Longrightarrow> r_entries R' = r_entries R" "same_root R R' \<Longrightarrow> r_mounted R' = r_mounted R"
  unfolding same_root_def by (cases R; cases R'; simp)+

lemma same_root_step [simp]:
  "same_root R (R\<lparr>r_tree := f\<rparr>)" "same_root R (NotifyEntry i n (R\<lparr>r_tree := f\<rparr>))"
  by (simp_all add: NotifyEntry_def same_root_def)

lemma NotifyEntry_sel [simp]:
  "r_tree (NotifyEntry i n R) = r_tree R" "r_notes (NotifyEntry i n R) = r_notes R @ [(i, n)]"
  by (simp_all add: NotifyEntry_def)

context inode_tree
begin

definition good :: "'f \<Rightarrow> bool" where
  "good f \<longleftrightarrow> wf f \<and> tree ops f"

lemma place_dirs_view:
  assumes "good (r_tree R)" "resolve ops (r_tree R) (RootInode ops) p = Some i"
    "list_all is_name ds" "place_dirs ops notify R i ds = (R', j)"
  shows "good (r_tree R') \<and> same_root R R'
    \<and> resolve ops (r_tree R') (RootInode ops) (p @ ds) = Some j
    \<and> view ops (r_tree R') = (\<lambda>q.
        if strict_prefix p q \<and> prefix q (p @ ds) \<and> view ops (r_tree R) q = None
        then Some DirNode else view ops (r_tree R) q)"
  using assms
proof (induction ds arbitrary: R i p)
  case Nil
  then show ?case by (auto simp: fun_eq_iff prefix_order.less_le_not_le)
next
  case (Cons d ds)
  from Cons.prems(3) have d: "d \<noteq> []" "list_all is_name ds" by (simp_all add: is_name_def [of d])
  let ?f = "r_tree R"
  show ?case
  proof (cases "GetChild ops ?f i d")
    case (Some c)
    then have c: "resolve ops ?f (RootInode ops) (p @ [d]) = Some c"
      using Cons.prems(2) by (simp add: resolve_snoc)
    have "view ops ?f (p @ [d]) \<noteq> None" using Cons.prems(1) c by (simp add: good_def view_None)
    then have eq: "strict_prefix (p @ [d]) q \<and> prefix q (p @ d # ds) \<and> view ops ?f q = None \<longleftrightarrow>
        strict_prefix p q \<and> prefix q (p @ d # ds) \<and> view ops ?f q = None" for q
      by (auto simp: strict_prefix_def prefix_append prefix_Cons elim!: prefixE)
    from Some d Cons.prems(4) have "place_dirs ops notify R c ds = (R', j)" by simp
    from Cons.IH [OF Cons.prems(1) c d(2) this] show ?thesis by (simp add: eq)
  next
    case None
    obtain c f1 where n: "NewPersistentInode ops ?f DirNode S_IFDIR = (c, f1)" by fastforce
    define R2 where "R2 = (let R1 = R\<lparr>r_tree := AddChild ops f1 i d c False\<rparr>
      in if notify then NotifyEntry i d R1 else R1)"
    from None d n Cons.prems(4) have step: "place_dirs ops notify R2 c ds = (R', j)"
      by (simp add: Let_def R2_def)
    have t: "r_tree R2 = AddChild ops f1 i d c False" by (simp add: R2_def Let_def)
    have s: "same_root R R2"
      by (simp add: R2_def Let_def)
    note a = attach [where overwrite = False, OF _ _ Cons.prems(2) n, of d, folded t]
    have good: "wf ?f" "tree ops ?f" using Cons.prems(1) by (simp_all add: good_def)
    note a = a [OF good, simplified None, simplified]
    have none: "view ops ?f q = None" if "prefix (p @ [d]) q" for q
      using view_beyond [OF good(1) _ that] None Cons.prems(2) good(1)
      by (simp add: view_None resolve_snoc)
    from Cons.IH [OF _ a(3) d(2) step] a(1,2)
    have IH: "good (r_tree R')" "same_root R2 R'"
      "resolve ops (r_tree R') (RootInode ops) (p @ d # ds) = Some j"
      "view ops (r_tree R') = (\<lambda>q.
        if strict_prefix (p @ [d]) q \<and> prefix q (p @ d # ds) \<and> view ops (r_tree R2) q = None
        then Some DirNode else view ops (r_tree R2) q)"
      by (simp_all add: good_def)
    have "view ops (r_tree R') q =
        (if strict_prefix p q \<and> prefix q (p @ d # ds) \<and> view ops ?f q = None
         then Some DirNode else view ops ?f q)" for q
      using none [of q] prefix_length_le [of "p @ [d]" q] prefix_length_le [of q p]
      by (auto simp: IH(4) a(5) strict_prefix_def prefix_append prefix_Cons)
    with IH same_root_trans [OF s IH(2)] show ?thesis by (simp add: fun_eq_iff)
  qed
qed

lemma place_set_view:
  assumes "good (r_tree R)" "resolve ops (r_tree R) (RootInode ops) p = Some i"
  shows "good (r_tree (place_set ops notify i n nd R))"
    "same_root R (place_set ops notify i n nd R)"
    "resolve ops (r_tree (place_set ops notify i n nd R)) (RootInode ops) p = Some i"
    "view ops (r_tree (place_set ops notify i n nd R)) =
      (\<lambda>q. if prefix (p @ [n]) q then (if q = p @ [n] then Some nd else None)
       else view ops (r_tree R) q)"
proof -
  obtain c f1 where n: "NewPersistentInode ops (r_tree R) nd S_IFREG = (c, f1)" by fastforce
  have good: "wf (r_tree R)" "tree ops (r_tree R)" using assms(1) by (simp_all add: good_def)
  have t: "r_tree (place_set ops notify i n nd R) = AddChild ops f1 i n c True"
    by (simp add: place_set_def n Let_def)
  note a = attach [OF good assms(2) n, where overwrite = True and n = n, simplified, folded t]
  from a show "good (r_tree (place_set ops notify i n nd R))"
    "view ops (r_tree (place_set ops notify i n nd R)) =
      (\<lambda>q. if prefix (p @ [n]) q then (if q = p @ [n] then Some nd else None)
       else view ops (r_tree R) q)"
    by (simp_all add: good_def)
  show "same_root R (place_set ops notify i n nd R)"
    by (simp add: place_set_def n Let_def)
  have "\<not> prefix (p @ [n]) p" by (metis prefix_length_le length_append_singleton Suc_n_not_le_n)
  with resolve_set [OF good assms(2) _ _ a(4), of p] new_inode [OF good(1) n] assms(2)
  show "resolve ops (r_tree (place_set ops notify i n nd R)) (RootInode ops) p = Some i"
    by simp
qed

lemma drop_child_view:
  assumes "good (r_tree R)" "resolve ops (r_tree R) (RootInode ops) p = Some i"
  shows "good (r_tree (drop_child ops notify i n R))"
    "same_root R (drop_child ops notify i n R)"
    "resolve ops (r_tree (drop_child ops notify i n R)) (RootInode ops) p = Some i"
    "view ops (r_tree (drop_child ops notify i n R)) =
      (\<lambda>q. if prefix (p @ [n]) q then None else view ops (r_tree R) q)"
proof -
  have good: "wf (r_tree R)" "tree ops (r_tree R)" using assms(1) by (simp_all add: good_def)
  have np: "\<not> prefix (p @ [n]) p" by (metis prefix_length_le length_append_singleton Suc_n_not_le_n)
  show "same_root R (drop_child ops notify i n R)"
    by (simp add: drop_child_def Let_def)
  have "good (r_tree (drop_child ops notify i n R))
    \<and> resolve ops (r_tree (drop_child ops notify i n R)) (RootInode ops) p = Some i
    \<and> view ops (r_tree (drop_child ops notify i n R)) =
      (\<lambda>q. if prefix (p @ [n]) q then None else view ops (r_tree R) q)"
  proof (cases "GetChild ops (r_tree R) i n")
    case None
    then have "resolve ops (r_tree R) (RootInode ops) (p @ [n]) = None"
      using assms(2) by (simp add: resolve_snoc)
    then have "view ops (r_tree R) q = None" if "prefix (p @ [n]) q" for q
      using view_beyond [OF good(1) _ that] good(1) by (simp add: view_None)
    with None assms show ?thesis by (simp add: drop_child_def fun_eq_iff)
  next
    case (Some c)
    then have t: "r_tree (drop_child ops notify i n R) = RmChild ops (r_tree R) i n"
      by (simp add: drop_child_def Let_def)
    from detach [OF good assms(2), of n] np assms(2) show ?thesis by (simp add: t good_def)
  qed
  then show "good (r_tree (drop_child ops notify i n R))"
    "resolve ops (r_tree (drop_child ops notify i n R)) (RootInode ops) p = Some i"
    "view ops (r_tree (drop_child ops notify i n R)) =
      (\<lambda>q. if prefix (p @ [n]) q then None else view ops (r_tree R) q)" by simp_all
qed

end

section \<open>What the mount shall show\<close>

definition dirs_of :: "string \<Rightarrow> string list" where
  "dirs_of p = butlast (elements p)"

definition name_of :: "string \<Rightarrow> string" where
  "name_of p = last (elements p)"

definition mkv_of :: "string \<Rightarrow> string list" where
  "mkv_of p = dirs_of p @ [name_of p @ ''.mkv'']"

definition nfo_of :: "string \<Rightarrow> string list" where
  "nfo_of p = dirs_of p @ [name_of p @ ''.nfo'']"

text \<open>The tree for a set of entries: the root, the directories above the clips, a file for
  each clip, and one for each NFO.\<close>

definition served :: "(string \<rightharpoonup> entry) \<Rightarrow> string list \<Rightarrow> node \<Rightarrow> bool" where
  "served E q nd \<longleftrightarrow>
     (q = [] \<and> nd = RootNode)
     \<or> (q \<noteq> [] \<and> nd = DirNode \<and> (\<exists>p \<in> dom E. prefix q (dirs_of p)))
     \<or> (\<exists>p e. E p = Some e \<and> q = mkv_of p \<and> nd = ClipNode p (e_layout e))
     \<or> (\<exists>p e d. E p = Some e \<and> e_nfo e = Some d \<and> q = nfo_of p \<and> nd = StaticNode d (e_nfo_time e))"

text \<open>No clip's folder has the name of another clip's file.\<close>

definition conflict_free :: "string set \<Rightarrow> bool" where
  "conflict_free D \<longleftrightarrow>
     (\<forall>p \<in> D. clip_path p)
     \<and> (\<forall>p \<in> D. \<forall>p' \<in> D. \<not> prefix (mkv_of p) (dirs_of p') \<and> \<not> prefix (nfo_of p) (dirs_of p'))"

lemma clip_path_split:
  assumes "clip_path p"
  shows "path_Split p = (dir_string (dirs_of p), name_of p)"
    "list_all is_plain (dirs_of p)" "is_plain (name_of p)" "list_all is_name (dirs_of p)"
proof -
  have el: "elements p = dirs_of p @ [name_of p]"
    using assms by (simp add: clip_path_def dirs_of_def name_of_def)
  with assms show plain: "list_all is_plain (dirs_of p)" "is_plain (name_of p)"
    by (auto simp: clip_path_def)
  then show "list_all is_name (dirs_of p)" by (simp add: is_plain_name)
  from assms el have "p = join ''/'' (dirs_of p @ [name_of p])" by (simp add: clip_path_def)
  then show "path_Split p = (dir_string (dirs_of p), name_of p)"
    using path_Split_join [of "name_of p" "dirs_of p"] plain(2) by (simp add: is_plain_def)
qed

lemma elements_dir_string: "list_all is_name ds \<Longrightarrow> elements (trim_char slash (dir_string ds)) = ds"
  by (simp add: trim_dir_string elements_join)

lemma file_of_inj:
  assumes "clip_path p" "clip_path p'"
  shows "mkv_of p = mkv_of p' \<longleftrightarrow> p = p'" "nfo_of p = nfo_of p' \<longleftrightarrow> p = p'"
    "mkv_of p \<noteq> nfo_of p'"
proof -
  have "p = p'" if "dirs_of p = dirs_of p'" "name_of p = name_of p'"
    using assms that unfolding clip_path_def dirs_of_def name_of_def
    by (metis append_butlast_last_id)
  then show "mkv_of p = mkv_of p' \<longleftrightarrow> p = p'" "nfo_of p = nfo_of p' \<longleftrightarrow> p = p'"
    by (auto simp: mkv_of_def nfo_of_def)
  have "last (name_of p @ ''.mkv'') \<noteq> last (name_of p' @ ''.nfo'')" by simp
  then show "mkv_of p \<noteq> nfo_of p'" by (metis mkv_of_def nfo_of_def last_snoc)
qed

lemma prefix_file: "prefix q (mkv_of p) \<longleftrightarrow> q = mkv_of p \<or> prefix q (dirs_of p)"
  "prefix q (nfo_of p) \<longleftrightarrow> q = nfo_of p \<or> prefix q (dirs_of p)"
  by (auto simp: mkv_of_def nfo_of_def)

text \<open>Nothing is served below a clip's files.\<close>

lemma served_below:
  assumes "conflict_free D" "dom E \<subseteq> D" "p \<in> D" "served E q nd"
  shows "prefix (mkv_of p) q \<Longrightarrow> q = mkv_of p" "prefix (nfo_of p) q \<Longrightarrow> q = nfo_of p"
proof -
  have no: "\<not> prefix (mkv_of p) (dirs_of p')" "\<not> prefix (nfo_of p) (dirs_of p')"
    if "p' \<in> dom E" for p'
    using assms that by (auto simp: conflict_free_def)
  have *: "prefix x q \<Longrightarrow> q = x" if "x = mkv_of p \<or> x = nfo_of p" for x
  proof -
    assume x: "prefix x q"
    have "x \<noteq> []" using that by (auto simp: mkv_of_def nfo_of_def)
    with x have q: "q \<noteq> []" by auto
    have no': "\<not> prefix x (dirs_of p')" if "p' \<in> dom E" for p'
      using no [OF that] \<open>x = mkv_of p \<or> x = nfo_of p\<close> by auto
    from assms(4) q consider
        p' where "p' \<in> dom E" "prefix q (dirs_of p')"
      | p' where "p' \<in> dom E" "q = mkv_of p' \<or> q = nfo_of p'"
      by (auto simp: served_def)
    then show "q = x"
    proof cases
      case 1
      with no' x show ?thesis by (meson prefix_order.trans)
    next
      case 2
      with no' [OF 2(1)] x show ?thesis by (auto simp: prefix_file)
    qed
  qed
  show "prefix (mkv_of p) q \<Longrightarrow> q = mkv_of p" "prefix (nfo_of p) q \<Longrightarrow> q = nfo_of p"
    using * by blast+
qed

lemma served_mkv:
  assumes "conflict_free D" "dom E \<subseteq> D" "p \<in> D"
  shows "served E (mkv_of p) nd \<longleftrightarrow> (\<exists>e. E p = Some e \<and> nd = ClipNode p (e_layout e))"
    and "served E (nfo_of p) nd \<longleftrightarrow>
      (\<exists>e d. E p = Some e \<and> e_nfo e = Some d \<and> nd = StaticNode d (e_nfo_time e))"
proof -
  have c: "clip_path p" "\<And>p'. p' \<in> dom E \<Longrightarrow> clip_path p'"
    and d: "\<And>p'. p' \<in> dom E \<Longrightarrow> \<not> prefix (mkv_of p) (dirs_of p') \<and> \<not> prefix (nfo_of p) (dirs_of p')"
    using assms by (auto simp: conflict_free_def)
  have ne: "mkv_of p \<noteq> []" "nfo_of p \<noteq> []" by (simp_all add: mkv_of_def nfo_of_def)
  have inj: "mkv_of p = mkv_of p' \<longleftrightarrow> p = p'" "nfo_of p = nfo_of p' \<longleftrightarrow> p = p'"
    "mkv_of p \<noteq> nfo_of p'" "nfo_of p \<noteq> mkv_of p'" if "E p' = Some e" for p' e
  proof -
    have c': "clip_path p'" using that by (intro c(2)) blast
    show "mkv_of p = mkv_of p' \<longleftrightarrow> p = p'" "nfo_of p = nfo_of p' \<longleftrightarrow> p = p'"
      "mkv_of p \<noteq> nfo_of p'" "nfo_of p \<noteq> mkv_of p'"
      using file_of_inj [OF c(1) c'] file_of_inj(3) [OF c' c(1)] by auto
  qed
  have "(\<exists>p' e. E p' = Some e \<and> mkv_of p = mkv_of p' \<and> nd = ClipNode p' (e_layout e))
      \<longleftrightarrow> (\<exists>e. E p = Some e \<and> nd = ClipNode p (e_layout e))"
    "\<not> (\<exists>p' e d. E p' = Some e \<and> e_nfo e = Some d \<and> mkv_of p = nfo_of p'
      \<and> nd = StaticNode d (e_nfo_time e))"
    using inj by metis+
  then show "served E (mkv_of p) nd \<longleftrightarrow> (\<exists>e. E p = Some e \<and> nd = ClipNode p (e_layout e))"
    unfolding served_def using ne(1) d by blast
  have "\<not> (\<exists>p' e. E p' = Some e \<and> nfo_of p = mkv_of p' \<and> nd = ClipNode p' (e_layout e))"
    "(\<exists>p' e d. E p' = Some e \<and> e_nfo e = Some d \<and> nfo_of p = nfo_of p'
        \<and> nd = StaticNode d (e_nfo_time e))
      \<longleftrightarrow> (\<exists>e d. E p = Some e \<and> e_nfo e = Some d \<and> nd = StaticNode d (e_nfo_time e))"
    using inj by metis+
  then show "served E (nfo_of p) nd \<longleftrightarrow>
      (\<exists>e d. E p = Some e \<and> e_nfo e = Some d \<and> nd = StaticNode d (e_nfo_time e))"
    unfolding served_def using ne(2) d by blast
qed

text \<open>Elsewhere, setting or removing an entry matters to the directories above it only.\<close>

lemma served_upd:
  assumes "q \<noteq> mkv_of p" "q \<noteq> nfo_of p"
  shows "served (E(p \<mapsto> e)) q nd \<longleftrightarrow>
    served E q nd \<or> (q \<noteq> [] \<and> nd = DirNode \<and> prefix q (dirs_of p))"
proof -
  have "(\<exists>p' e'. (E(p \<mapsto> e)) p' = Some e' \<and> q = mkv_of p' \<and> nd = ClipNode p' (e_layout e'))
      \<longleftrightarrow> (\<exists>p' e'. E p' = Some e' \<and> q = mkv_of p' \<and> nd = ClipNode p' (e_layout e'))"
    using assms(1) by (metis fun_upd_apply)
  moreover have "(\<exists>p' e' d. (E(p \<mapsto> e)) p' = Some e' \<and> e_nfo e' = Some d \<and> q = nfo_of p'
        \<and> nd = StaticNode d (e_nfo_time e'))
      \<longleftrightarrow> (\<exists>p' e' d. E p' = Some e' \<and> e_nfo e' = Some d \<and> q = nfo_of p'
        \<and> nd = StaticNode d (e_nfo_time e'))"
    using assms(2) by (metis fun_upd_apply)
  moreover have "(\<exists>p' \<in> dom (E(p \<mapsto> e)). prefix q (dirs_of p'))
      \<longleftrightarrow> (\<exists>p' \<in> dom E. prefix q (dirs_of p')) \<or> prefix q (dirs_of p)"
    by auto
  ultimately show ?thesis unfolding served_def by blast
qed

lemma served_del:
  assumes "q \<noteq> mkv_of p" "q \<noteq> nfo_of p" "E p = Some e"
  shows "served E q nd \<longleftrightarrow>
    served (E(p := None)) q nd \<or> (q \<noteq> [] \<and> nd = DirNode \<and> prefix q (dirs_of p))"
proof -
  have "E = (E(p := None))(p \<mapsto> e)" using assms(3) by auto
  then show ?thesis using served_upd [OF assms(1,2), of "E(p := None)" e nd] by simp
qed

section \<open>The tree agrees with the entries\<close>

definition agrees :: "'f inode_ops \<Rightarrow> (string \<rightharpoonup> entry) \<Rightarrow> 'f \<Rightarrow> bool" where
  "agrees ops E f \<longleftrightarrow> (\<forall>q nd. view ops f q = Some nd \<longleftrightarrow> served E q nd)"

context inode_tree
begin

lemma place_view:
  fixes e :: entry and notify :: bool
  assumes "good (r_tree R)" "clip_path p"
  defines "R' \<equiv> place ops p e notify R"
  shows "good (r_tree R')" "same_root R R'"
    "view ops (r_tree R') = (\<lambda>q.
       if prefix (nfo_of p) q
       then (if q = nfo_of p then map_option (\<lambda>d. StaticNode d (e_nfo_time e)) (e_nfo e) else None)
       else if prefix (mkv_of p) q
       then (if q = mkv_of p then Some (ClipNode p (e_layout e)) else None)
       else if q \<noteq> [] \<and> prefix q (dirs_of p) \<and> view ops (r_tree R) q = None then Some DirNode
       else view ops (r_tree R) q)"
proof -
  note c = clip_path_split [OF assms(2)]
  obtain R1 i where d: "place_dirs ops notify R (RootInode ops) (dirs_of p) = (R1, i)"
    by fastforce
  have d': "place_dirs ops notify R (RootInode ops)
      (split_on slash (trim_char slash (dir_string (dirs_of p)))) = (R1, i)"
    using place_dirs_filter [of ops notify R "RootInode ops"
        "split_on slash (trim_char slash (dir_string (dirs_of p)))"]
    by (simp add: elements_dir_string [OF c(4), unfolded elements_def] d)
  have p1: "good (r_tree R1)" "same_root R R1" "resolve ops (r_tree R1) (RootInode ops) (dirs_of p) = Some i"
    "view ops (r_tree R1) = (\<lambda>q.
        if q \<noteq> [] \<and> prefix q (dirs_of p) \<and> view ops (r_tree R) q = None
        then Some DirNode else view ops (r_tree R) q)"
    using place_dirs_view [OF assms(1) _ c(4) d, of "[]"] by (auto simp: strict_prefix_def fun_eq_iff)
  let ?R2 = "place_set ops notify i (name_of p @ ''.mkv'') (ClipNode p (e_layout e)) R1"
  note p2 = place_set_view [OF p1(1,3), of notify "name_of p @ ''.mkv''" "ClipNode p (e_layout e)"]
  have R': "R' = (case e_nfo e of
      Some d \<Rightarrow> place_set ops notify i (name_of p @ ''.nfo'') (StaticNode d (e_nfo_time e)) ?R2
    | None \<Rightarrow> drop_child ops notify i (name_of p @ ''.nfo'') ?R2)"
    by (simp add: R'_def place_def c(1) d' Let_def)
  have p3: "good (r_tree R')" "same_root ?R2 R'"
    "view ops (r_tree R') = (\<lambda>q. if prefix (nfo_of p) q
       then (if q = nfo_of p then map_option (\<lambda>d. StaticNode d (e_nfo_time e)) (e_nfo e) else None)
       else view ops (r_tree ?R2) q)"
    using place_set_view [OF p2(1,3)] drop_child_view [OF p2(1,3)]
    by (auto simp: R' nfo_of_def fun_eq_iff split: option.splits)
  show "good (r_tree R')" by (rule p3)
  show "same_root R R'" using p1(2) p2(2) p3(2) same_root_trans by blast
  show "view ops (r_tree R') = (\<lambda>q.
       if prefix (nfo_of p) q
       then (if q = nfo_of p then map_option (\<lambda>d. StaticNode d (e_nfo_time e)) (e_nfo e) else None)
       else if prefix (mkv_of p) q
       then (if q = mkv_of p then Some (ClipNode p (e_layout e)) else None)
       else if q \<noteq> [] \<and> prefix q (dirs_of p) \<and> view ops (r_tree R) q = None then Some DirNode
       else view ops (r_tree R) q)"
    by (simp add: p3(3) p2(4) p1(4) fun_eq_iff flip: mkv_of_def)
qed

lemma place_agrees:
  assumes "good (r_tree R)" "agrees ops E (r_tree R)" "conflict_free D" "dom E \<subseteq> D" "p \<in> D"
  shows "agrees ops (E(p \<mapsto> e)) (r_tree (place ops p e notify R))"
proof -
  have cp: "clip_path p" using assms(3,5) by (simp add: conflict_free_def)
  note pv = place_view(3) [OF assms(1) cp, of e notify]
  have dom: "dom (E(p \<mapsto> e)) \<subseteq> D" using assms(4,5) by auto
  note below = served_below [OF assms(3) dom assms(5)]
  have other: "prefix (nfo_of p) (mkv_of p) \<longleftrightarrow> False" "prefix (mkv_of p) (nfo_of p) \<longleftrightarrow> False"
    using file_of_inj(3) [OF cp cp] by (auto simp: mkv_of_def nfo_of_def)
  show ?thesis
    unfolding agrees_def
  proof (intro allI)
    fix q nd
    consider "q = nfo_of p" | "q = mkv_of p" | "q \<noteq> nfo_of p" "q \<noteq> mkv_of p"
      "prefix (nfo_of p) q \<or> prefix (mkv_of p) q"
      | "\<not> prefix (nfo_of p) q" "\<not> prefix (mkv_of p) q" by blast
    then show "view ops (r_tree (place ops p e notify R)) q = Some nd
      \<longleftrightarrow> served (E(p \<mapsto> e)) q nd"
    proof cases
      case 1
      then show ?thesis by (auto simp: pv served_mkv [OF assms(3) dom assms(5)])
    next
      case 2
      then show ?thesis by (auto simp: pv other served_mkv [OF assms(3) dom assms(5)])
    next
      case 3
      with below [of q nd] show ?thesis by (auto simp: pv)
    next
      case 4
      then have ne: "q \<noteq> mkv_of p" "q \<noteq> nfo_of p" by auto
      have v: "view ops (r_tree R) q = Some nd' \<longleftrightarrow> served E q nd'" for nd'
        using assms(2) by (simp add: agrees_def)
      have "nd' = DirNode" if "served E q nd'" "q \<noteq> []" "prefix q (dirs_of p)" for nd'
      proof -
        have "\<not> prefix q (dirs_of p)" if "q = mkv_of p' \<or> q = nfo_of p'" "p' \<in> dom E" for p'
          using that assms(3-5) by (auto simp: conflict_free_def)
        with that show ?thesis by (auto simp: served_def)
      qed
      with 4 v show ?thesis
        by (cases "view ops (r_tree R) q") (auto simp: pv served_upd [OF ne])
    qed
  qed
qed

end

section \<open>prune\<close>

text \<open>The loop ends for every directory that does not start with a slash, as \<open>strings.Trim\<close>
  guarantees: each turn shortens the path.\<close>

lemma path_Split_dir:
  assumes "fst (path_Split p) \<noteq> []"
  obtains d where "fst (path_Split p) = d @ ''/''" "length d < length p"
    "\<not> IsAbs p \<Longrightarrow> \<not> IsAbs (d @ ''/'')"
proof -
  let ?d = "fst (path_Split p)"
  have d: "?d = rev (dropWhile (\<lambda>c. c \<noteq> slash) (rev p))" by (simp add: path_Split_def)
  with assms have "last ?d = slash"
    using hd_dropWhile [of "\<lambda>c. c \<noteq> slash" "rev p"] by (simp add: last_rev)
  with assms have eq: "?d = butlast ?d @ ''/''" by (metis append_butlast_last_id)
  moreover have "length (butlast ?d) < length p"
    using arg_cong [OF path_Split_eq [of p], of length] assms
    by (cases "fst (path_Split p)") simp_all
  moreover have "IsAbs p" if "IsAbs (butlast ?d @ ''/'')"
    using that assms path_Split_eq [of p] eq by (metis IsAbs_simps(2) append_Cons list.exhaust)
  ultimately show thesis by (intro that) auto
qed

lemma prune_shorter:
  assumes "fst (path_Split dir) \<noteq> []" "\<not> IsAbs dir"
  shows "length (path_Dir dir) < length dir" "\<not> IsAbs (path_Dir dir)"
proof -
  from assms obtain d where d: "fst (path_Split dir) = d @ ''/''" "length d < length dir"
    "\<not> IsAbs (d @ ''/'')"
    by (elim path_Split_dir) auto
  from Clean_shorter [OF d(3)] d(1,2)
  show "length (path_Dir dir) < length dir" "\<not> IsAbs (path_Dir dir)"
    by (simp_all add: path_Dir_def)
qed

lemma prune_loop_returns:
  "\<not> IsAbs dir \<Longrightarrow> prune_loop ops dir R \<noteq> None"
proof (induction dir arbitrary: R rule: length_induct)
  case (1 dir)
  then have "prune_loop ops (path_Dir dir) R' \<noteq> None" if "fst (path_Split dir) \<noteq> []" for R'
    using that prune_shorter by blast
  then show ?case
    by (subst prune_loop.simps) (auto simp: Let_def split: option.splits)
qed

lemma trim_not_abs: "\<not> IsAbs (trim_char slash s)"
proof (cases "trim_char slash s")
  case (Cons c cs)
  let ?u = "dropWhile (\<lambda>x. x = slash) s"
  have "prefix (trim_char slash s) ?u"
  proof -
    have "suffix (dropWhile (\<lambda>x. x = slash) (rev ?u)) (rev ?u)" by (rule suffix_dropWhile)
    then show ?thesis by (simp add: trim_char_def suffix_to_prefix)
  qed
  with Cons obtain zs where "?u = (c # cs) @ zs" by (metis prefixE)
  then have "?u \<noteq> []" "hd ?u = c" by simp_all
  then have "c \<noteq> slash" using hd_dropWhile [of "\<lambda>x. x = slash" s] by auto
  with Cons show ?thesis by simp
qed simp

lemma prune_returns: "prune ops dir R \<noteq> None"
  by (simp add: prune_def prune_loop_returns trim_not_abs)

lemma served_parent:
  assumes "served E (q @ r) nd" "q \<noteq> []" "r \<noteq> []"
  shows "served E q DirNode"
proof -
  have *: "prefix q (dirs_of p)" if "q @ r = mkv_of p \<or> q @ r = nfo_of p \<or> prefix (q @ r) (dirs_of p)" for p
    using that assms(3)
    by (cases r rule: rev_cases)
      (auto simp: mkv_of_def nfo_of_def prefix_def simp flip: append_assoc, (metis append_assoc)+)
  from assms(1,2) show ?thesis unfolding served_def using * by blast
qed

context inode_tree
begin

lemma prune_loop_agrees:
  assumes "list_all is_plain ds" "good (r_tree R)"
    and "\<And>q nd. view ops (r_tree R) q = Some nd \<longleftrightarrow>
      served E q nd \<or> (nd = DirNode \<and> q \<noteq> [] \<and> prefix q ds)"
    and "\<And>q nd. served E q nd \<Longrightarrow> q \<noteq> [] \<Longrightarrow> prefix q ds \<Longrightarrow> nd = DirNode"
    and "prune_loop ops (join ''/'' ds) R = Some R'"
  shows "good (r_tree R') \<and> same_root R R' \<and> agrees ops E (r_tree R')"
  using assms
proof (induction ds arbitrary: R rule: rev_induct)
  case Nil
  then show ?case by (simp add: agrees_def prune_loop.simps)
next
  case (snoc d ds)
  let ?p = "ds @ [d]" and ?f = "r_tree R"
  note v = snoc.prems(3)
  have plain: "list_all is_plain ds" "is_plain d" "list_all is_name ?p" "list_all is_name ds"
    using snoc.prems(1) is_plain_name [of ds] is_plain_name [of ?p] by simp_all
  have wf: "wf ?f" using snoc.prems(2) by (simp add: good_def)
  have dir: "elements (trim_char slash (join ''/'' ?p)) = ?p"
    using join_names_ne [OF plain(3)] elements_join [OF plain(3)]
    by (simp add: trim_char_id del: list_all_append)
  have "view ops ?f ?p = Some DirNode" using v [of ?p DirNode] by simp
  then obtain i where i: "resolve ops ?f (RootInode ops) ?p = Some i"
    by (auto simp: view_def split: option.splits)
  then obtain j where j: "resolve ops ?f (RootInode ops) ds = Some j"
    by (auto simp: resolve_snoc bind_eq_Some_conv)
  have split: "path_Split (join ''/'' ?p) = (dir_string ds, d)"
    using plain(2) by (simp add: path_Split_join is_plain_def)
  have ne: "join ''/'' ?p \<noteq> []" using join_names_ne [OF plain(3)] by simp
  show ?case
  proof (cases "GetChild ops ?f i = Map.empty")
    case False
    then obtain n c where "GetChild ops ?f i n = Some c" by (auto simp: fun_eq_iff)
    with i have "resolve ops ?f (RootInode ops) (?p @ [n]) \<noteq> None" by (simp add: resolve_snoc del: append_assoc)
    then obtain nd where "view ops ?f (?p @ [n]) = Some nd"
      using view_None [OF wf, of "?p @ [n]"] by (metis option.exhaust)
    then have sv: "served E (?p @ [n]) nd" using v [of "?p @ [n]" nd] prefix_length_le by fastforce
    have "served E q DirNode" if "q \<noteq> []" "prefix q ?p" for q
    proof -
      from that(2) obtain zs where "?p = q @ zs" by (rule prefixE)
      with sv served_parent [of E q "zs @ [n]" nd] that(1) show ?thesis
        by (metis append_assoc append_is_Nil_conv not_Cons_self2)
    qed
    then have "agrees ops E ?f" unfolding agrees_def using v by blast
    moreover have "R' = R"
      using snoc.prems(5) False ne i children [OF wf, of i]
      by (simp add: prune_loop.simps [of ops "join ''/'' ?p"] lookupDir_resolve dir)
    ultimately show ?thesis using snoc.prems(2) by simp
  next
    case True
    define R1 where "R1 = NotifyEntry j d (R\<lparr>r_tree := RmChild ops ?f j d\<rparr>)"
    have t1: "r_tree R1 = RmChild ops ?f j d" and s1: "same_root R R1"
      by (simp_all add: R1_def)
    have "tree ops ?f" using snoc.prems(2) by (simp add: good_def)
    note det = detach [OF wf this j, of d, folded t1]
    have none: "view ops ?f (?p @ r) = None" if "r \<noteq> []" for r
      using that True i wf
      by (cases r) (simp_all add: view_None resolve_append [of _ _ _ ?p] del: append_assoc)
    have noserve: "\<not> served E q nd" if pq: "prefix ?p q" for q nd
    proof
      assume sv: "served E q nd"
      show False
      proof (cases "q = ?p")
        case True
        with sv snoc.prems(4) have "nd = DirNode" by simp
        with sv True obtain p where p: "p \<in> dom E" "prefix ?p (dirs_of p)"
          by (auto simp: served_def mkv_of_def nfo_of_def)
        then obtain e where "E p = Some e" by auto
        then have "served E (mkv_of p) (ClipNode p (e_layout e))" by (auto simp: served_def)
        then have "view ops ?f (mkv_of p) \<noteq> None" using v by auto
        moreover obtain r where "mkv_of p = ?p @ r" "r \<noteq> []"
          using p(2) by (auto simp: mkv_of_def elim!: prefixE)
        ultimately show False using none by metis
      next
        case False
        from pq obtain r where r: "q = ?p @ r" by (rule prefixE)
        with False have "r \<noteq> []" by auto
        with r none [of r] sv v [of q nd] show False by simp
      qed
    qed
    have v1: "view ops (r_tree R1) q = Some nd \<longleftrightarrow>
        served E q nd \<or> (nd = DirNode \<and> q \<noteq> [] \<and> prefix q ds)" for q nd
      using v [of q nd] noserve [of q nd] prefix_length_le [of ?p q] prefix_length_le [of q ds]
      by (auto simp: det(4))
    have step: "prune_loop ops (join ''/'' ?p) R =
        (if dir_string ds = [] then Some R1 else prune_loop ops (path_Dir (join ''/'' ?p)) R1)"
      using True i j children [OF wf, of i]
      by (subst prune_loop.simps)
        (simp add: ne lookupDir_resolve dir split elements_dir_string [OF plain(4)] Let_def R1_def)
    have "prune_loop ops (join ''/'' ds) R1 = Some R'"
    proof (cases "ds = []")
      case True
      with step snoc.prems(5) show ?thesis
        by (simp add: dir_string_def prune_loop.simps [of ops "[]"])
    next
      case False
      then have "path_Dir (join ''/'' ?p) = join ''/'' ds"
        using Clean_join(2) [OF plain(1) False] by (simp add: path_Dir_def split dir_string_def)
      with False step snoc.prems(5) show ?thesis by (simp add: dir_string_def)
    qed
    moreover have "good (r_tree R1)" using det by (simp add: good_def)
    moreover have "\<And>q nd. served E q nd \<Longrightarrow> q \<noteq> [] \<Longrightarrow> prefix q ds \<Longrightarrow> nd = DirNode"
      using snoc.prems(4) by simp
    ultimately show ?thesis
      using snoc.IH [OF plain(1) _ v1] same_root_trans [OF s1] by blast
  qed
qed

end

section \<open>The operations keep the agreement\<close>

context inode_tree
begin

lemma RemoveClip_agrees:
  assumes "good (r_tree R)" "agrees ops (map_of (r_entries R)) (r_tree R)" "r_mounted R"
    and "conflict_free D" "fst ` set (r_entries R) \<subseteq> D" "RemoveClip ops p R = Some R'"
  shows "good (r_tree R') \<and> agrees ops (map_of (r_entries R')) (r_tree R') \<and> r_mounted R'
    \<and> r_entries R' = AList.delete p (r_entries R)"
proof (cases "map_of (r_entries R) p")
  case None
  then have "p \<notin> fst ` set (r_entries R)" by (simp add: map_of_eq_None_iff)
  then have "AList.delete p (r_entries R) = r_entries R"
    by (auto simp: AList.delete_eq filter_id_conv image_iff)
  with None assms show ?thesis by (simp add: RemoveClip_def)
next
  case (Some e)
  let ?E = "map_of (r_entries R)" and ?f = "r_tree R"
  let ?E' = "?E(p := None)"
  have E': "map_of (AList.delete p (r_entries R)) = ?E'" by (simp add: AList.delete_conv')
  have dom: "dom ?E \<subseteq> D" "dom ?E' \<subseteq> D" and p: "p \<in> D"
    using assms(5) Some by (auto simp: dom_map_of_conv_image_fst dest!: map_of_SomeD)
  have cp: "clip_path p" using assms(4) p by (simp add: conflict_free_def)
  note c = clip_path_split [OF cp]
  define R1 where "R1 = R\<lparr>r_entries := AList.delete p (r_entries R)\<rparr>"
  have v: "view ops ?f q = Some nd \<longleftrightarrow> served ?E q nd" for q nd
    using assms(2) by (simp add: agrees_def)
  have "served ?E (dirs_of p) (if dirs_of p = [] then RootNode else DirNode)"
    using Some by (auto simp: served_def)
  then have "view ops ?f (dirs_of p) \<noteq> None" using v by auto
  then obtain i where i: "resolve ops ?f (RootInode ops) (dirs_of p) = Some i"
    by (auto simp: view_def split: option.splits)
  have good1: "good (r_tree R1)" and i1: "resolve ops (r_tree R1) (RootInode ops) (dirs_of p) = Some i"
    using assms(1) i by (simp_all add: R1_def)
  let ?R2 = "drop_child ops True i (name_of p @ ''.mkv'') R1"
  note d2 = drop_child_view [OF good1 i1, of True "name_of p @ ''.mkv''"]
  let ?R3 = "drop_child ops True i (name_of p @ ''.nfo'') ?R2"
  note d3 = drop_child_view [OF d2(1,3), of True "name_of p @ ''.nfo''"]
  have pr: "prune_loop ops (join ''/'' (dirs_of p)) ?R3 = Some R'"
    using assms(3,6) Some i elements_dir_string [OF c(4)] trim_dir_string [OF c(4)]
    by (simp add: RemoveClip_def c(1) lookupDir_resolve prune_def R1_def Let_def)
  have v3: "view ops (r_tree ?R3) q = Some nd \<longleftrightarrow>
      \<not> prefix (mkv_of p) q \<and> \<not> prefix (nfo_of p) q \<and> served ?E q nd" for q nd
  proof -
    have "r_tree R1 = ?f" by (simp add: R1_def)
    then show ?thesis using v by (simp add: d3(4) d2(4) flip: mkv_of_def nfo_of_def)
  qed
  have dir: "nd = DirNode" if "served ?E' q nd" "q \<noteq> []" "prefix q (dirs_of p)" for q nd
  proof -
    have "\<not> prefix q (dirs_of p)" if "q = mkv_of p' \<or> q = nfo_of p'" "p' \<in> dom ?E" for p'
      using that dom p assms(4) unfolding conflict_free_def by blast
    with that show ?thesis by (auto simp: served_def split: if_splits)
  qed
  have inv: "view ops (r_tree ?R3) q = Some nd \<longleftrightarrow>
      served ?E' q nd \<or> (nd = DirNode \<and> q \<noteq> [] \<and> prefix q (dirs_of p))" for q nd
  proof (cases "prefix (mkv_of p) q \<or> prefix (nfo_of p) q")
    case True
    then have "\<not> prefix q (dirs_of p)"
      using prefix_length_le [of q "dirs_of p"] prefix_length_le [of "mkv_of p" q]
        prefix_length_le [of "nfo_of p" q] by (auto simp: mkv_of_def nfo_of_def)
    moreover have "\<not> served ?E' q nd"
      using True served_below [OF assms(4) dom(2) p, of q nd] served_mkv [OF assms(4) dom(2) p, of nd]
      by auto
    ultimately show ?thesis using True v3 by auto
  next
    case False
    then have ne: "q \<noteq> mkv_of p" "q \<noteq> nfo_of p" by auto
    from served_del [where E = ?E, OF ne Some, of nd] False v3 [of q nd] show ?thesis by auto
  qed
  have s: "same_root R1 ?R3" using d2(2) d3(2) same_root_trans by blast
  from prune_loop_agrees [OF c(2) d3(1) inv dir pr]
  have "good (r_tree R')" "same_root ?R3 R'" "agrees ops ?E' (r_tree R')" by simp_all
  moreover have "same_root R1 R'" using s \<open>same_root ?R3 R'\<close> same_root_trans by blast
  ultimately show ?thesis
    using E' assms(3) same_root_sel [OF \<open>same_root R1 R'\<close>] by (simp add: R1_def)
qed

lemma SetClip_agrees:
  fixes l :: layout and nfo :: "byte list option" and t :: int
  assumes "good (r_tree R)" "agrees ops (map_of (r_entries R)) (r_tree R)" "r_mounted R"
    and "conflict_free D" "fst ` set (r_entries R) \<subseteq> D" "p \<in> D"
  defines "R' \<equiv> SetClip ops p l nfo t R"
  shows "good (r_tree R') \<and> agrees ops (map_of (r_entries R')) (r_tree R') \<and> r_mounted R'
    \<and> r_entries R' = AList.update p \<lparr>e_layout = l, e_nfo = nfo, e_nfo_time = t\<rparr> (r_entries R)"
proof -
  let ?e = "\<lparr>e_layout = l, e_nfo = nfo, e_nfo_time = t\<rparr>"
  let ?R1 = "R\<lparr>r_entries := AList.update p ?e (r_entries R)\<rparr>"
  have R': "R' = place ops p ?e True ?R1" using assms(3) by (simp add: R'_def SetClip_def Let_def)
  have cp: "clip_path p" using assms(4,6) by (simp add: conflict_free_def)
  have dom: "dom (map_of (r_entries R)) \<subseteq> D" using assms(5) by (simp add: dom_map_of_conv_image_fst)
  have g: "good (r_tree ?R1)" and a: "agrees ops (map_of (r_entries R)) (r_tree ?R1)"
    using assms(1,2) by simp_all
  have s: "same_root ?R1 R'" unfolding R' by (rule place_view(2) [OF g cp])
  have "map_of (AList.update p ?e (r_entries R)) = (map_of (r_entries R))(p \<mapsto> ?e)"
    by (simp add: AList.update_conv')
  with place_agrees [OF g a assms(4) dom assms(6), of ?e True]
    place_view(1) [OF g cp, of ?e True] same_root_sel [OF s] assms(3)
  show ?thesis by (simp flip: R')
qed

lemma foldl_place:
  assumes "good (r_tree R)" "agrees ops E (r_tree R)" "conflict_free D" "dom E \<subseteq> D"
    "fst ` set xs \<subseteq> D"
  defines "R' \<equiv> foldl (\<lambda>R (p, e). place ops p e False R) R xs"
  shows "good (r_tree R') \<and> agrees ops (E ++ map_of (rev xs)) (r_tree R') \<and> same_root R R'"
  using assms(1,2,4,5) unfolding R'_def
proof (induction xs arbitrary: R E)
  case (Cons x xs)
  obtain p e where x: "x = (p, e)" by fastforce
  with Cons.prems have p: "p \<in> D" "fst ` set xs \<subseteq> D" by auto
  then have cp: "clip_path p" using assms(3) by (simp add: conflict_free_def)
  note pv = place_view [OF Cons.prems(1) cp, of e False]
  have dom: "dom (E(p \<mapsto> e)) \<subseteq> D" using Cons.prems(3) p by auto
  have eq: "E ++ map_of (rev ((p, e) # xs)) = E(p \<mapsto> e) ++ map_of (rev xs)" by simp
  from Cons.IH [OF pv(1) place_agrees [OF Cons.prems(1,2) assms(3) Cons.prems(3) p(1)] dom p(2)]
  show ?case
    unfolding x eq foldl_Cons prod.case using same_root_trans [OF pv(2)] by blast
qed simp

end

text \<open>Every state of a root whose clips are named from \<open>D\<close>: \<open>New\<close>, then changes before and
  after the mount, which happens once.\<close>

inductive reach :: "'f inode_ops \<Rightarrow> 'f \<Rightarrow> string set \<Rightarrow> 'f root \<Rightarrow> bool" for ops f0 D where
  new: "reach ops f0 D (New uid gid on_stale now f0)"
| set: "reach ops f0 D R \<Longrightarrow> p \<in> D \<Longrightarrow> reach ops f0 D (SetClip ops p l nfo t R)"
| remove: "reach ops f0 D R \<Longrightarrow> RemoveClip ops p R = Some R' \<Longrightarrow> reach ops f0 D R'"
| on_add: "reach ops f0 D R \<Longrightarrow> \<not> r_mounted R \<Longrightarrow> mset order = mset (r_entries R) \<Longrightarrow>
    reach ops f0 D (OnAdd ops order R)"

context inode_tree
begin

lemma reach_inv:
  assumes "reach ops f0 D R" "good f0" "agrees ops Map.empty f0" "conflict_free D"
  shows "good (r_tree R)" "fst ` set (r_entries R) \<subseteq> D" "distinct (map fst (r_entries R))"
    "agrees ops (if r_mounted R then map_of (r_entries R) else Map.empty) (r_tree R)"
proof -
  have "good (r_tree R) \<and> fst ` set (r_entries R) \<subseteq> D \<and> distinct (map fst (r_entries R))
    \<and> agrees ops (if r_mounted R then map_of (r_entries R) else Map.empty) (r_tree R)"
    using assms(1)
  proof induction
    case (new uid gid on_stale now)
    with assms show ?case by (simp add: New_def)
  next
    case (set R p l nfo t)
    let ?e = "\<lparr>e_layout = l, e_nfo = nfo, e_nfo_time = t\<rparr>"
    have up: "fst ` set (AList.update p ?e (r_entries R)) \<subseteq> D"
      "distinct (map fst (AList.update p ?e (r_entries R)))"
      using set by (auto simp: AList.dom_update intro: AList.distinct_update)
    show ?case
    proof (cases "r_mounted R")
      case True
      with set have "good (r_tree (SetClip ops p l nfo t R))
        \<and> agrees ops (map_of (r_entries (SetClip ops p l nfo t R))) (r_tree (SetClip ops p l nfo t R))
        \<and> r_mounted (SetClip ops p l nfo t R)
        \<and> r_entries (SetClip ops p l nfo t R) = AList.update p ?e (r_entries R)"
        by (intro SetClip_agrees [OF _ _ _ assms(4)]) simp_all
      with up show ?thesis by auto
    next
      case False
      with set up show ?thesis by (simp add: SetClip_def Let_def)
    qed
  next
    case (remove R p R')
    have up: "fst ` set (AList.delete p (r_entries R)) \<subseteq> D"
      "distinct (map fst (AList.delete p (r_entries R)))"
      using remove.IH by (auto simp: AList.delete_eq distinct_map_filter)
    show ?case
    proof (cases "r_mounted R")
      case True
      with remove up RemoveClip_agrees [of R D p R'] assms(4) show ?thesis by auto
    next
      case False
      with remove.hyps have "R' = R \<or> R' = R\<lparr>r_entries := AList.delete p (r_entries R)\<rparr>"
        by (auto simp: RemoveClip_def Let_def split: if_splits)
      with remove.IH up False show ?thesis by (elim disjE) simp_all
    qed
  next
    case (on_add R order)
    have s: "set order = set (r_entries R)" using on_add.hyps(3) by (rule mset_eq_setD)
    have "mset (map fst order) = mset (map fst (r_entries R))"
      using on_add.hyps(3) by simp
    then have d: "distinct (map fst order)" using on_add.IH mset_eq_imp_distinct_iff by blast
    then have "map_of (rev order) = map_of (r_entries R)"
      using on_add.IH s by (subst map_of_inject_set) (simp_all flip: rev_map)
    with foldl_place [of R Map.empty D order] on_add assms(4) s
    have f: "good (r_tree (OnAdd ops order R))"
      "agrees ops (map_of (r_entries R)) (r_tree (OnAdd ops order R))"
      "same_root R (foldl (\<lambda>R (p, e). place ops p e False R) R order)"
      by (simp_all add: OnAdd_def)
    then have "r_entries (OnAdd ops order R) = r_entries R"
      using same_root_sel(1) [OF f(3)] by (simp add: OnAdd_def)
    with f on_add.IH show ?case by (simp add: OnAdd_def)
  qed
  then show "good (r_tree R)" "fst ` set (r_entries R) \<subseteq> D" "distinct (map fst (r_entries R))"
    "agrees ops (if r_mounted R then map_of (r_entries R) else Map.empty) (r_tree R)"
    by simp_all
qed

end

section \<open>Notifications\<close>

context inode_tree
begin

text \<open>From \<open>R\<close> to \<open>R'\<close> every directory entry that changed has been notified.\<close>

definition noted :: "'f root \<Rightarrow> 'f root \<Rightarrow> bool" where
  "noted R R' \<longleftrightarrow> wf (r_tree R')
     \<and> (\<forall>k. Operations ops (r_tree R) k \<noteq> None \<longrightarrow> Operations ops (r_tree R') k \<noteq> None)
     \<and> set (r_notes R) \<subseteq> set (r_notes R')
     \<and> (\<forall>i n. GetChild ops (r_tree R') i n \<noteq> GetChild ops (r_tree R) i n \<longrightarrow> (i, n) \<in> set (r_notes R'))"

lemma noted_refl: "wf (r_tree R) \<Longrightarrow> noted R R"
  by (simp add: noted_def)

lemma noted_trans: "noted R R' \<Longrightarrow> noted R' R'' \<Longrightarrow> noted R R''"
  unfolding noted_def by (metis subset_iff)

lemma noted_add:
  fixes n :: string and overwrite :: bool
  assumes "wf (r_tree R)" "Operations ops (r_tree R) i \<noteq> None"
    and "NewPersistentInode ops (r_tree R) nd mode = (c, f)"
  defines "R' \<equiv> NotifyEntry i n (R\<lparr>r_tree := AddChild ops f i n c overwrite\<rparr>)"
  shows "noted R R'" "Operations ops (r_tree R') c \<noteq> None"
proof -
  note new = new_inode [OF assms(1,3)]
  have "wf f" "Operations ops f i \<noteq> None" "Operations ops f c \<noteq> None" using new assms(2) by auto
  note a = add_child [OF this, of n overwrite]
  then show "noted R R'" using new assms(2) by (auto simp: noted_def R'_def split: if_splits)
  show "Operations ops (r_tree R') c \<noteq> None" using new a by (auto simp: R'_def)
qed

lemma noted_rm:
  assumes "wf (r_tree R)" "Operations ops (r_tree R) i \<noteq> None"
  shows "noted R (NotifyEntry i n (R\<lparr>r_tree := RmChild ops (r_tree R) i n\<rparr>))"
  using rm_child [OF assms, of n] by (auto simp: noted_def split: if_splits)

lemma noted_place_dirs:
  "wf (r_tree R) \<Longrightarrow> Operations ops (r_tree R) i \<noteq> None \<Longrightarrow> place_dirs ops True R i ps = (R', j) \<Longrightarrow>
    noted R R' \<and> Operations ops (r_tree R') j \<noteq> None"
proof (induction ps arbitrary: R i)
  case Nil
  then show ?case by (simp add: noted_refl)
next
  case (Cons p ps)
  show ?case
  proof (cases "p = [] \<or> GetChild ops (r_tree R) i p \<noteq> None")
    case True
    then obtain i' where "Operations ops (r_tree R) i' \<noteq> None"
      "place_dirs ops True R i' ps = (R', j)"
      using Cons.prems child_known [OF Cons.prems(1), of i p]
      by (cases "p = []") (force split: option.splits)+
    with Cons.IH Cons.prems(1) show ?thesis by blast
  next
    case False
    obtain c f where n: "NewPersistentInode ops (r_tree R) DirNode S_IFDIR = (c, f)" by fastforce
    note a = noted_add [OF Cons.prems(1,2) n, where n = p and overwrite = False]
    from False n Cons.prems(3) have "place_dirs ops True
        (NotifyEntry i p (R\<lparr>r_tree := AddChild ops f i p c False\<rparr>)) c ps = (R', j)"
      by (auto simp: Let_def split: if_splits)
    from Cons.IH [OF _ a(2) this] a(1) noted_trans [OF a(1)] show ?thesis
      by (simp add: noted_def [of R])
  qed
qed

lemma noted_place_set:
  assumes "wf (r_tree R)" "Operations ops (r_tree R) i \<noteq> None"
  shows "noted R (place_set ops True i n nd R)"
proof -
  obtain c f where new: "NewPersistentInode ops (r_tree R) nd S_IFREG = (c, f)" by fastforce
  from noted_add(1) [OF assms this, of n True] show ?thesis
    by (simp add: place_set_def new Let_def)
qed

lemma noted_drop_child:
  assumes "wf (r_tree R)" "Operations ops (r_tree R) i \<noteq> None"
  shows "noted R (drop_child ops True i n R)"
  using noted_rm [OF assms, of n] noted_refl [OF assms(1)] by (simp add: drop_child_def Let_def)

lemma noted_place:
  assumes "wf (r_tree R)"
  shows "noted R (place ops p e True R)"
proof -
  obtain dir name where s: "path_Split p = (dir, name)" by fastforce
  obtain R1 i where d: "place_dirs ops True R (RootInode ops)
      (split_on slash (trim_char slash dir)) = (R1, i)"
    by fastforce
  from noted_place_dirs [OF assms root_known [OF assms] d]
  have n1: "noted R R1" "wf (r_tree R1)" "Operations ops (r_tree R1) i \<noteq> None"
    by (auto simp: noted_def)
  let ?R2 = "place_set ops True i (name @ ''.mkv'') (ClipNode p (e_layout e)) R1"
  have n2: "noted R1 ?R2" by (rule noted_place_set [OF n1(2,3)])
  then have "wf (r_tree ?R2)" "Operations ops (r_tree ?R2) i \<noteq> None"
    using n1(3) unfolding noted_def by blast+
  note n3 = noted_place_set [OF this] noted_drop_child [OF this]
  have "noted R ?R2" using n1(1) n2 by (rule noted_trans)
  then show ?thesis
    using noted_trans [OF _ n3(1)] noted_trans [OF _ n3(2)]
    by (simp add: place_def s d Let_def split: option.splits)
qed

lemma walk_known:
  "wf f \<Longrightarrow> Operations ops f i \<noteq> None \<Longrightarrow> walk ops f i ps = Some j \<Longrightarrow> Operations ops f j \<noteq> None"
proof (induction ps arbitrary: i)
  case (Cons p ps)
  with child_known [OF Cons.prems(1), of i p] show ?case
    by (cases "p = []"; cases "GetChild ops f i p") auto
qed simp

lemma lookupDir_known: "wf f \<Longrightarrow> lookupDir ops f dir = Some j \<Longrightarrow> Operations ops f j \<noteq> None"
  unfolding lookupDir_def by (rule walk_known [OF _ root_known])

lemma noted_prune_loop:
  "\<not> IsAbs dir \<Longrightarrow> wf (r_tree R) \<Longrightarrow> prune_loop ops dir R = Some R' \<Longrightarrow> noted R R'"
proof (induction dir arbitrary: R rule: length_induct)
  case (1 dir)
  let ?name = "snd (path_Split dir)"
  from 1(4) consider "R' = R"
    | i where "lookupDir ops (r_tree R) (fst (path_Split dir)) = Some i"
      "R' = NotifyEntry i ?name (R\<lparr>r_tree := RmChild ops (r_tree R) i ?name\<rparr>)
       \<or> fst (path_Split dir) \<noteq> [] \<and> prune_loop ops (path_Dir dir)
           (NotifyEntry i ?name (R\<lparr>r_tree := RmChild ops (r_tree R) i ?name\<rparr>)) = Some R'"
    by (subst (asm) prune_loop.simps) (auto simp: Let_def split: if_splits option.splits)
  then show ?case
  proof cases
    case 1
    with \<open>wf (r_tree R)\<close> show ?thesis by (simp add: noted_refl)
  next
    case (2 i)
    let ?R1 = "NotifyEntry i ?name (R\<lparr>r_tree := RmChild ops (r_tree R) i ?name\<rparr>)"
    have n1: "noted R ?R1" by (rule noted_rm [OF 1(3) lookupDir_known [OF 1(3) 2(1)]])
    then have wf1: "wf (r_tree ?R1)" by (simp add: noted_def)
    from 2(2) show ?thesis
    proof
      assume "fst (path_Split dir) \<noteq> [] \<and> prune_loop ops (path_Dir dir) ?R1 = Some R'"
      with prune_shorter [OF _ 1(2)] 1(1) wf1 have "noted ?R1 R'" by blast
      with n1 show ?thesis by (rule noted_trans)
    qed (simp add: n1)
  qed
qed

end

section \<open>The root is a sink\<close>

lemma place_dirs_same: "same_root R (fst (place_dirs ops notify R i ps))"
proof (induction ps arbitrary: R i)
  case (Cons p ps)
  show ?case
  proof (cases "p = [] \<or> GetChild ops (r_tree R) i p \<noteq> None")
    case True
    with Cons.IH show ?thesis by (cases "p = []"; cases "GetChild ops (r_tree R) i p") simp_all
  next
    case False
    obtain c f where n: "NewPersistentInode ops (r_tree R) DirNode S_IFDIR = (c, f)" by fastforce
    let ?R1 = "R\<lparr>r_tree := AddChild ops f i p c False\<rparr>"
    have "same_root R (if notify then NotifyEntry i p ?R1 else ?R1)" by simp
    from same_root_trans [OF this Cons.IH] False n show ?thesis by (auto simp: Let_def)
  qed
qed simp

lemma place_set_same: "same_root R (place_set ops notify i n nd R)"
  by (simp add: place_set_def Let_def split: prod.splits)

lemma drop_child_same: "same_root R (drop_child ops notify i n R)"
  by (simp add: drop_child_def Let_def)

lemma place_same: "same_root R (place ops p e notify R)"
proof -
  obtain dir name where s: "path_Split p = (dir, name)" by fastforce
  obtain R1 i where d: "place_dirs ops notify R (RootInode ops)
      (split_on slash (trim_char slash dir)) = (R1, i)"
    by fastforce
  have "same_root R R1" using place_dirs_same [of R ops notify] d by (metis fst_conv)
  then show ?thesis
    by (simp add: place_def s d Let_def split: option.splits)
      (blast intro: same_root_trans place_set_same drop_child_same)
qed

lemma prune_loop_same: "\<not> IsAbs dir \<Longrightarrow> prune_loop ops dir R = Some R' \<Longrightarrow> same_root R R'"
proof (induction dir arbitrary: R rule: length_induct)
  case (1 dir)
  let ?R1 = "\<lambda>i. NotifyEntry i (snd (path_Split dir))
    (R\<lparr>r_tree := RmChild ops (r_tree R) i (snd (path_Split dir))\<rparr>)"
  from 1(3) consider "R' = R" | i where "R' = ?R1 i"
    | i where "fst (path_Split dir) \<noteq> []" "prune_loop ops (path_Dir dir) (?R1 i) = Some R'"
    by (subst (asm) prune_loop.simps) (auto simp: Let_def split: if_splits option.splits)
  then show ?case
  proof cases
    case (3 i)
    with 1(1) prune_shorter [OF 3(1) 1(2)] have "same_root (?R1 i) R'" by blast
    then show ?thesis by (rule same_root_trans [OF same_root_step(2)])
  qed simp_all
qed

lemma SetClip_entries:
  "r_entries (SetClip ops p l nfo t R) =
    AList.update p \<lparr>e_layout = l, e_nfo = nfo, e_nfo_time = t\<rparr> (r_entries R)"
  "r_mounted (SetClip ops p l nfo t R) = r_mounted R"
  by (simp_all add: SetClip_def Let_def same_root_sel [OF place_same])

text \<open>\<open>RemoveClip\<close> always returns, so a state after it exists.\<close>

lemma RemoveClip_Some:
  obtains R' where "RemoveClip ops p R = Some R'"
proof -
  have "RemoveClip ops p R \<noteq> None"
    using prune_returns [of ops]
    by (simp add: RemoveClip_def Let_def split: option.splits prod.splits del: not_None_eq)
  then show thesis by (auto intro: that)
qed

lemma RemoveClip_entries:
  assumes "RemoveClip ops p R = Some R'"
  shows "r_entries R' = AList.delete p (r_entries R)" "r_mounted R' = r_mounted R"
proof -
  have d: "map_of xs p = None \<Longrightarrow> AList.delete p xs = xs" for xs :: "(string \<times> entry) list"
    by (force simp: map_of_eq_None_iff AList.delete_eq filter_id_conv image_iff)
  have s: "same_root R1 R'" if "prune ops dir (drop_child ops True i n (drop_child ops True i m R1)) = Some R'"
    for dir i n m R1
    using prune_loop_same [OF trim_not_abs that [unfolded prune_def]]
    by (blast intro: same_root_trans drop_child_same)
  have "r_entries R' = AList.delete p (r_entries R) \<and> r_mounted R' = r_mounted R"
    using assms
    by (cases "path_Split p")
      (auto simp: RemoveClip_def Let_def d split: if_splits option.splits dest: same_root_sel [OF s])
  then show "r_entries R' = AList.delete p (r_entries R)" "r_mounted R' = r_mounted R" by simp_all
qed

definition root_remove :: "'f inode_ops \<Rightarrow> string \<Rightarrow> 'f root \<Rightarrow> 'f root" where
  "root_remove ops p R = the (RemoveClip ops p R)"

definition root_clips :: "'f root \<Rightarrow> string \<Rightarrow> (layout \<times> byte list option \<times> int) option" where
  "root_clips R p = map_option (\<lambda>e. (e_layout e, e_nfo e, e_nfo_time e)) (map_of (r_entries R) p)"

interpretation root_sink: clip_sink "SetClip ops" "root_remove ops" root_clips
  for ops :: "'f inode_ops"
proof
  fix p l nfo t and s :: "'f root"
  show "root_clips (SetClip ops p l nfo t s) = (root_clips s)(p \<mapsto> (l, nfo, t))"
    by (rule ext) (simp add: root_clips_def SetClip_entries AList.update_conv')
  obtain s' where r: "RemoveClip ops p s = Some s'" by (rule RemoveClip_Some)
  show "root_clips (root_remove ops p s) = (root_clips s)(p := None)"
    by (intro ext) (simp add: root_clips_def root_remove_def r RemoveClip_entries [OF r]
        AList.delete_conv')
qed

section \<open>Properties\<close>

definition fresh_tree :: "'f inode_ops \<Rightarrow> 'f \<Rightarrow> bool" where
  "fresh_tree ops f \<longleftrightarrow>
     tree ops f \<and> (\<forall>q. view ops f q = (if q = [] then Some RootNode else None))"

lemma empty_heap_fresh: "heap_wf empty_heap" "fresh_tree heap_ops empty_heap"
proof -
  show "heap_wf empty_heap" by (simp add: heap_wf_def empty_heap_def)
  have "view heap_ops empty_heap q = (if q = [] then Some RootNode else None)" for q
    by (cases q) (simp_all add: view_def heap_ops_def empty_heap_def)
  then show "fresh_tree heap_ops empty_heap"
    by (simp add: fresh_tree_def tree_def) (simp add: heap_ops_def empty_heap_def)
qed

lemma mount_tree:
  assumes "inode_tree ops ok" "ok f0" "fresh_tree ops f0" "conflict_free D"
    and "reach ops f0 D R" "r_mounted R"
  shows "view ops (r_tree R) q = Some nd \<longleftrightarrow> served (map_of (r_entries R)) q nd"
proof -
  have a: "agrees ops Map.empty f0"
    using assms(3) by (auto simp: agrees_def fresh_tree_def served_def)
  have "inode_tree.good ops ok f0"
    using assms(2,3) by (simp add: inode_tree.good_def [OF assms(1)] fresh_tree_def)
  from inode_tree.reach_inv(4) [OF assms(1,5) this a assms(4)] assms(6)
  show ?thesis
    by (simp add: agrees_def)
qed

text \<open>C6: After any sequence of \<open>SetClip\<close> and \<open>RemoveClip\<close>, before and after the mount, the
  mounted tree shows exactly the current entries: the root, each clip's \<open>.mkv\<close> with its
  layout, its \<open>.nfo\<close> if it has one, and the directories above them, of which none is empty.
  Nothing of a removed clip stays.  The clips' names are assumed not to collide with folders
  of other clips, and go-fuse's inode operations to do what they promise.\<close>

theorem mount_shows_entries:
  assumes "inode_tree ops ok" "ok f0" "fresh_tree ops f0" "conflict_free D"
    and "reach ops f0 D R" "r_mounted R"
  shows "(view ops (r_tree R) q = Some nd \<longleftrightarrow> served (map_of (r_entries R)) q nd)
    \<and> (view ops (r_tree R) q = Some DirNode \<longrightarrow> (\<exists>n nd'. view ops (r_tree R) (q @ [n]) = Some nd'))"
proof -
  note v = mount_tree [OF assms]
  have "\<exists>n nd'. served (map_of (r_entries R)) (q @ [n]) nd'"
    if "served (map_of (r_entries R)) q DirNode"
  proof -
    from that obtain p e zs where p: "map_of (r_entries R) p = Some e" "dirs_of p = q @ zs"
      by (auto simp: served_def elim!: prefixE)
    then have "served (map_of (r_entries R)) (mkv_of p) (ClipNode p (e_layout e))"
      by (auto simp: served_def)
    moreover obtain n r where "mkv_of p = (q @ [n]) @ r"
      using p(2) by (cases zs) (auto simp: mkv_of_def)
    ultimately show ?thesis
      using served_parent [of "map_of (r_entries R)" "q @ [n]" r] by (cases "r = []") auto
  qed
  with v show ?thesis by auto
qed

definition demo_root :: "heap root" where
  "demo_root = OnAdd heap_ops [(''m/A'', \<lparr>e_layout = demo_final, e_nfo = Some [1], e_nfo_time = 5\<rparr>)]
     (SetClip heap_ops ''m/A'' demo_final (Some [1]) 5 (New 1 1 True 0 empty_heap))"

definition demo_removed :: "heap root" where
  "demo_removed = root_remove heap_ops ''m/A'' (SetClip heap_ops ''B'' demo_final None 7 demo_root)"

lemma demo_reach:
  "reach heap_ops empty_heap {''m/A'', ''B''} demo_root"
  "reach heap_ops empty_heap {''m/A'', ''B''} demo_removed"
proof -
  let ?R = "SetClip heap_ops ''m/A'' demo_final (Some [1]) 5 (New 1 1 True 0 empty_heap)"
  have R: "reach heap_ops empty_heap {''m/A'', ''B''} ?R" by (intro reach.set reach.new) simp
  then show r: "reach heap_ops empty_heap {''m/A'', ''B''} demo_root"
    unfolding demo_root_def
    by (intro reach.on_add) (simp_all add: SetClip_entries New_def)
  obtain R' where R': "RemoveClip heap_ops ''m/A'' (SetClip heap_ops ''B'' demo_final None 7 demo_root)
      = Some R'" by (rule RemoveClip_Some)
  then show "reach heap_ops empty_heap {''m/A'', ''B''} demo_removed"
    unfolding demo_removed_def root_remove_def
    using reach.remove [OF reach.set [OF r] R'] by simp
qed

lemma demo_conflict_free: "conflict_free {''m/A'', ''B''}"
  by (simp add: conflict_free_def clip_path_def elements_def dirs_of_def mkv_of_def nfo_of_def
      name_of_def is_plain_def is_name_def)

lemma demo_entries:
  "r_mounted demo_root" "r_mounted demo_removed"
  "r_entries demo_root = [(''m/A'', \<lparr>e_layout = demo_final, e_nfo = Some [1], e_nfo_time = 5\<rparr>)]"
  "r_entries demo_removed = [(''B'', \<lparr>e_layout = demo_final, e_nfo = None, e_nfo_time = 7\<rparr>)]"
proof -
  show m: "r_mounted demo_root" by (simp add: demo_root_def OnAdd_def)
  show e: "r_entries demo_root = [(''m/A'', \<lparr>e_layout = demo_final, e_nfo = Some [1], e_nfo_time = 5\<rparr>)]"
    by (simp add: demo_root_def OnAdd_def same_root_sel [OF place_same] SetClip_entries New_def)
  obtain R' where R': "RemoveClip heap_ops ''m/A'' (SetClip heap_ops ''B'' demo_final None 7 demo_root)
      = Some R'" by (rule RemoveClip_Some)
  then have d: "demo_removed = R'" by (simp add: demo_removed_def root_remove_def)
  show "r_mounted demo_removed"
    "r_entries demo_removed = [(''B'', \<lparr>e_layout = demo_final, e_nfo = None, e_nfo_time = 7\<rparr>)]"
    by (simp_all add: d RemoveClip_entries [OF R'] SetClip_entries m e)
qed

theorem mount_shows_entries_witness:
  "view heap_ops (r_tree demo_root) [''m'', ''A.mkv''] = Some (ClipNode ''m/A'' demo_final)
   \<and> view heap_ops (r_tree demo_removed) [''B.mkv''] = Some (ClipNode ''B'' demo_final)
   \<and> view heap_ops (r_tree demo_removed) [''m''] = None"
proof -
  have t: "inode_tree heap_ops heap_wf" by unfold_locales
  note m = mount_shows_entries [OF t empty_heap_fresh demo_conflict_free, THEN conjunct1]
  note defs = demo_entries served_def mkv_of_def nfo_of_def dirs_of_def name_of_def elements_def
  have "view heap_ops (r_tree demo_removed) [''m''] \<noteq> Some nd" for nd
    using m [OF demo_reach(2) demo_entries(2), of "[''m'']" nd] by (simp add: defs)
  moreover have "view heap_ops (r_tree demo_root) [''m'', ''A.mkv''] = Some (ClipNode ''m/A'' demo_final)"
    by (subst m [OF demo_reach(1) demo_entries(1)]) (simp add: defs)
  moreover have "view heap_ops (r_tree demo_removed) [''B.mkv''] = Some (ClipNode ''B'' demo_final)"
    by (subst m [OF demo_reach(2) demo_entries(2)]) (simp add: defs)
  ultimately show ?thesis by (metis not_Some_eq)
qed

text \<open>C21: \<open>RemoveClip\<close> always returns: the loop of \<open>prune\<close>, which goes up with \<open>path.Dir\<close>,
  shortens its directory in every turn, whatever the path and the state of the tree.\<close>

theorem RemoveClip_returns: "\<exists>R'. RemoveClip ops clipPath R = Some R'"
  using RemoveClip_Some [of ops clipPath R] by blast

text \<open>C20: No stale directory entry stays in the kernel: every entry of every directory that
  \<open>SetClip\<close> or \<open>RemoveClip\<close> changes on a mounted root has been notified.\<close>

theorem changes_are_notified:
  assumes "inode_tree ops ok" "ok (r_tree R)" "r_mounted R" "r_notes R = []"
    and "R' = SetClip ops p l nfo t R \<or> RemoveClip ops p R = Some R'"
    and "GetChild ops (r_tree R') i n \<noteq> GetChild ops (r_tree R) i n"
  shows "(i, n) \<in> set (r_notes R')"
  using assms(5)
proof
  assume R': "R' = SetClip ops p l nfo t R"
  let ?e = "\<lparr>e_layout = l, e_nfo = nfo, e_nfo_time = t\<rparr>"
  let ?R1 = "R\<lparr>r_entries := AList.update p ?e (r_entries R)\<rparr>"
  have "inode_tree.noted ops ok ?R1 (place ops p ?e True ?R1)"
    using assms(2) by (intro inode_tree.noted_place [OF assms(1)]) simp
  with R' assms(3,6) show ?thesis
    by (simp add: SetClip_def Let_def inode_tree.noted_def [OF assms(1)])
next
  assume rm: "RemoveClip ops p R = Some R'"
  let ?R1 = "R\<lparr>r_entries := AList.delete p (r_entries R)\<rparr>"
  obtain dir name where s: "path_Split p = (dir, name)" by fastforce
  from rm s assms(3,6) obtain j where j: "lookupDir ops (r_tree ?R1) dir = Some j"
    "prune ops dir (drop_child ops True j (name @ ''.nfo'')
      (drop_child ops True j (name @ ''.mkv'') ?R1)) = Some R'"
    by (auto simp: RemoveClip_def Let_def split: if_splits option.splits)
  note N = inode_tree.noted_def [OF assms(1)]
  have wf1: "ok (r_tree ?R1)" using assms(2) by simp
  note k = inode_tree.lookupDir_known [OF assms(1) wf1 j(1)]
  have n2: "inode_tree.noted ops ok ?R1 (drop_child ops True j (name @ ''.mkv'') ?R1)"
    (is "inode_tree.noted ops ok ?R1 ?R2")
    by (rule inode_tree.noted_drop_child [OF assms(1) wf1 k])
  then have k2: "ok (r_tree ?R2)" "Operations ops (r_tree ?R2) j \<noteq> None"
    using k by (simp_all add: N)
  have n3: "inode_tree.noted ops ok ?R2 (drop_child ops True j (name @ ''.nfo'') ?R2)"
    (is "inode_tree.noted ops ok ?R2 ?R3")
    by (rule inode_tree.noted_drop_child [OF assms(1) k2])
  then have "ok (r_tree ?R3)" by (simp add: N)
  from inode_tree.noted_prune_loop [OF assms(1) trim_not_abs this j(2) [unfolded prune_def]]
  have "inode_tree.noted ops ok ?R3 R'" .
  with n2 n3 inode_tree.noted_trans [OF assms(1)] have "inode_tree.noted ops ok ?R1 R'" by blast
  with assms(6) show ?thesis by (simp add: N)
qed

theorem changes_are_notified_witness:
  "(0, ''B.mkv'') \<in> set (r_notes (SetClip heap_ops ''B'' demo_final None 7
     ((New 1 1 True 0 empty_heap)\<lparr>r_mounted := True\<rparr>)))"
proof (rule changes_are_notified [where ok = heap_wf and p = "''B''" and l = demo_final
      and nfo = None and t = 7])
  show "inode_tree heap_ops heap_wf" by unfold_locales
  show "heap_wf (r_tree ((New 1 1 True 0 empty_heap)\<lparr>r_mounted := True\<rparr>))"
    by (simp add: New_def empty_heap_fresh)
  show "GetChild heap_ops (r_tree (SetClip heap_ops ''B'' demo_final None 7
      ((New 1 1 True 0 empty_heap)\<lparr>r_mounted := True\<rparr>))) 0 ''B.mkv''
    \<noteq> GetChild heap_ops (r_tree ((New 1 1 True 0 empty_heap)\<lparr>r_mounted := True\<rparr>)) 0 ''B.mkv''"
    by (simp add: SetClip_def place_def path_Split_def trim_char_def place_set_def drop_child_def
        heap_ops_def empty_heap_def New_def NotifyEntry_def)
qed (simp_all add: New_def)

text \<open>C19: A clip that \<open>Open\<close> opens is served exactly: the handle is for the layout's data file,
  whose size and time match the layout, and every \<open>Read\<close> on it returns the bytes of the
  clip's content at the offset, cut at its end, without an error.  The file is assumed not to
  change after it was opened, and the layout's ranges and total to end below \<open>2 ^ 63\<close>.\<close>

theorem opened_clip_serves_content:
  assumes "clip_Open R path l os_open fstat flags = (Inr ((h, l'), keep), calls)"
    and "fstat h = Inr info" "fi_size info = int (length f)" "reader_at rd f"
    and "Finalize l0 = (l, None)" "fits (l_parts l0)" "0 \<le> off"
  shows "clip_Read as_errno l' rd dest off =
      Some (Inr (take (length dest) (drop (nat off) (parts_content f (l_parts l)))))
    \<and> os_open (f_path (l_data l)) = Inr h \<and> fi_mtime info = f_mtime (l_data l) \<and> calls = []
    \<and> flags AND (O_WRONLY OR O_RDWR) = 0"
proof -
  have o: "flags AND (O_WRONLY OR O_RDWR) = 0" "os_open (f_path (l_data l)) = Inr h"
    "Matches (l_data l) (fstat h)" "l' = l" "calls = []"
    using assms(1) by (auto simp: clip_Open_def split: if_splits sum.splits)
  then have sz: "f_size (l_data l) = int (length f)" "fi_mtime info = f_mtime (l_data l)"
    using assms(2,3) by (simp_all add: Matches_def)
  show ?thesis
    using reader_at.ReadAt_content [OF assms(4) Finalize_finalized [OF assms(5,6)] sz(1) assms(7),
        of dest] o sz(2)
    by (auto simp: clip_Read_def Let_def layout_content_def splice_def min_def)
qed

theorem opened_clip_serves_content_witness:
  "clip_Read (\<lambda>_. None) demo_final (file_reader [10, 11, 12, 13]) [0, 0] 2
    = Some (Inr [11, 12])"
proof -
  let ?info = "\<lparr>fi_regular = True, fi_dir = False, fi_size = 4, fi_mtime = 0\<rparr>"
  have r: "reader_at (file_reader [10, 11, 12, 13]) [10, 11, 12, 13]" by unfold_locales
  have o: "clip_Open demo_root ''m/A'' demo_final (\<lambda>_. Inr (0::nat)) (\<lambda>_. Inr ?info) 0
      = (Inr ((0, demo_final), FOPEN_KEEP_CACHE), [])"
    by (simp add: clip_Open_def Matches_def demo_final_def demo_layout_def)
  from opened_clip_serves_content [OF o _ _ r demo_Finalize demo_fits, of ?info 2 "\<lambda>_. None" "[0, 0]"]
  show ?thesis
    by (simp add: demo_final_def demo_layout_def Literal_def Range_def part_bytes_def
        numeral_eq_Suc)
qed

end
