(* ===== verification/Config.thy ===== *)
theory Config
  imports Layout Paths
begin

text \<open>
  \<^verbatim>\<open>internal/config/config.go\<close>: the clip definitions, their validation, and the mapping of
  an input to a file inside the media folder.  The system calls are the record \<open>os\<close>;
  \<open>encoding/json\<close> and SHA-256 are parameters.  The regular expressions are written out as the
  matchers they denote.  A nil list of clips is the empty list.
\<close>

section \<open>Clips\<close>

text \<open>What \<open>encoding/json\<close> decodes into an \<open>any\<close>; \<open>JOther\<close> stands for every other type, by
  its name.  A map is a list in the order in which the map is iterated.\<close>

datatype json =
    JNull
  | JString string
  | JNumber f64
  | JBool bool
  | JObject "(string \<times> json) list"
  | JArray "json list"
  | JOther string

record clip_def =
  c_input :: string
  c_output :: string
  c_start :: f64
  c_end :: f64
  c_group :: string
  c_nfo_type :: string
  c_metadata :: "(string \<times> json) list option"

definition MaxClipSeconds :: int where "MaxClipSeconds = 6 * 3600"

definition Path :: "clip_def \<Rightarrow> string" where
  "Path c =
     (let g = trim_char slash (c_group c)
      in if g = [] then c_output c else g @ ''/'' @ c_output c)"

definition NfoTypes :: "string list" where
  "NfoTypes = [''movie'', ''episodedetails'', ''musicvideo'']"

definition is_digit :: "char \<Rightarrow> bool" where
  "is_digit c \<longleftrightarrow> CHR ''0'' \<le> c \<and> c \<le> CHR ''9''"

definition is_letter :: "char \<Rightarrow> bool" where
  "is_letter c \<longleftrightarrow> CHR ''A'' \<le> c \<and> c \<le> CHR ''Z'' \<or> CHR ''a'' \<le> c \<and> c \<le> CHR ''z''"

definition xmlName :: "string \<Rightarrow> bool" where
  "xmlName k =
     (case k of [] \<Rightarrow> False
      | c # cs \<Rightarrow> (is_letter c \<or> c = CHR ''_'') \<and> length cs \<le> 63
          \<and> list_all (\<lambda>x. is_letter x \<or> is_digit x \<or> x \<in> set ''_.-'') cs)"

definition ValidKey :: "(string \<Rightarrow> string) \<Rightarrow> string \<Rightarrow> bool" where
  "ValidKey ul k \<longleftrightarrow> xmlName k \<and> \<not> HasPrefix (ToLower ul k) ''xml''"

section \<open>The clips file\<close>

datatype os_err = NotExist | OsErr string

record dir_entry =
  d_name :: string
  d_info :: "os_err + file_info"

text \<open>The system calls and the functions of \<open>os\<close> and \<open>filepath\<close> made of them.\<close>

record os =
  os_Getwd :: "os_err + string"
  os_Stat :: "string \<Rightarrow> os_err + file_info"
  os_ReadFile :: "string \<Rightarrow> os_err + byte list"
  os_ReadDir :: "string \<Rightarrow> os_err + dir_entry list"
  os_EvalSymlinks :: "string \<Rightarrow> os_err + string"

text \<open>A zero modification time is \<open>None\<close>.\<close>

record clips_file =
  fl_clips :: "clip_def list"
  fl_mtime :: "int option"
  fl_version :: string

definition hex_digit :: "nat \<Rightarrow> char" where
  "hex_digit n = ''0123456789abcdef'' ! n"

definition hex_string :: "byte list \<Rightarrow> string" where
  "hex_string bs = concat (map (\<lambda>b. [hex_digit (unat b div 16), hex_digit (unat b mod 16)]) bs)"

definition Version :: "(byte list \<Rightarrow> byte list) \<Rightarrow> byte list \<Rightarrow> string" where
  "Version sha256 data = hex_string (take 8 (sha256 data))"

datatype load_err = LoadOs os_err | LoadParse string string

definition text_of :: "byte list \<Rightarrow> string" where
  "text_of bs = map (\<lambda>b. char_of (unat b)) bs"

text \<open>\<open>decode\<close> is the JSON decoder with unknown kvs disallowed.\<close>

definition Parse :: "(byte list \<Rightarrow> string + clip_def list) \<Rightarrow> byte list \<Rightarrow> string + clip_def list" where
  "Parse decode data = (if TrimSpace (text_of data) = [] then Inr [] else decode data)"

definition config_Load ::
  "os \<Rightarrow> (byte list \<Rightarrow> byte list) \<Rightarrow> (byte list \<Rightarrow> string + clip_def list) \<Rightarrow> string \<Rightarrow>
   load_err + clips_file" where
  "config_Load os sha256 decode path =
     (case os_ReadFile os path of
        Inl NotExist \<Rightarrow>
          Inr \<lparr>fl_clips = [], fl_mtime = None, fl_version = Version sha256 []\<rparr>
      | Inl e \<Rightarrow> Inl (LoadOs e)
      | Inr data \<Rightarrow>
          (case os_Stat os path of
             Inl e \<Rightarrow> Inl (LoadOs e)
           | Inr info \<Rightarrow>
               (case Parse decode data of
                  Inl e \<Rightarrow> Inl (LoadParse path e)
                | Inr clips \<Rightarrow>
                    Inr \<lparr>fl_clips = clips, fl_mtime = Some (fi_mtime info),
                      fl_version = Version sha256 data\<rparr>)))"

definition Encode :: "(clip_def list \<Rightarrow> string + byte list) \<Rightarrow> clip_def list \<Rightarrow> string + byte list" where
  "Encode marshal clips =
     (case marshal clips of Inl e \<Rightarrow> Inl e | Inr b \<Rightarrow> Inr (b @ [0x0A]))"

definition config_Save ::
  "(clip_def list \<Rightarrow> string + byte list) \<Rightarrow> (byte list \<Rightarrow> byte list) \<Rightarrow> write_env \<Rightarrow> fs \<Rightarrow> string \<Rightarrow>
   clip_def list \<Rightarrow> fs list \<times> (string + string)" where
  "config_Save marshal sha256 env fs path clips =
     (case Encode marshal clips of
        Inl e \<Rightarrow> ([fs], Inl e)
      | Inr b \<Rightarrow>
          (case WriteFileAtomic env fs path b 0x1B4 of
             (states, Some e) \<Rightarrow> (states, Inl e)
           | (states, None) \<Rightarrow> (states, Inr (Version sha256 b))))"

section \<open>Replaced inputs\<close>

definition VideoExts :: "string list" where
  "VideoExts = [''.mkv'', ''.mp4'', ''.m4v'', ''.avi'', ''.ts'', ''.mov'', ''.webm'', ''.mk3d'']"

text \<open>\<open>(\[[^\]]*\])+\<close> at the front: the tags and the rest.\<close>

function bracket_tags :: "string \<Rightarrow> string list \<times> string" where
  "bracket_tags s =
     (if s \<noteq> [] \<and> hd s = CHR ''['' \<and> CHR '']'' \<in> set s
      then (let t = takeWhile (\<lambda>c. c \<noteq> CHR '']'') s @ '']''
            in case bracket_tags (drop (length t) s) of (ts, rest) \<Rightarrow> (t # ts, rest))
      else ([], s))"
  by pat_completeness auto
termination
  by (relation "measure length") (auto simp: diff_less)

declare bracket_tags.simps [simp del]

text \<open>\<open>(.*)\.[A-Za-z0-9]+$\<close>; a dot does not match a newline.\<close>

definition ext_ok :: "string \<Rightarrow> bool" where
  "ext_ok s =
     (let r = rev s;
          e = takeWhile (\<lambda>c. is_letter c \<or> is_digit c) r;
          rest = drop (length e) r
      in e \<noteq> [] \<and> rest \<noteq> [] \<and> hd rest = CHR ''.'' \<and> CHR 0x0A \<notin> set rest)"

text \<open>\<open>taggedName\<close>: the shortest title that ends in \<open> - \<close>, with the tags after it.  Once the
  tags are all taken a shorter run of them cannot match either, because the extension comes
  after the last bracket.\<close>

fun tagged_from :: "string \<Rightarrow> string \<Rightarrow> (string \<times> string list) option" where
  "tagged_from pre [] = None"
| "tagged_from pre (c # cs) =
     (case (if HasPrefix (c # cs) '' - '' then bracket_tags (drop 3 (c # cs)) else ([], [])) of
        (tags, rest) \<Rightarrow>
          if tags \<noteq> [] \<and> ext_ok rest then Some (rev pre @ '' - '', tags)
          else if c = CHR 0x0A then None
          else tagged_from (c # pre) cs)"

definition taggedName :: "string \<Rightarrow> (string \<times> string list) option" where
  "taggedName name = tagged_from [] name"

text \<open>\<open>qualityTag\<close>.  Without regard to case: two letters also fold to runes outside ASCII,
  \<open>k\<close> to U+212A and \<open>s\<close> to U+017F.\<close>

fun fold_prefix :: "string \<Rightarrow> string \<Rightarrow> string option" where
  "fold_prefix [] s = Some s"
| "fold_prefix (p # ps) s =
     (if s \<noteq> [] \<and> lower_char (hd s) = p then fold_prefix ps (tl s)
      else if p = CHR ''k'' \<and> HasPrefix s ([CHR 0xE2, CHR 0x84, CHR 0xAA]) then fold_prefix ps (drop 3 s)
      else if p = CHR ''s'' \<and> HasPrefix s ([CHR 0xC5, CHR 0xBF]) then fold_prefix ps (drop 2 s)
      else None)"

definition quality_words :: "string list" where
  "quality_words =
     [''blu-ray'', ''bluray'', ''web-dl'', ''webdl'', ''webrip'', ''web'', ''hdtv'', ''dvdrip'',
      ''dvdscr'', ''dvd'', ''sdtv'', ''remux'', ''raw-hd'', ''br-disk'', ''unknown'', ''telesync'',
      ''telecine'', ''workprint'', ''cam'']"

definition is_word :: "char \<Rightarrow> bool" where
  "is_word c \<longleftrightarrow> is_letter c \<or> is_digit c \<or> c = CHR ''_''"

definition word_at :: "string \<Rightarrow> nat \<Rightarrow> bool" where
  "word_at s i \<longleftrightarrow> i < length s \<and> is_word (s ! i)"

text \<open>\<open>\b\<close> before the byte at \<open>i\<close>.\<close>

definition boundary :: "string \<Rightarrow> nat \<Rightarrow> bool" where
  "boundary s i \<longleftrightarrow> (0 < i \<and> word_at s (i - 1)) \<noteq> word_at s i"

definition quality_at :: "string \<Rightarrow> nat \<Rightarrow> bool" where
  "quality_at s i \<longleftrightarrow>
     (3 \<le> length (takeWhile is_digit (drop i s))
      \<and> (let rest = drop (i + 3) s in
           rest \<noteq> [] \<and> (lower_char (hd rest) = CHR ''p''
             \<or> is_digit (hd rest) \<and> tl rest \<noteq> [] \<and> lower_char (hd (tl rest)) = CHR ''p'')))
     \<or> (boundary s i
        \<and> list_ex (\<lambda>w. case fold_prefix w (drop i s) of
              None \<Rightarrow> False
            | Some rest \<Rightarrow> boundary s (length s - length rest)) quality_words)"

definition qualityTag :: "string \<Rightarrow> bool" where
  "qualityTag s = list_ex (quality_at s) [0..<length s]"

text \<open>The tags before the first quality tag.\<close>

fun before_quality :: "string list \<Rightarrow> string list option" where
  "before_quality [] = None"
| "before_quality (t # ts) =
     (if qualityTag t then Some [] else map_option ((#) t) (before_quality ts))"

definition identity :: "string \<Rightarrow> string option" where
  "identity name =
     (case taggedName name of
        None \<Rightarrow> None
      | Some (title, tags) \<Rightarrow>
          map_option (\<lambda>ts. title @ join [] ts) (before_quality tags))"

fun replacement_loop ::
  "(string \<Rightarrow> string) \<Rightarrow> string \<Rightarrow> string \<Rightarrow> dir_entry list \<Rightarrow> string \<Rightarrow> int \<Rightarrow> string" where
  "replacement_loop ul p want [] best bestTime = best"
| "replacement_loop ul p want (e # es) best bestTime =
     (if ToLower ul (path_Ext (d_name e)) \<notin> set VideoExts
      then replacement_loop ul p want es best bestTime
      else if identity (d_name e) \<noteq> Some want then replacement_loop ul p want es best bestTime
      else (case d_info e of
          Inl _ \<Rightarrow> replacement_loop ul p want es best bestTime
        | Inr info \<Rightarrow>
            if \<not> fi_regular info then replacement_loop ul p want es best bestTime
            else if best = [] \<or> bestTime < fi_mtime info
            then replacement_loop ul p want es (path_Join [path_Dir p, d_name e]) (fi_mtime info)
            else replacement_loop ul p want es best bestTime))"

definition Replacement :: "(string \<Rightarrow> string) \<Rightarrow> os \<Rightarrow> string \<Rightarrow> string option" where
  "Replacement ul os p =
     (case identity (path_Base p) of
        None \<Rightarrow> None
      | Some want \<Rightarrow>
          (case os_ReadDir os (path_Dir p) of
             Inl _ \<Rightarrow> None
           | Inr entries \<Rightarrow>
               (let best = replacement_loop ul p want entries [] 0
                in if best = [] then None else Some best)))"

section \<open>Inputs\<close>

datatype input_err =
    InputEmpty
  | InputNul
  | OutsideMedia string
  | InputMissing string
  | ResolvesOutside string
  | InputNotFile string
  | InputOs os_err

definition Abs_path :: "os \<Rightarrow> string \<Rightarrow> os_err + string" where
  "Abs_path os p =
     (if IsAbs p then Inr (Clean p)
      else (case os_Getwd os of Inl e \<Rightarrow> Inl e | Inr wd \<Rightarrow> Inr (path_Join [wd, p])))"

definition ResolveInput :: "(string \<Rightarrow> string) \<Rightarrow> os \<Rightarrow> string \<Rightarrow> string \<Rightarrow> input_err + string" where
  "ResolveInput ul os mediaRoot input =
     (if TrimSpace input = [] then Inl InputEmpty
      else if CHR 0x00 \<in> set input then Inl InputNul
      else (case Abs_path os mediaRoot of
          Inl e \<Rightarrow> Inl (InputOs e)
        | Inr base \<Rightarrow>
            let cleaned = Clean input
            in (case (if IsAbs cleaned then path_Rel base cleaned else Some cleaned) of
                  None \<Rightarrow> Inl (OutsideMedia input)
                | Some rel \<Rightarrow>
                    if \<not> IsLocal rel then Inl (OutsideMedia input)
                    else
                      let p0 = path_Join [base, rel];
                          p = (if os_Stat os p0 = Inl NotExist
                               then (case Replacement ul os p0 of Some alt \<Rightarrow> alt | None \<Rightarrow> p0)
                               else p0)
                      in (case os_EvalSymlinks os p of
                            Inl NotExist \<Rightarrow> Inl (InputMissing input)
                          | Inl e \<Rightarrow> Inl (InputOs e)
                          | Inr resolved \<Rightarrow>
                              (case os_EvalSymlinks os base of
                                 Inl e \<Rightarrow> Inl (InputOs e)
                               | Inr realRoot \<Rightarrow>
                                   if \<not> HasPrefix resolved (TrimSuffix realRoot ''/'' @ ''/'')
                                   then Inl (ResolvesOutside input)
                                   else (case os_Stat os resolved of
                                       Inl e \<Rightarrow> Inl (InputOs e)
                                     | Inr info \<Rightarrow>
                                         if \<not> fi_regular info then Inl (InputNotFile input)
                                         else Inr p))))))"

definition Relative :: "string \<Rightarrow> string \<Rightarrow> string" where
  "Relative mediaRoot p =
     (case path_Rel mediaRoot p of
        Some rel \<Rightarrow> if IsLocal rel then rel else p
      | None \<Rightarrow> p)"

section \<open>Validation\<close>

datatype name_err =
    NameEmpty | NameDots | NameBadChar | NameHidden | NameLong | NameSpaces | NameControl

definition checkName :: "string \<Rightarrow> name_err option" where
  "checkName name =
     (if TrimSpace name = [] then Some NameEmpty
      else if name = ''.'' \<or> name = ''..'' then Some NameDots
      else if list_ex (\<lambda>c. c \<in> {slash, CHR 0x5C, CHR 0x00}) name then Some NameBadChar
      else if HasPrefix name ''.'' then Some NameHidden
      else if 200 < length name then Some NameLong
      else if name \<noteq> TrimSpace name then Some NameSpaces
      else if list_ex (\<lambda>r. of_char r < (0x20::nat) \<or> of_char r = (0x7F::nat)) name
      then Some NameControl
      else None)"

datatype meta_err = MetaDeep | MetaKey string | MetaType string

fun checkMetadata :: "(string \<Rightarrow> string) \<Rightarrow> json \<Rightarrow> nat \<Rightarrow> meta_err option"
and checkFields :: "(string \<Rightarrow> string) \<Rightarrow> (string \<times> json) list \<Rightarrow> nat \<Rightarrow> meta_err option"
and checkItems :: "(string \<Rightarrow> string) \<Rightarrow> json list \<Rightarrow> nat \<Rightarrow> meta_err option" where
  "checkMetadata ul v depth =
     (if 3 < depth then Some MetaDeep
      else (case v of
          JNull \<Rightarrow> None
        | JString _ \<Rightarrow> None
        | JNumber _ \<Rightarrow> None
        | JBool _ \<Rightarrow> None
        | JObject kvs \<Rightarrow> checkFields ul kvs depth
        | JArray items \<Rightarrow> checkItems ul items depth
        | JOther t \<Rightarrow> Some (MetaType t)))"
| "checkFields ul [] depth = None"
| "checkFields ul ((k, child) # kvs) depth =
     (if \<not> ValidKey ul k then Some (MetaKey k)
      else (case checkMetadata ul child (depth + 1) of
          Some e \<Rightarrow> Some e
        | None \<Rightarrow> checkFields ul kvs depth))"
| "checkItems ul [] depth = None"
| "checkItems ul (child # items) depth =
     (case checkMetadata ul child (depth + 1) of
        Some e \<Rightarrow> Some e
      | None \<Rightarrow> checkItems ul items depth)"

datatype problem =
    BadOutput name_err
  | BadGroup string name_err
  | SamePath nat string
  | BadTimes f64 f64
  | TooLong
  | BadInput input_err
  | BadNfoType
  | BadMetadata meta_err

definition contains :: "string list \<Rightarrow> string \<Rightarrow> bool" where
  "contains xs s = list_ex (\<lambda>v. v = s) xs"

text \<open>The body of the loop of \<open>Validate\<close> for one clip; \<open>seen\<close> maps lower-case paths to the
  index of the first clip that has them.\<close>

definition clip_problems ::
  "(string \<Rightarrow> string) \<Rightarrow> os \<Rightarrow> string \<Rightarrow> (string \<Rightarrow> nat option) \<Rightarrow> clip_def \<Rightarrow> problem list" where
  "clip_problems ul os mediaRoot seen c =
     (case checkName (c_output c) of Some e \<Rightarrow> [BadOutput e] | None \<Rightarrow> [])
     @ (let g = trim_char slash (c_group c) in
        if g = [] then []
        else concat (map (\<lambda>part. case checkName part of Some e \<Rightarrow> [BadGroup part e] | None \<Rightarrow> [])
          (split_on slash g)))
     @ (case seen (ToLower ul (Path c)) of Some j \<Rightarrow> [SamePath j (Path c)] | None \<Rightarrow> [])
     @ (if f64_less (c_start c) (Fin 0) \<or> f64_le (c_end c) (c_start c)
        then [BadTimes (c_end c) (c_start c)]
        else if f64_less (Fin (of_int MaxClipSeconds)) (f64_sub (c_end c) (c_start c))
        then [TooLong] else [])
     @ (case ResolveInput ul os mediaRoot (c_input c) of Inl e \<Rightarrow> [BadInput e] | Inr _ \<Rightarrow> [])
     @ (if c_nfo_type c \<noteq> [] \<and> \<not> contains NfoTypes (c_nfo_type c) then [BadNfoType] else [])
     @ (case checkMetadata ul
          (JObject (case c_metadata c of None \<Rightarrow> [] | Some m \<Rightarrow> m)) 0 of
          Some e \<Rightarrow> [BadMetadata e] | None \<Rightarrow> [])"

fun validate_from ::
  "(string \<Rightarrow> string) \<Rightarrow> os \<Rightarrow> string \<Rightarrow> nat \<Rightarrow> (string \<Rightarrow> nat option) \<Rightarrow> clip_def list \<Rightarrow>
   (nat \<times> problem) list" where
  "validate_from ul os mediaRoot i seen [] = []"
| "validate_from ul os mediaRoot i seen (c # cs) =
     map (\<lambda>p. (i, p)) (clip_problems ul os mediaRoot seen c)
     @ validate_from ul os mediaRoot (Suc i)
         (if seen (ToLower ul (Path c)) = None then seen(ToLower ul (Path c) \<mapsto> i) else seen) cs"

text \<open>The problems by clip index; an empty list is a nil error.\<close>

definition Validate ::
  "(string \<Rightarrow> string) \<Rightarrow> os \<Rightarrow> clip_def list \<Rightarrow> string \<Rightarrow> (nat \<times> problem) list" where
  "Validate ul os clips mediaRoot = validate_from ul os mediaRoot 0 Map.empty clips"

section \<open>Where an input can lead\<close>

text \<open>What the operating system promises: the working directory is an absolute path, a
  directory lists names, and a path whose links resolve exists.\<close>

definition os_ok :: "os \<Rightarrow> bool" where
  "os_ok os \<longleftrightarrow>
     (\<forall>wd. os_Getwd os = Inr wd \<longrightarrow> IsAbs wd)
     \<and> (\<forall>dir es e. os_ReadDir os dir = Inr es \<and> e \<in> set es \<longrightarrow> is_name (d_name e))
     \<and> (\<forall>p q. os_EvalSymlinks os p = Inr q \<longrightarrow> os_Stat os p \<noteq> Inl NotExist)"

lemma Abs_path_abs:
  assumes "os_ok os" "Abs_path os p = Inr r"
  obtains rs where "list_all is_plain rs" "r = abs_of rs"
proof (cases "IsAbs p")
  case True
  with assms(2) have "r = Clean p" by (simp add: Abs_path_def)
  with Clean_abs [OF True] that show thesis by metis
next
  case False
  with assms obtain wd where wd: "IsAbs wd" "r = path_Join [wd, p]"
    by (auto simp: Abs_path_def os_ok_def split: sum.splits)
  then have "wd \<noteq> []" "IsAbs (wd @ ''/'' @ p)" by (cases wd; simp)+
  with Clean_abs [of "wd @ ''/'' @ p"] wd that show thesis
    by (auto simp: path_Join_def)
qed

text \<open>A local input names a path below the media folder.\<close>

lemma local_below:
  assumes "list_all is_plain rs"
    "(if IsAbs (Clean input) then path_Rel (abs_of rs) (Clean input) else Some (Clean input)) = Some rel"
    "IsLocal rel"
  obtains ds where "list_all is_plain ds" "path_Join [abs_of rs, rel] = abs_of (rs @ ds)"
proof -
  obtain ds where ds: "list_all is_plain ds" "rel = rel_of 0 ds"
  proof (cases "IsAbs (Clean input)")
    case True
    with assms path_Rel_local [of rs "Clean input" rel] that show thesis by (auto split: if_splits)
  next
    case False
    then have "\<not> IsAbs input" using Clean_abs [of input] by fastforce
    with Clean_rel obtain k ps where "list_all is_plain ps" "Clean input = rel_of k ps" by blast
    with False assms(2,3) IsLocal_rel_of that show thesis by auto
  qed
  have "rel \<noteq> []"
    using ds join_names_ne(1) [OF is_plain_name [OF ds(1)]] by (auto simp: rel_of_def)
  with Join_abs_of [OF assms(1) ds(1) _ ds(2)] ds(1) show thesis by (intro that [of ds]) auto
qed

lemma Dir_abs_of:
  assumes "list_all is_plain ps" "is_plain n"
  shows "path_Dir (abs_of (ps @ [n])) = abs_of ps" "path_Base (abs_of (ps @ [n])) = n"
proof -
  have n: "slash \<notin> set n" "n \<noteq> []" "is_name n" using assms(2) by (simp_all add: is_plain_def is_name_def)
  have eq: "abs_of (ps @ [n]) = (if ps = [] then ''/'' @ n else abs_of ps @ slash # n)"
    using join_append [of ps "[n]" "''/''"] by (simp add: abs_of_def)
  have s: "path_Split (abs_of (ps @ [n])) = (if ps = [] then ''/'' else abs_of ps @ ''/'', n)"
    using path_Split_app(2) [OF n(1), of "[]"] path_Split_app(2) [OF n(1), of "abs_of ps"] by (simp add: eq)
  show "path_Dir (abs_of (ps @ [n])) = abs_of ps"
  proof (cases "ps = []")
    case True
    with s show ?thesis by (simp add: path_Dir_def Clean_def clean_step_def abs_of_def)
  next
    case False
    then show ?thesis
      using Clean_abs_of_append [OF assms(1), of "[]" "[]"] by (simp add: path_Dir_def s)
  qed
  have "last (abs_of (ps @ [n])) \<noteq> slash"
    using n by (auto simp: eq) (metis last_in_set)+
  then have "rev (dropWhile (\<lambda>c. c = slash) (rev (abs_of (ps @ [n])))) = abs_of (ps @ [n])"
    by (cases "abs_of (ps @ [n])" rule: rev_cases) auto
  then show "path_Base (abs_of (ps @ [n])) = n"
    by (simp add: path_Base_def s Let_def) (simp add: abs_of_def)
qed

section \<open>The replacement\<close>

text \<open>The files that may replace \<open>p\<close>: regular videos of the same identity.\<close>

definition candidate :: "(string \<Rightarrow> string) \<Rightarrow> string \<Rightarrow> dir_entry \<Rightarrow> file_info \<Rightarrow> bool" where
  "candidate ul want e info \<longleftrightarrow>
     ToLower ul (path_Ext (d_name e)) \<in> set VideoExts \<and> identity (d_name e) = Some want
     \<and> d_info e = Inr info \<and> fi_regular info"

lemma path_Join_ne: "a \<noteq> [] \<Longrightarrow> path_Join (a # xs) \<noteq> []"
  by (auto simp: path_Join_def Clean_def Let_def)

lemma path_Dir_ne: "path_Dir p \<noteq> []"
  by (auto simp: path_Dir_def Clean_def Let_def)

lemma replacement_loop_newest:
  fixes ul p want
  defines "join_to \<equiv> \<lambda>e. path_Join [path_Dir p, d_name e]"
  assumes "replacement_loop ul p want es best t = r"
  shows "r = best \<and> (\<forall>e \<in> set es. \<forall>info. candidate ul want e info \<longrightarrow> best \<noteq> [] \<and> fi_mtime info \<le> t)
    \<or> (\<exists>e \<in> set es. \<exists>info. candidate ul want e info \<and> r = join_to e
        \<and> (best = [] \<or> t < fi_mtime info)
        \<and> (\<forall>e' \<in> set es. \<forall>info'. candidate ul want e' info' \<longrightarrow> fi_mtime info' \<le> fi_mtime info))"
  using assms(2)
proof (induction es arbitrary: best t)
  case (Cons e es)
  have ne: "join_to e \<noteq> []" by (simp add: join_to_def path_Join_ne path_Dir_ne)
  show ?case
  proof (cases "\<exists>info. candidate ul want e info")
    case False
    then have "replacement_loop ul p want (e # es) best t = replacement_loop ul p want es best t"
      by (auto simp: candidate_def split: sum.splits)
    with Cons.IH [of best t] Cons.prems False show ?thesis by auto
  next
    case True
    then obtain info where c: "candidate ul want e info" by blast
    then have u: "candidate ul want e info' \<longleftrightarrow> info' = info" for info' by (auto simp: candidate_def)
    show ?thesis
    proof (cases "best = [] \<or> t < fi_mtime info")
      case True
      with c have "replacement_loop ul p want (e # es) best t =
          replacement_loop ul p want es (join_to e) (fi_mtime info)"
        by (auto simp: candidate_def join_to_def)
      with Cons.prems have "replacement_loop ul p want es (join_to e) (fi_mtime info) = r" by simp
      from Cons.IH [OF this] ne consider
          "r = join_to e" "\<forall>e' \<in> set es. \<forall>info'. candidate ul want e' info' \<longrightarrow> fi_mtime info' \<le> fi_mtime info"
        | e2 info2 where "e2 \<in> set es" "candidate ul want e2 info2" "r = join_to e2"
          "fi_mtime info < fi_mtime info2"
          "\<forall>e' \<in> set es. \<forall>info'. candidate ul want e' info' \<longrightarrow> fi_mtime info' \<le> fi_mtime info2"
        by blast
      then show ?thesis
      proof cases
        case 1
        with c u True have "\<forall>e' \<in> set (e # es). \<forall>info'. candidate ul want e' info' \<longrightarrow> fi_mtime info' \<le> fi_mtime info"
          by simp
        with 1(1) c True show ?thesis
          by (intro disjI2 bexI [of _ e] exI [of _ info]) simp_all
      next
        case 2
        with u have "\<forall>e' \<in> set (e # es). \<forall>info'. candidate ul want e' info' \<longrightarrow> fi_mtime info' \<le> fi_mtime info2"
          by simp
        moreover have "best = [] \<or> t < fi_mtime info2" using True 2(4) by auto
        ultimately show ?thesis
          using 2(1-3) by (intro disjI2 bexI [of _ e2] exI [of _ info2]) simp_all
      qed
    next
      case False
      with c have "replacement_loop ul p want (e # es) best t = replacement_loop ul p want es best t"
        by (auto simp: candidate_def)
      with Cons.prems have "replacement_loop ul p want es best t = r" by simp
      from Cons.IH [OF this] show ?thesis
      proof
        assume "r = best \<and> (\<forall>e \<in> set es. \<forall>info. candidate ul want e info \<longrightarrow> best \<noteq> [] \<and> fi_mtime info \<le> t)"
        with False u show ?thesis by simp
      next
        assume "\<exists>e \<in> set es. \<exists>info. candidate ul want e info \<and> r = join_to e
          \<and> (best = [] \<or> t < fi_mtime info)
          \<and> (\<forall>e' \<in> set es. \<forall>info'. candidate ul want e' info' \<longrightarrow> fi_mtime info' \<le> fi_mtime info)"
        then obtain e2 info2 where e2: "e2 \<in> set es" "candidate ul want e2 info2" "r = join_to e2"
          "best = [] \<or> t < fi_mtime info2"
          "\<forall>e' \<in> set es. \<forall>info'. candidate ul want e' info' \<longrightarrow> fi_mtime info' \<le> fi_mtime info2"
          by blast
        with u False have "\<forall>e' \<in> set (e # es). \<forall>info'. candidate ul want e' info' \<longrightarrow> fi_mtime info' \<le> fi_mtime info2"
          by simp
        with e2 show ?thesis by (intro disjI2 bexI [of _ e2] exI [of _ info2]) simp_all
      qed
    qed
  qed
qed simp

lemma Replacement_cases:
  "case Replacement ul os p of
     Some q \<Rightarrow> \<exists>want es e info. identity (path_Base p) = Some want \<and> os_ReadDir os (path_Dir p) = Inr es
       \<and> e \<in> set es \<and> candidate ul want e info \<and> q = path_Join [path_Dir p, d_name e]
       \<and> (\<forall>e' \<in> set es. \<forall>info'. candidate ul want e' info' \<longrightarrow> fi_mtime info' \<le> fi_mtime info)
   | None \<Rightarrow> \<forall>want es e info. identity (path_Base p) = Some want \<and> os_ReadDir os (path_Dir p) = Inr es
       \<and> e \<in> set es \<longrightarrow> \<not> candidate ul want e info"
proof (cases "identity (path_Base p)")
  case None
  then show ?thesis by (simp add: Replacement_def)
next
  case (Some want)
  show ?thesis
  proof (cases "os_ReadDir os (path_Dir p)")
    case (Inl e)
    with Some show ?thesis by (simp add: Replacement_def)
  next
    case (Inr es)
    have ne: "path_Join [path_Dir p, d_name e] \<noteq> []" "[] \<noteq> path_Join [path_Dir p, d_name e]" for e :: dir_entry
      using path_Join_ne [OF path_Dir_ne] by metis+
    from replacement_loop_newest [OF refl, of ul p want es "[]" 0] Some Inr ne
    show ?thesis by (auto simp: Replacement_def Let_def)
  qed
qed

lemma identity_plain: "identity n = Some want \<Longrightarrow> is_name n \<Longrightarrow> is_plain n"
proof -
  have "identity ''.'' = None" "identity ''..'' = None"
    by (simp_all add: identity_def taggedName_def HasPrefix_def)
  then show "identity n = Some want \<Longrightarrow> is_name n \<Longrightarrow> is_plain n"
    by (auto simp: is_plain_def)
qed

section \<open>What validation accepts\<close>

definition name_ok :: "string \<Rightarrow> bool" where
  "name_ok n \<longleftrightarrow>
     n \<noteq> [] \<and> n \<noteq> ''.'' \<and> n \<noteq> ''..'' \<and> n = TrimSpace n \<and> hd n \<noteq> CHR ''.'' \<and> length n \<le> 200
     \<and> list_all (\<lambda>c. c \<noteq> slash \<and> c \<noteq> CHR 0x5C \<and> (0x20::nat) \<le> of_char c \<and> of_char c \<noteq> (0x7F::nat)) n"

lemma checkName_None: "checkName n = None \<longleftrightarrow> name_ok n"
proof -
  have key: "list_all (\<lambda>c. c \<noteq> slash \<and> c \<noteq> CHR 0x5C \<and> (0x20::nat) \<le> of_char c
        \<and> of_char c \<noteq> (0x7F::nat)) xs \<longleftrightarrow>
      \<not> list_ex (\<lambda>c. c \<in> {slash, CHR 0x5C, CHR 0x00}) xs
      \<and> \<not> list_ex (\<lambda>r. of_char r < (0x20::nat) \<or> of_char r = (0x7F::nat)) xs" for xs
    by (induction xs) auto
  have hp: "HasPrefix n ''.'' \<longleftrightarrow> n \<noteq> [] \<and> hd n = CHR ''.''" by (cases n) (auto simp: HasPrefix_def)
  have ts: "TrimSpace [] = []"
    by (simp add: TrimSpace_def trim_front.simps [of _ "[]"] HasPrefix_def space_runes_def)
  show ?thesis
    unfolding checkName_def name_ok_def key hp using ts by (simp add: not_less)
qed

lemma name_ok_plain: "name_ok n \<Longrightarrow> is_plain n"
  by (auto simp: name_ok_def is_plain_def is_name_def list_all_iff)

text \<open>The parts of a group, as \<open>Validate\<close> checks them.\<close>

definition group_parts :: "clip_def \<Rightarrow> string list" where
  "group_parts c =
     (if trim_char slash (c_group c) = [] then [] else split_on slash (trim_char slash (c_group c)))"

lemma Path_join: "Path c = join ''/'' (group_parts c @ [c_output c])"
  by (simp add: Path_def group_parts_def Let_def join_append join_split_on)

text \<open>What a clip has to satisfy on its own.\<close>

definition clip_ok :: "(string \<Rightarrow> string) \<Rightarrow> os \<Rightarrow> string \<Rightarrow> clip_def \<Rightarrow> bool" where
  "clip_ok ul os mediaRoot c \<longleftrightarrow>
     list_all name_ok (group_parts c @ [c_output c])
     \<and> \<not> f64_less (c_start c) (Fin 0) \<and> \<not> f64_le (c_end c) (c_start c)
     \<and> \<not> f64_less (Fin (of_int MaxClipSeconds)) (f64_sub (c_end c) (c_start c))
     \<and> (\<exists>p. ResolveInput ul os mediaRoot (c_input c) = Inr p)
     \<and> (c_nfo_type c = [] \<or> c_nfo_type c \<in> set NfoTypes)
     \<and> checkMetadata ul (JObject (case c_metadata c of None \<Rightarrow> [] | Some m \<Rightarrow> m)) 0 = None"

lemma clip_problems_none:
  "clip_problems ul os mediaRoot seen c = [] \<longleftrightarrow>
     clip_ok ul os mediaRoot c \<and> seen (ToLower ul (Path c)) = None"
proof -
  have o: "(case checkName n of Some e \<Rightarrow> [f e] | None \<Rightarrow> []) = [] \<longleftrightarrow> name_ok n" for n and f :: "name_err \<Rightarrow> problem"
    using checkName_None [of n] by (cases "checkName n") auto
  have g: "(let g = trim_char slash (c_group c) in
        if g = [] then []
        else concat (map (\<lambda>part. case checkName part of Some e \<Rightarrow> [BadGroup part e] | None \<Rightarrow> [])
          (split_on slash g))) = [] \<longleftrightarrow> list_all name_ok (group_parts c)"
    by (auto simp: group_parts_def Let_def o list_all_iff)
  have s: "(case seen (ToLower ul (Path c)) of Some j \<Rightarrow> [SamePath j (Path c)] | None \<Rightarrow> []) = []
      \<longleftrightarrow> seen (ToLower ul (Path c)) = None"
    by (cases "seen (ToLower ul (Path c))") auto
  have i: "(case ResolveInput ul os mediaRoot (c_input c) of Inl e \<Rightarrow> [BadInput e] | Inr _ \<Rightarrow> []) = []
      \<longleftrightarrow> (\<exists>p. ResolveInput ul os mediaRoot (c_input c) = Inr p)"
    by (cases "ResolveInput ul os mediaRoot (c_input c)") auto
  have m: "(case e of Some e \<Rightarrow> [BadMetadata e] | None \<Rightarrow> []) = [] \<longleftrightarrow> e = None" for e
    by (cases e) auto
  have n: "contains NfoTypes t \<longleftrightarrow> t \<in> set NfoTypes" for t by (auto simp: contains_def list_ex_iff)
  show ?thesis
    unfolding clip_problems_def append_is_Nil_conv o g s i m
    by (auto simp: clip_ok_def n split: if_splits)
qed

lemma validate_from_none:
  "validate_from ul os mediaRoot i seen cs = [] \<longleftrightarrow>
     (\<forall>c \<in> set cs. clip_ok ul os mediaRoot c \<and> seen (ToLower ul (Path c)) = None)
     \<and> distinct (map (\<lambda>c. ToLower ul (Path c)) cs)"
  by (induction cs arbitrary: i seen) (auto simp: clip_problems_none image_iff)

lemma ResolveInput_inside:
  assumes "os_ok os" "ResolveInput ul os mediaRoot input = Inr p"
  obtains rs ds resolved realRoot info where
    "Abs_path os mediaRoot = Inr (abs_of rs)" "list_all is_plain (rs @ ds)" "p = abs_of (rs @ ds)"
    "os_EvalSymlinks os p = Inr resolved" "os_EvalSymlinks os (abs_of rs) = Inr realRoot"
    "HasPrefix resolved (TrimSuffix realRoot ''/'' @ ''/'')"
    "os_Stat os resolved = Inr info" "fi_regular info"
proof -
  from assms(2) obtain base rel where base: "Abs_path os mediaRoot = Inr base"
    and rel: "(if IsAbs (Clean input) then path_Rel base (Clean input) else Some (Clean input)) = Some rel"
    and loc: "IsLocal rel"
    by (auto simp: ResolveInput_def Let_def split: if_splits sum.splits option.splits)
  define p0 where "p0 = path_Join [base, rel]"
  have body: "p = (if os_Stat os p0 = Inl NotExist
        then (case Replacement ul os p0 of Some alt \<Rightarrow> alt | None \<Rightarrow> p0) else p0)"
    "\<exists>resolved realRoot info. os_EvalSymlinks os p = Inr resolved \<and> os_EvalSymlinks os base = Inr realRoot
       \<and> HasPrefix resolved (TrimSuffix realRoot ''/'' @ ''/'')
       \<and> os_Stat os resolved = Inr info \<and> fi_regular info"
    using assms(2) base rel loc
    by (auto simp: ResolveInput_def Let_def p0_def split: if_splits sum.splits option.splits os_err.splits)
  obtain rs where rs: "list_all is_plain rs" "base = abs_of rs" using Abs_path_abs [OF assms(1) base] .
  obtain ds where ds: "list_all is_plain ds" "p0 = abs_of (rs @ ds)"
    using local_below [OF rs(1) rel [unfolded rs(2)] loc] by (auto simp: p0_def rs(2))
  obtain resolved realRoot info where fin: "os_EvalSymlinks os p = Inr resolved"
    "os_EvalSymlinks os (abs_of rs) = Inr realRoot"
    "HasPrefix resolved (TrimSuffix realRoot ''/'' @ ''/'')" "os_Stat os resolved = Inr info" "fi_regular info"
    using body(2) rs(2) by blast
  have "\<exists>ds'. list_all is_plain ds' \<and> p = abs_of (rs @ ds')"
  proof (cases "os_Stat os p0 = Inl NotExist \<and> Replacement ul os p0 \<noteq> None")
    case False
    with body(1) ds show ?thesis by (auto split: if_splits)
  next
    case True
    with body(1) have r: "Replacement ul os p0 = Some p" by auto
    have "ds \<noteq> []"
    proof
      assume "ds = []"
      with True ds fin(2) assms(1) show False by (auto simp: os_ok_def)
    qed
    then obtain ds' n where d: "ds = ds' @ [n]" by (cases ds rule: rev_cases) auto
    with rs(1) ds have plain: "list_all is_plain (rs @ ds')" "is_plain n" "p0 = abs_of ((rs @ ds') @ [n])"
      by auto
    from Replacement_cases [where ul = ul and os = os and p = p0] r obtain want es e info where
      e: "os_ReadDir os (path_Dir p0) = Inr es" "e \<in> set es" "candidate ul want e info"
        "p = path_Join [path_Dir p0, d_name e]" by auto
    have "is_name (d_name e)" using assms(1) e(1,2) unfolding os_ok_def by blast
    with e(3) identity_plain have en: "list_all is_plain [d_name e]" by (auto simp: candidate_def)
    have "p = abs_of ((rs @ ds') @ [d_name e])"
      using Join_abs_of [OF plain(1) en, of "d_name e"] en e(4) Dir_abs_of [OF plain(1,2)] plain(3)
      by (simp add: rel_of_def is_plain_def is_name_def)
    with en plain(1) show ?thesis by (intro exI [of _ "ds' @ [d_name e]"]) simp
  qed
  then obtain ds' where "list_all is_plain ds'" "p = abs_of (rs @ ds')" by blast
  with base rs fin show thesis by (intro that [of rs ds' resolved realRoot info]) simp_all
qed

section \<open>Properties\<close>

text \<open>C29: An input that \<open>ResolveInput\<close> accepts stays in the media folder: the path it returns
  is the folder's absolute path followed by plain names, without any \<open>..\<close>, also when a
  replacement is used; its links resolve to a regular file inside the resolved media folder.
  \<open>os_ok\<close> is what the operating system promises about paths.\<close>

theorem ResolveInput_confined:
  assumes "os_ok os" "ResolveInput ul os mediaRoot input = Inr p"
  shows "\<exists>rs ds resolved realRoot info.
    Abs_path os mediaRoot = Inr (abs_of rs) \<and> list_all is_plain (rs @ ds) \<and> p = abs_of (rs @ ds)
    \<and> os_EvalSymlinks os p = Inr resolved \<and> os_EvalSymlinks os (abs_of rs) = Inr realRoot
    \<and> HasPrefix resolved (TrimSuffix realRoot ''/'' @ ''/'')
    \<and> os_Stat os resolved = Inr info \<and> fi_regular info"
  using ResolveInput_inside [OF assms] by metis

text \<open>A media folder \<open>/m\<close> in which \<open>F - [480p].ts\<close> was replaced twice.\<close>

definition demo_name :: "string \<Rightarrow> string" where
  "demo_name q = ''F - ['' @ q @ ''].ts''"

definition demo_os :: os where
  "demo_os =
     \<lparr>os_Getwd = Inr ''/'',
      os_Stat = (\<lambda>p. if p = ''/m/'' @ demo_name ''720p'' \<or> p = ''/m/'' @ demo_name ''900p''
        then Inr \<lparr>fi_regular = True, fi_dir = False, fi_size = 4, fi_mtime = 0\<rparr>
        else if p = ''/m'' then Inr \<lparr>fi_regular = False, fi_dir = True, fi_size = 0, fi_mtime = 0\<rparr>
        else Inl NotExist),
      os_ReadFile = (\<lambda>p. Inl NotExist),
      os_ReadDir = (\<lambda>d. if d = ''/m'' then Inr
        [\<lparr>d_name = demo_name ''720p'',
          d_info = Inr \<lparr>fi_regular = True, fi_dir = False, fi_size = 4, fi_mtime = 1\<rparr>\<rparr>,
         \<lparr>d_name = demo_name ''900p'',
          d_info = Inr \<lparr>fi_regular = True, fi_dir = False, fi_size = 4, fi_mtime = 2\<rparr>\<rparr>]
        else Inl NotExist),
      os_EvalSymlinks = (\<lambda>p. if p = ''/m/'' @ demo_name ''720p'' \<or> p = ''/m/'' @ demo_name ''900p''
          \<or> p = ''/m'' then Inr p else Inl NotExist)\<rparr>"

lemma demo_os_ok: "os_ok demo_os"
  by (auto simp: os_ok_def demo_os_def demo_name_def is_name_def split: if_splits)

lemma demo_resolve:
  "Replacement id demo_os ''/m/F - [480p].ts'' = Some ''/m/F - [900p].ts''"
  "ResolveInput id demo_os ''/m'' ''x/../F - [480p].ts'' = Inr ''/m/F - [900p].ts''"
proof -
  show r: "Replacement id demo_os ''/m/F - [480p].ts'' = Some ''/m/F - [900p].ts''"
    by code_simp
  have p: "TrimSpace ''x/../F - [480p].ts'' \<noteq> []" "Clean ''x/../F - [480p].ts'' = ''F - [480p].ts''"
    "Abs_path demo_os ''/m'' = Inr ''/m''" "IsLocal ''F - [480p].ts''"
    "path_Join [''/m'', ''F - [480p].ts''] = ''/m/F - [480p].ts''"
    "HasPrefix ''/m/F - [900p].ts'' (TrimSuffix ''/m'' ''/'' @ ''/'')"
    "os_Stat demo_os ''/m/F - [480p].ts'' = Inl NotExist"
    "os_EvalSymlinks demo_os ''/m/F - [900p].ts'' = Inr ''/m/F - [900p].ts''"
    "os_EvalSymlinks demo_os ''/m'' = Inr ''/m''"
    "os_Stat demo_os ''/m/F - [900p].ts'' =
      Inr \<lparr>fi_regular = True, fi_dir = False, fi_size = 4, fi_mtime = 0\<rparr>"
    by code_simp+
  show "ResolveInput id demo_os ''/m'' ''x/../F - [480p].ts'' = Inr ''/m/F - [900p].ts''"
    by (simp add: ResolveInput_def p r)
qed

theorem ResolveInput_confined_witness:
  "\<exists>rs ds. list_all is_plain (rs @ ds) \<and> ''/m/F - [900p].ts'' = abs_of (rs @ ds)
     \<and> Abs_path demo_os ''/m'' = Inr (abs_of rs)"
  using ResolveInput_confined [OF demo_os_ok demo_resolve(2)] by blast

text \<open>C31: \<open>Replacement\<close> finds the file that replaced a missing one: a regular video of the same
  folder with the same title and edition tags, and no other such file is newer; it finds none
  only when there is none.\<close>

theorem Replacement_newest:
  assumes "identity (path_Base p) = Some want" "os_ReadDir os (path_Dir p) = Inr es"
  shows "case Replacement ul os p of
     Some q \<Rightarrow> \<exists>e info. e \<in> set es \<and> candidate ul want e info \<and> q = path_Join [path_Dir p, d_name e]
       \<and> list_all (\<lambda>e'. \<forall>info'. candidate ul want e' info' \<longrightarrow> fi_mtime info' \<le> fi_mtime info) es
   | None \<Rightarrow> list_all (\<lambda>e. \<forall>info. \<not> candidate ul want e info) es"
  using Replacement_cases [where ul = ul and os = os and p = p] assms
  by (cases "Replacement ul os p") (auto simp: list_all_iff)

theorem Replacement_newest_witness:
  "\<exists>e info. candidate id ''F - '' e info \<and> ''/m/F - [900p].ts'' = path_Join [''/m'', d_name e]"
proof -
  have i: "identity (path_Base ''/m/F - [480p].ts'') = Some ''F - ''"
    and d: "path_Dir ''/m/F - [480p].ts'' = ''/m''" by code_simp+
  obtain es where es: "os_ReadDir demo_os (path_Dir ''/m/F - [480p].ts'') = Inr es"
    by (simp add: demo_os_def d)
  from Replacement_newest [OF i es, of id] demo_resolve(1) d show ?thesis by auto
qed

text \<open>C30: The clips that \<open>Validate\<close> accepts are safe to mount: each path is made of plain names
  of at most 200 bytes that do not start with a dot, no two paths are equal even without
  regard to case, the times are in order and at most six hours apart, the input resolves, and
  the NFO type is one of the three.\<close>

theorem Validate_safe:
  assumes "Validate ul os clips mediaRoot = []" "c \<in> set clips"
    and "c_start c = Fin a" "c_end c = Fin b"
  shows "clip_path (Path c) \<and> last (elements (Path c)) = c_output c
    \<and> list_all (\<lambda>n. length n \<le> 200 \<and> hd n \<noteq> CHR ''.'') (elements (Path c))
    \<and> distinct (map (\<lambda>c. ToLower ul (Path c)) clips)
    \<and> 0 \<le> a \<and> a < b \<and> \<not> f64_less (Fin 21600) (f64_round (b - a))
    \<and> (\<exists>p. ResolveInput ul os mediaRoot (c_input c) = Inr p)
    \<and> (c_nfo_type c = [] \<or> c_nfo_type c \<in> {''movie'', ''episodedetails'', ''musicvideo''})"
proof -
  let ?ps = "group_parts c @ [c_output c]"
  have v: "clip_ok ul os mediaRoot c" "distinct (map (\<lambda>c. ToLower ul (Path c)) clips)"
    using assms(1,2) by (auto simp: Validate_def validate_from_none)
  then have n: "list_all name_ok ?ps" by (simp add: clip_ok_def)
  then have p: "list_all is_plain ?ps" by (auto simp: list_all_iff name_ok_plain)
  have e: "elements (Path c) = ?ps" by (simp only: Path_join elements_join [OF is_plain_name [OF p]])
  have "list_all (\<lambda>n. length n \<le> 200 \<and> hd n \<noteq> CHR ''.'') ?ps"
    using n by (auto simp: list_all_iff name_ok_def)
  moreover have "clip_path (Path c)" unfolding Path_join by (rule clip_path_join [OF p]) simp
  ultimately show ?thesis
    using v assms(3,4) by (auto simp: e clip_ok_def f64_le_def MaxClipSeconds_def NfoTypes_def)
qed

definition demo_clip :: clip_def where
  "demo_clip =
     \<lparr>c_input = ''F - [720p].ts'', c_output = ''A'', c_start = Fin 1, c_end = Fin 5, c_group = ''/G/'',
      c_nfo_type = ''movie'', c_metadata = Some [(''title'', JString ''t'')]\<rparr>"

lemma demo_Validate: "Validate id demo_os [demo_clip] ''/m'' = []"
  by code_simp

theorem Validate_safe_witness:
  "clip_path ''G/A'' \<and> elements ''G/A'' = [''G'', ''A'']"
proof -
  have "Path demo_clip = ''G/A''" by (simp add: Path_def demo_clip_def trim_char_def)
  with Validate_safe [OF demo_Validate, of demo_clip 1 5] show ?thesis
    by (simp add: demo_clip_def elements_def)
qed

end
