(* ===== verification/Nfo.thy ===== *)
theory Nfo
  imports Config "HOL-Library.List_Lexorder"
begin

text \<open>
  \<^verbatim>\<open>internal/nfo/nfo.go\<close>: a clip's metadata as an XML document.  \<open>xml.EscapeText\<close> is written
  out with the UTF-8 decoder it uses; \<open>strconv.FormatFloat\<close> is the parameter \<open>fmt\<close>.  The
  result is shown to be well nested, whatever the metadata: no key or value can open or close
  an element of its own.
\<close>

section \<open>Escaping\<close>

abbreviation byte_of :: "char \<Rightarrow> nat" where "byte_of c \<equiv> of_char c"

definition continuation :: "nat \<Rightarrow> nat \<Rightarrow> char \<Rightarrow> bool" where
  "continuation lo hi c \<longleftrightarrow> lo \<le> byte_of c \<and> byte_of c \<le> hi"

text \<open>\<open>utf8.DecodeRune\<close> on a non-empty string: the rune and its width; \<open>None\<close> is an invalid
  encoding, which the decoder reports as \<open>RuneError\<close> with width 1.\<close>

definition decode_rune :: "string \<Rightarrow> (nat \<times> nat) option" where
  "decode_rune s =
     (let b0 = byte_of (s ! 0);
          inside = (\<lambda>i lo hi. i < length s \<and> continuation lo hi (s ! i));
          low = (\<lambda>i. byte_of (s ! i) mod 64)
      in if b0 < 0x80 then Some (b0, 1)
         else if 0xC2 \<le> b0 \<and> b0 \<le> 0xDF
         then (if inside 1 0x80 0xBF then Some ((b0 mod 32) * 64 + low 1, 2) else None)
         else if 0xE0 \<le> b0 \<and> b0 \<le> 0xEF
         then (if inside 1 (if b0 = 0xE0 then 0xA0 else 0x80) (if b0 = 0xED then 0x9F else 0xBF)
                  \<and> inside 2 0x80 0xBF
               then Some (((b0 mod 16) * 64 + low 1) * 64 + low 2, 3) else None)
         else if 0xF0 \<le> b0 \<and> b0 \<le> 0xF4
         then (if inside 1 (if b0 = 0xF0 then 0x90 else 0x80) (if b0 = 0xF4 then 0x8F else 0xBF)
                  \<and> inside 2 0x80 0xBF \<and> inside 3 0x80 0xBF
               then Some ((((b0 mod 8) * 64 + low 1) * 64 + low 2) * 64 + low 3, 4) else None)
         else None)"

definition in_character_range :: "nat \<Rightarrow> bool" where
  "in_character_range r \<longleftrightarrow>
     r = 0x09 \<or> r = 0x0A \<or> r = 0x0D \<or> 0x20 \<le> r \<and> r \<le> 0xD7FF \<or> 0xE000 \<le> r \<and> r \<le> 0xFFFD
     \<or> 0x10000 \<le> r \<and> r \<le> 0x10FFFF"

definition replacement_char :: string where
  "replacement_char = [CHR 0xEF, CHR 0xBF, CHR 0xBD]"

text \<open>What is written for the rune at the front, and how many bytes it takes.\<close>

definition escape_rune :: "string \<Rightarrow> string \<times> nat" where
  "escape_rune s =
     (case decode_rune s of
        None \<Rightarrow> (replacement_char, 1)
      | Some (r, w) \<Rightarrow>
          (if r = 0x22 then ''&#34;''
           else if r = 0x27 then ''&#39;''
           else if r = 0x26 then ''&amp;''
           else if r = 0x3C then ''&lt;''
           else if r = 0x3E then ''&gt;''
           else if r = 0x09 then ''&#x9;''
           else if r = 0x0A then ''&#xA;''
           else if r = 0x0D then ''&#xD;''
           else if \<not> in_character_range r then replacement_char
           else take w s, w))"

lemma escape_rune_width: "0 < snd (escape_rune s)"
  by (auto simp: escape_rune_def decode_rune_def Let_def split: option.splits if_splits)

lemma escape_rune_pair: "(out, w) = escape_rune s \<Longrightarrow> 0 < w"
  using escape_rune_width [of s] by (metis snd_conv)

function escape :: "string \<Rightarrow> string" where
  "escape s =
     (if s = [] then []
      else case escape_rune s of (out, w) \<Rightarrow> out @ escape (drop w s))"
  by pat_completeness auto
termination
  by (relation "measure length") (auto dest: escape_rune_pair)

declare escape.simps [simp del]

section \<open>Rendering\<close>

definition scalar :: "(f64 \<Rightarrow> string) \<Rightarrow> json \<Rightarrow> string" where
  "scalar fmt v =
     (case v of
        JString s \<Rightarrow> s
      | JBool b \<Rightarrow> if b then ''true'' else ''false''
      | JNumber f \<Rightarrow> fmt f
      | _ \<Rightarrow> [])"

text \<open>The keys that are written, sorted.\<close>

definition valid_keys :: "(string \<Rightarrow> bool) \<Rightarrow> (string \<times> json) list \<Rightarrow> string list" where
  "valid_keys validKey m = sort (filter validKey (map fst m))"

lemma map_of_size:
  fixes m :: "(string \<times> json) list"
  shows "map_of m k = Some v \<Longrightarrow> size v < size (JObject m)"
  by (induction m) (auto split: if_splits)

lemma item_size: "x \<in> set items \<Longrightarrow> size x \<le> size_list size items"
  by (rule size_list_estimation') auto

definition pad :: "nat \<Rightarrow> string" where
  "pad indent = concat (replicate indent ''  '')"

abbreviation newline :: string where "newline \<equiv> [CHR 0x0A]"

function (sequential) writeMap ::
  "(f64 \<Rightarrow> string) \<Rightarrow> (string \<Rightarrow> bool) \<Rightarrow> (string \<times> json) list \<Rightarrow> nat \<Rightarrow> string"
and writeValue ::
  "(f64 \<Rightarrow> string) \<Rightarrow> (string \<Rightarrow> bool) \<Rightarrow> string \<Rightarrow> json \<Rightarrow> nat \<Rightarrow> string" where
  "writeMap fmt validKey m indent =
     concat (map (\<lambda>k. case map_of m k of
         Some v \<Rightarrow> writeValue fmt validKey k v indent | None \<Rightarrow> [])
       (valid_keys validKey m))"
| "writeValue fmt validKey key (JArray items) indent =
     concat (map (\<lambda>item. writeValue fmt validKey key item indent) items)"
| "writeValue fmt validKey key (JObject m) indent =
     pad indent @ ''<'' @ key @ ''>'' @ newline @ writeMap fmt validKey m (indent + 1)
     @ pad indent @ ''</'' @ key @ ''>'' @ newline"
| "writeValue fmt validKey key v indent =
     pad indent @ ''<'' @ key @ ''>'' @ escape (scalar fmt v) @ ''</'' @ key @ ''>'' @ newline"
  by pat_completeness auto
termination
  by (relation "measure (\<lambda>x. case x of Inl (_, _, m, _) \<Rightarrow> 2 * size (JObject m)
        | Inr (_, _, _, v, _) \<Rightarrow> 2 * size v + 1)")
    (auto dest!: map_of_size item_size)

definition xml_Header :: string where
  "xml_Header = ''<?xml version='' @ [CHR 0x22] @ ''1.0'' @ [CHR 0x22] @ '' encoding='' @ [CHR 0x22]
     @ ''UTF-8'' @ [CHR 0x22] @ ''?>'' @ newline"

definition Generate ::
  "(f64 \<Rightarrow> string) \<Rightarrow> string \<Rightarrow> (string \<times> json) list \<Rightarrow> (string \<Rightarrow> bool) \<Rightarrow> string" where
  "Generate fmt nfoType metadata validKey =
     (let t = (if nfoType = [] then ''movie'' else nfoType)
      in xml_Header @ ''<'' @ t @ ''>'' @ newline @ writeMap fmt validKey metadata 1
         @ ''</'' @ t @ ''>'' @ newline)"

section \<open>Well-nested documents\<close>

text \<open>A reader of tags: every \<open><name>\<close> is closed by its \<open></name>\<close>, in the order of nesting, and
  angle brackets occur in tags only.  \<open>st\<close> holds the names of the open elements.\<close>

function scan :: "string list \<Rightarrow> string \<Rightarrow> bool" where
  "scan st s =
     (case s of
        [] \<Rightarrow> st = []
      | c # cs \<Rightarrow>
          if c \<noteq> CHR ''<'' then c \<noteq> CHR ''>'' \<and> scan st cs
          else let body = takeWhile (\<lambda>x. x \<noteq> CHR ''>'') cs; rest = drop (length body + 1) cs
               in CHR ''>'' \<in> set cs \<and> CHR ''<'' \<notin> set body \<and> body \<noteq> []
                  \<and> (if hd body = slash then st \<noteq> [] \<and> hd st = tl body \<and> scan (tl st) rest
                     else scan (body # st) rest))"
  by pat_completeness auto
termination
  by (relation "measure (\<lambda>(st, s). length s)") (auto simp: less_Suc_eq_le)

declare scan.simps [simp del]

definition no_angle :: "string \<Rightarrow> bool" where
  "no_angle s \<longleftrightarrow> CHR ''<'' \<notin> set s \<and> CHR ''>'' \<notin> set s"

definition tag_name :: "string \<Rightarrow> bool" where
  "tag_name k \<longleftrightarrow> k \<noteq> [] \<and> hd k \<noteq> slash \<and> no_angle k"

lemma no_angle_simps [simp]:
  "no_angle []" "no_angle (c # s) \<longleftrightarrow> c \<noteq> CHR ''<'' \<and> c \<noteq> CHR ''>'' \<and> no_angle s"
  "no_angle (s @ t) \<longleftrightarrow> no_angle s \<and> no_angle t"
  by (auto simp: no_angle_def)

lemma scan_text: "no_angle t \<Longrightarrow> scan st (t @ s) = scan st s"
  by (induction t) (simp_all add: scan.simps [of st "_ # _"])

lemma takeWhile_tag:
  "no_angle k \<Longrightarrow> takeWhile (\<lambda>x. x \<noteq> CHR ''>'') (k @ CHR ''>'' # s) = k"
  by (induction k) auto

lemma scan_open: "tag_name k \<Longrightarrow> scan st (''<'' @ k @ ''>'' @ s) = scan (k # st) s"
  using takeWhile_tag [of k s]
  by (simp add: scan.simps [of st "_ # _"] tag_name_def no_angle_def Let_def)

lemma scan_close: "tag_name k \<Longrightarrow> scan (k # st) (''</'' @ k @ ''>'' @ s) = scan st s"
  using takeWhile_tag [of "slash # k" s]
  by (simp add: scan.simps [of "k # st" "_ # _"] tag_name_def no_angle_def Let_def)

lemma no_angle_pad: "no_angle (pad n)"
  by (induction n) (simp_all add: pad_def)

lemma decode_rune_bytes:
  assumes "decode_rune s = Some (r, w)" "s \<noteq> []"
  shows "w = 1 \<and> byte_of (hd s) = r \<or> list_all (\<lambda>c. 0x80 \<le> byte_of c) (take w s)"
proof (cases "byte_of (s ! 0) < 0x80")
  case True
  with assms show ?thesis by (auto simp: decode_rune_def hd_conv_nth)
next
  case False
  have "0x80 \<le> byte_of (s ! i)" if "i < w" for i
  proof -
    have "i = 0 \<or> i = 1 \<or> i = 2 \<or> i = 3" "w \<le> 4"
      using assms(1) that by (auto simp: decode_rune_def Let_def split: if_splits)
    with assms(1) that False show ?thesis
      by (elim disjE) (auto simp: decode_rune_def Let_def continuation_def split: if_splits)
  qed
  then show ?thesis by (auto simp: list_all_length)
qed

lemma escape_rune_no_angle:
  assumes "s \<noteq> []"
  shows "no_angle (fst (escape_rune s))"
proof (cases "decode_rune s")
  case None
  then show ?thesis by (simp add: escape_rune_def replacement_char_def)
next
  case (Some p)
  obtain r w where p: "p = (r, w)" by fastforce
  have lt: "byte_of CHR ''<'' = 0x3C" "byte_of CHR ''>'' = 0x3E" by simp_all
  from decode_rune_bytes [OF Some [unfolded p] assms] show ?thesis
  proof
    assume w: "w = 1 \<and> byte_of (hd s) = r"
    with assms lt have "r \<noteq> 0x3C \<and> r \<noteq> 0x3E \<Longrightarrow> no_angle (take w s)" by (cases s) auto
    then show ?thesis by (simp add: escape_rune_def Some p replacement_char_def)
  next
    assume "list_all (\<lambda>c. 0x80 \<le> byte_of c) (take w s)"
    with lt have "no_angle (take w s)" by (force simp: no_angle_def list_all_iff)
    then show ?thesis by (simp add: escape_rune_def Some p replacement_char_def)
  qed
qed

lemma no_angle_escape: "no_angle (escape s)"
proof (induction s rule: escape.induct)
  case (1 s)
  show ?case
  proof (cases "s = []")
    case True
    then show ?thesis by (simp add: escape.simps)
  next
    case False
    obtain out w where e: "escape_rune s = (out, w)" by fastforce
    from 1 False e escape_rune_no_angle [OF False] show ?thesis
      by (simp add: escape.simps [of s])
  qed
qed

lemma scan_write:
  assumes keys: "\<And>k. validKey k \<Longrightarrow> tag_name k"
  shows "scan st (writeMap fmt validKey m indent @ s) = scan st s"
    and "tag_name key \<Longrightarrow> scan st (writeValue fmt validKey key v indent @ s) = scan st s"
  using keys
proof (induction fmt validKey m indent and fmt validKey key v indent
    arbitrary: st s and st s rule: writeMap_writeValue.induct)
  case (1 fmt validKey m indent)
  have "scan st (concat (map (\<lambda>k. case map_of m k of
         Some v \<Rightarrow> writeValue fmt validKey k v indent | None \<Rightarrow> []) ks) @ s) = scan st s"
    if "set ks \<subseteq> set (valid_keys validKey m)" for ks
    using that
  proof (induction ks)
    case (Cons k ks)
    then have k: "k \<in> set (valid_keys validKey m)" by simp
    then have "tag_name k" using "1.prems" by (simp add: valid_keys_def)
    with "1.IH" [OF k] "1.prems" Cons show ?case by (simp split: option.splits)
  qed simp
  then show ?case by simp
next
  case (2 fmt validKey key items indent)
  have "scan st (concat (map (\<lambda>item. writeValue fmt validKey key item indent) xs) @ s) = scan st s"
    if "set xs \<subseteq> set items" for xs
    using that
  proof (induction xs)
    case (Cons x xs)
    with "2.IH" [of x] "2.prems" show ?case by simp
  qed simp
  then show ?case by simp
next
  case (3 fmt validKey key m indent)
  have "scan (key # st) (newline @ writeMap fmt validKey m (indent + 1) @ pad indent
      @ (''</'' @ key @ ''>'' @ newline @ s)) = scan (key # st) (''</'' @ key @ ''>'' @ newline @ s)"
    using "3.IH" [OF "3.prems"(2)] by (subst scan_text; simp add: scan_text no_angle_pad)
  also have "\<dots> = scan st s"
    using "3.prems"(1) scan_text [of newline] by (simp only: scan_close) simp
  finally show ?case
    using "3.prems"(1) scan_open [of key st]
    by (simp add: scan_text no_angle_pad)
qed (simp_all add: scan_text no_angle_pad scan_open [simplified] scan_close [simplified] no_angle_escape
    scan_text [of newline, simplified])

section \<open>Properties\<close>

lemma ValidKey_tag_name: "ValidKey ul k \<Longrightarrow> tag_name k"
proof -
  assume "ValidKey ul k"
  then have "xmlName k" by (simp add: ValidKey_def)
  then obtain c cs where k: "k = c # cs" "is_letter c \<or> c = CHR ''_''"
    "list_all (\<lambda>x. is_letter x \<or> is_digit x \<or> x \<in> set ''_.-'') cs"
    by (auto simp: xmlName_def split: list.splits)
  have ang: "\<not> is_letter x \<and> \<not> is_digit x \<and> x \<notin> set ''_.-''"
    if "x = CHR ''<'' \<or> x = CHR ''>''" for x
    using that by (auto simp: is_letter_def is_digit_def)
  have "\<not> is_letter slash" by (simp add: is_letter_def)
  with k ang show ?thesis by (auto simp: tag_name_def no_angle_def list_all_iff)
qed

text \<open>C32: The NFO of a validated clip is a well-nested XML document, whatever its metadata:
  after the XML header every element is closed in the order of nesting, and no key or value
  brings in an angle bracket of its own.\<close>

theorem Generate_well_nested:
  assumes "Validate ul os clips mediaRoot = []" "c \<in> set clips"
  shows "\<exists>body. Generate fmt (c_nfo_type c) m (ValidKey ul) = xml_Header @ body \<and> scan [] body"
proof -
  have "c_nfo_type c = [] \<or> c_nfo_type c \<in> set NfoTypes"
    using assms by (auto simp: Validate_def validate_from_none clip_ok_def)
  then have t: "tag_name (if c_nfo_type c = [] then ''movie'' else c_nfo_type c)"
    (is "tag_name ?t")
    by (auto simp: NfoTypes_def tag_name_def)
  let ?body = "''<'' @ ?t @ ''>'' @ newline @ writeMap fmt (ValidKey ul) m 1 @ ''</'' @ ?t @ ''>'' @ newline"
  have "scan [] ?body = scan [?t] (newline @ writeMap fmt (ValidKey ul) m 1 @ ''</'' @ ?t @ ''>'' @ newline)"
    by (rule scan_open [OF t])
  also have "\<dots> = scan [?t] (''</'' @ ?t @ ''>'' @ newline)"
    using scan_write(1) [OF ValidKey_tag_name] by (subst scan_text; simp)
  also have "\<dots> = scan [] newline" by (rule scan_close [OF t])
  also have "\<dots>" using scan_text [of newline "[]" "[]"] by (simp add: scan.simps)
  finally have "scan [] ?body" .
  then show ?thesis by (intro exI [of _ ?body]) (simp add: Generate_def Let_def)
qed

theorem Generate_well_nested_witness:
  "\<exists>body. Generate (\<lambda>_. ''1'') ''movie'' [(''title'', JString ''<b>''), (''a b'', JNull)] (ValidKey id)
     = xml_Header @ body \<and> scan [] body"
  using Generate_well_nested [OF demo_Validate, of demo_clip "\<lambda>_. ''1''"
      "[(''title'', JString ''<b>''), (''a b'', JNull)]"]
  by (simp add: demo_clip_def)

end
