(* ===== verification/Backup.thy ===== *)
theory Backup
  imports Config "HOL-Library.List_Lexorder"
begin

text \<open>
  \<^verbatim>\<open>internal/backup/backup.go\<close>: timestamped copies of the clips file.  The files are a
  \<open>fs\<close>; listing, reading and removing are the parameter \<open>bo\<close>, and so are
  \<open>time.Time.Format\<close> and \<open>time.Parse\<close> with the layout of the names.
\<close>

section \<open>The state\<close>

definition copy_prefix :: string where "copy_prefix = ''clips-''"
definition copy_suffix :: string where "copy_suffix = ''.json''"

record backup =
  b_src :: string
  b_dir :: string
  b_keep :: int
  b_last_run :: "int option"
  b_last_err :: "string option"

text \<open>\<open>bo_ReadDir\<close> gives the names with whether each is a regular file.\<close>

record backup_os =
  bo_ReadFile :: "fs \<Rightarrow> string \<Rightarrow> os_err + byte list"
  bo_ReadDir :: "fs \<Rightarrow> string \<Rightarrow> os_err + (string \<times> bool) list"
  bo_Remove :: "fs \<Rightarrow> string \<Rightarrow> string option"
  bo_Format :: "int \<Rightarrow> string"
  bo_Parse :: "string \<Rightarrow> int option"
  bo_err :: "os_err \<Rightarrow> string"

definition stamp_of :: "string \<Rightarrow> string" where
  "stamp_of n = TrimSuffix (TrimPrefix n copy_prefix) copy_suffix"

definition is_copy :: "backup_os \<Rightarrow> string \<times> bool \<Rightarrow> bool" where
  "is_copy bo e =
     (case e of (n, regular) \<Rightarrow>
        regular \<and> HasPrefix n copy_prefix \<and> HasSuffix n copy_suffix
        \<and> bo_Parse bo (stamp_of n) \<noteq> None)"

definition copies :: "backup_os \<Rightarrow> fs \<Rightarrow> backup \<Rightarrow> os_err + string list" where
  "copies bo fs b =
     (case bo_ReadDir bo fs (b_dir b) of
        Inl e \<Rightarrow> Inl e
      | Inr entries \<Rightarrow> Inr (rev (sort (map fst (filter (is_copy bo) entries)))))"

section \<open>One run\<close>

text \<open>The loop that prunes: it stops at the first file that cannot be removed.\<close>

fun prune_copies :: "backup_os \<Rightarrow> string \<Rightarrow> fs \<Rightarrow> string list \<Rightarrow> fs \<times> string option" where
  "prune_copies bo dir fs [] = (fs, None)"
| "prune_copies bo dir fs (old # olds) =
     (case bo_Remove bo fs (path_Join [dir, old]) of
        Some e \<Rightarrow> (fs, Some e)
      | None \<Rightarrow> prune_copies bo dir (fs(path_Join [dir, old] := None)) olds)"

definition copy_name :: "backup_os \<Rightarrow> int \<Rightarrow> string" where
  "copy_name bo now = copy_prefix @ bo_Format bo now @ copy_suffix"

definition Once :: "backup_os \<Rightarrow> write_env \<Rightarrow> fs \<Rightarrow> backup \<Rightarrow> int \<Rightarrow> fs \<times> string option" where
  "Once bo env fs b now =
     (case bo_ReadFile bo fs (b_src b) of
        Inl NotExist \<Rightarrow> (fs, None)
      | Inl e \<Rightarrow> (fs, Some (bo_err bo e))
      | Inr data \<Rightarrow>
          (case copies bo fs b of
             Inl e \<Rightarrow> (fs, Some (bo_err bo e))
           | Inr names \<Rightarrow>
               if names \<noteq> [] \<and> bo_ReadFile bo fs (path_Join [b_dir b, hd names]) = Inr data
               then (fs, None)
               else
                 let name = copy_name bo now
                 in (case WriteFileAtomic env fs (path_Join [b_dir b, name]) data 0x1A0 of
                       (states, Some e) \<Rightarrow> (last states, Some e)
                     | (states, None) \<Rightarrow>
                         prune_copies bo (b_dir b) (last states)
                           (drop (nat (min (int (length (name # names))) (max (b_keep b) 1)))
                             (name # names)))))"

definition record_run :: "int \<Rightarrow> string option \<Rightarrow> backup \<Rightarrow> backup" where
  "record_run now err b = b\<lparr>b_last_run := Some now, b_last_err := err\<rparr>"

text \<open>\<open>Run\<close> up to the moment it is stopped: the instants at which \<open>Once\<close> starts and
  \<open>record\<close> takes the time.\<close>

fun Run :: "backup_os \<Rightarrow> (int \<times> int \<times> write_env) list \<Rightarrow> fs \<Rightarrow> backup \<Rightarrow> fs \<times> backup" where
  "Run bo [] fs b = (fs, b)"
| "Run bo ((now, after, env) # ticks) fs b =
     (case Once bo env fs b now of (fs', err) \<Rightarrow> Run bo ticks fs' (record_run after err b))"

record backup_status =
  st_dir :: string
  st_latest :: "int option"
  st_copies :: nat
  st_last_run :: "int option"
  st_error :: string

definition backup_Status :: "backup_os \<Rightarrow> fs \<Rightarrow> backup \<Rightarrow> backup_status" where
  "backup_Status bo fs b =
     (let st = \<lparr>st_dir = b_dir b, st_latest = None, st_copies = 0, st_last_run = b_last_run b,
            st_error = (case b_last_err b of Some e \<Rightarrow> e | None \<Rightarrow> [])\<rparr>
      in case copies bo fs b of
           Inr names \<Rightarrow>
             st\<lparr>st_copies := length names,
               st_latest := (if names = [] then None else bo_Parse bo (stamp_of (hd names)))\<rparr>
         | Inl e \<Rightarrow> if st_error st = [] then st\<lparr>st_error := bo_err bo e\<rparr> else st)"

section \<open>What a run leaves\<close>

lemma prune_copies_done:
  "prune_copies bo dir fs olds = (fs', None) \<Longrightarrow>
    fs' p = (if p \<in> (\<lambda>n. path_Join [dir, n]) ` set olds then None else fs p)"
  by (induction olds arbitrary: fs) (auto split: option.splits if_splits)

text \<open>A directory lists the names of its files, and nothing that is not a name.\<close>

definition dir_law :: "backup_os \<Rightarrow> string \<Rightarrow> bool" where
  "dir_law bo dir \<longleftrightarrow>
     (\<forall>fs es. bo_ReadDir bo fs dir = Inr es \<longrightarrow> distinct (map fst es)
        \<and> (\<forall>n r. (n, r) \<in> set es \<longrightarrow> is_plain n)
        \<and> (\<forall>n. is_plain n \<longrightarrow> (n, True) \<in> set es \<longleftrightarrow> fs (path_Join [dir, n]) \<noteq> None))"

lemma copies_spec:
  assumes "dir_law bo (b_dir b)" "copies bo fs b = Inr names"
  shows "sorted (rev names)" "distinct names"
    "n \<in> set names \<longleftrightarrow> is_plain n \<and> is_copy bo (n, True) \<and> fs (path_Join [b_dir b, n]) \<noteq> None"
proof -
  obtain es where es: "bo_ReadDir bo fs (b_dir b) = Inr es"
    "names = rev (sort (map fst (filter (is_copy bo) es)))"
    using assms(2) by (auto simp: copies_def split: sum.splits)
  with assms(1) have law: "distinct (map fst es)" "\<And>n r. (n, r) \<in> set es \<Longrightarrow> is_plain n"
    "\<And>n. is_plain n \<Longrightarrow> (n, True) \<in> set es \<longleftrightarrow> fs (path_Join [b_dir b, n]) \<noteq> None"
    unfolding dir_law_def by blast+
  show "sorted (rev names)" by (simp add: es(2))
  show "distinct names" using law(1) by (simp add: es(2) distinct_map_filter)
  have "n \<in> set names \<longleftrightarrow> (\<exists>r. (n, r) \<in> set es \<and> is_copy bo (n, r))"
    unfolding es(2) by force
  also have "\<dots> \<longleftrightarrow> (n, True) \<in> set es \<and> is_copy bo (n, True)"
    by (auto simp: is_copy_def)
  finally show "n \<in> set names \<longleftrightarrow> is_plain n \<and> is_copy bo (n, True) \<and> fs (path_Join [b_dir b, n]) \<noteq> None"
    using law(2,3) by blast
qed

text \<open>The stamp in a name is read back.\<close>

definition stamp_law :: "backup_os \<Rightarrow> bool" where
  "stamp_law bo \<longleftrightarrow> (\<forall>t. bo_Parse bo (bo_Format bo t) \<noteq> None \<and> slash \<notin> set (bo_Format bo t))"

lemma stamp_of_name: "stamp_of (copy_prefix @ x @ copy_suffix) = x"
  by (simp add: stamp_of_def TrimPrefix_def TrimSuffix_def HasPrefix_def HasSuffix_def)

lemma copy_name_ok:
  assumes "stamp_law bo"
  shows "is_plain (copy_name bo now)" "is_copy bo (copy_name bo now, True)"
proof -
  have "slash \<notin> set (bo_Format bo now)" using assms by (simp add: stamp_law_def)
  then show "is_plain (copy_name bo now)"
    by (simp add: copy_name_def is_plain_def is_name_def copy_prefix_def copy_suffix_def)
  show "is_copy bo (copy_name bo now, True)"
    using assms
    by (simp add: is_copy_def copy_name_def stamp_law_def stamp_of_name HasPrefix_def HasSuffix_def)
qed

lemma Once_new_copy:
  assumes "bo_ReadFile bo fs (b_src b) = Inr data" "copies bo fs b = Inr names"
    and "\<not> (names \<noteq> [] \<and> bo_ReadFile bo fs (path_Join [b_dir b, hd names]) = Inr data)"
    and "Once bo env fs b now = (fs', None)"
    and "\<And>tmp. w_create env = Inr tmp \<Longrightarrow> fs tmp = None \<and> tmp \<noteq> path_Join [b_dir b, copy_name bo now]"
  defines "name \<equiv> copy_name bo now"
  shows "fs' p = (if p \<in> (\<lambda>n. path_Join [b_dir b, n]) ` set (drop (nat (max (b_keep b) 1)) (name # names))
    then None else if p = path_Join [b_dir b, name] then Some (data, 0x1A0) else fs p)"
proof -
  let ?path = "path_Join [b_dir b, name]"
  obtain states err where w: "WriteFileAtomic env fs ?path data 0x1A0 = (states, err)" by fastforce
  have k: "drop (nat (min (1 + int (length names)) (max (b_keep b) 1))) (name # names)
      = drop (nat (max (b_keep b) 1)) (name # names)"
    by (auto simp: min_def)
  have "err = None" and
    pr: "prune_copies bo (b_dir b) (last states) (drop (nat (max (b_keep b) 1)) (name # names)) = (fs', None)"
    using assms(1-4) w by (auto simp: Once_def Let_def k [unfolded name_def] name_def split: option.splits)
  moreover have "last states = fs(?path \<mapsto> (data, 0x1A0))"
    using WriteFileAtomic_states(3) [OF assms(5) [folded name_def] w] \<open>err = None\<close> by simp
  ultimately show ?thesis using prune_copies_done [OF pr, of p] by (auto split: if_splits)
qed

section \<open>Properties\<close>

lemma sorted_distinct_desc:
  fixes xs ys :: "string list"
  assumes "sorted_wrt (>) xs" "sorted_wrt (>) ys" "set xs = set ys"
  shows "xs = ys"
proof -
  have "sorted_wrt (<) (rev xs)" "sorted_wrt (<) (rev ys)"
    using assms(1,2) by (simp_all add: sorted_wrt_rev)
  then have "rev xs = rev ys"
    using assms(3) by (intro strict_sorted_equal) auto
  then show ?thesis by simp
qed

text \<open>C33: A run of \<open>Once\<close> that reports no error changes nothing when the newest copy is equal
  to the clips file.  Otherwise it stores the file as a new copy, and the copies are then the
  new one followed by the newest old ones, at most \<open>max(Keep, 1)\<close> in all; every other file
  stays as it was.  The stamp of the present second, in the name of the new copy, is assumed to
  be above that of every old copy: the clock has not gone back behind one, and none was written
  in the same second, for which the conclusion is false (\<open>Once_same_second\<close>).\<close>

theorem Once_keeps_newest:
  assumes "dir_law bo (b_dir b)" "stamp_law bo"
    and "\<And>tmp. w_create env = Inr tmp \<Longrightarrow> fs tmp = None \<and> tmp \<noteq> path_Join [b_dir b, copy_name bo now]"
    and "bo_ReadFile bo fs (b_src b) = Inr data" "copies bo fs b = Inr names"
    and "list_all (\<lambda>n. n < copy_name bo now) names"
    and "Once bo env fs b now = (fs', None)" "copies bo fs' b = Inr names'"
  shows "if names \<noteq> [] \<and> bo_ReadFile bo fs (path_Join [b_dir b, hd names]) = Inr data then fs' = fs
    else names' = take (nat (max (b_keep b) 1)) (copy_name bo now # names)
      \<and> fs' (path_Join [b_dir b, copy_name bo now]) = Some (data, 0x1A0)
      \<and> (p \<in> (\<lambda>n. path_Join [b_dir b, n]) ` set (copy_name bo now # names) \<or> fs' p = fs p)"
proof (cases "names \<noteq> [] \<and> bo_ReadFile bo fs (path_Join [b_dir b, hd names]) = Inr data")
  case True
  with assms(4,5,7) show ?thesis by (simp add: Once_def)
next
  case False
  let ?name = "copy_name bo now" and ?J = "\<lambda>n. path_Join [b_dir b, n]"
  let ?k = "nat (max (b_keep b) 1)"
  note fs' = Once_new_copy [OF assms(4,5) False assms(7,3)]
  note old = copies_spec [OF assms(1,5)] and new = copies_spec [OF assms(1,8)]
  note nm = copy_name_ok [OF assms(2), of now]
  have d: "distinct (?name # names)" using old(2) assms(6) by (auto simp: list_all_iff)
  have keep: "?name \<notin> set (drop ?k (?name # names))"
    using d by (cases ?k) (auto dest: in_set_dropD)
  have inj: "?J n \<in> ?J ` set xs \<longleftrightarrow> n \<in> set xs" if "is_plain n" "\<And>m. m \<in> set xs \<Longrightarrow> is_plain m" for n xs
    using that Join_inj by (auto simp: image_iff)
  have plain: "\<And>m. m \<in> set (drop ?k (?name # names)) \<Longrightarrow> is_plain m"
    using old(3) nm(1) in_set_dropD by (metis set_ConsD)
  have "n \<in> set names' \<longleftrightarrow> n \<in> set (take ?k (?name # names))" for n
  proof (cases "is_plain n \<and> is_copy bo (n, True)")
    case True
    then have "n \<in> set names' \<longleftrightarrow> fs' (?J n) \<noteq> None" by (simp add: new(3))
    also have "\<dots> \<longleftrightarrow> n \<notin> set (drop ?k (?name # names)) \<and> (n = ?name \<or> n \<in> set names)"
      using True inj [of n "drop ?k (?name # names)"] plain Join_inj nm(1)
      by (simp add: fs' old(3) del: drop_Suc_Cons)
    also have "\<dots> \<longleftrightarrow> n \<in> set (take ?k (?name # names))"
    proof -
      have "set (take ?k (?name # names)) \<union> set (drop ?k (?name # names)) = set (?name # names)"
        by (metis append_take_drop_id set_append)
      moreover have "set (take ?k (?name # names)) \<inter> set (drop ?k (?name # names)) = {}"
        using set_take_disj_set_drop_if_distinct [OF d] by blast
      moreover have "n \<in> set (?name # names) \<longleftrightarrow> n = ?name \<or> n \<in> set names" by simp
      ultimately show ?thesis by blast
    qed
    finally show ?thesis .
  next
    case False
    then show ?thesis using new(3) [of n] old(3) [of n] nm by (auto dest: in_set_takeD)
  qed
  moreover have "sorted_wrt (>) (take ?k (?name # names))" "sorted_wrt (>) names'"
  proof -
    have strict: "sorted_wrt (>) xs" if "sorted (rev xs)" "distinct xs" for xs :: "string list"
    proof -
      have "sorted_wrt (<) (rev xs)" using that by (simp add: strict_sorted_iff)
      then show ?thesis by (simp add: sorted_wrt_rev)
    qed
    show "sorted_wrt (>) names'" using new(1,2) strict by blast
    have "sorted_wrt (>) (?name # names)" using old(1,2) strict assms(6) by (auto simp: list_all_iff)
    then show "sorted_wrt (>) (take ?k (?name # names))" by (rule sorted_wrt_take)
  qed
  ultimately have "names' = take ?k (?name # names)"
    by (intro sorted_distinct_desc) auto
  moreover have "fs' (?J ?name) = Some (data, 0x1A0)"
    using keep inj [of ?name "drop ?k (?name # names)"] plain nm(1) by (simp add: fs' del: drop_Suc_Cons)
  moreover have "p \<in> ?J ` set (?name # names) \<or> fs' p = fs p"
    using set_drop_subset [of ?k "?name # names"] by (auto simp: fs' simp del: drop_Suc_Cons)
  ultimately show ?thesis using False by auto
qed

text \<open>A backup directory that keeps two copies.\<close>

definition demo_bo :: backup_os where
  "demo_bo =
     \<lparr>bo_ReadFile = (\<lambda>fs p. case fs p of Some (d, _) \<Rightarrow> Inr d | None \<Rightarrow> Inl NotExist),
      bo_ReadDir = (\<lambda>fs d. if d = ''/b'' \<and> dom fs \<subseteq> {''/c'', ''/b/clips-1.json'', ''/b/clips-2.json''} then Inr (map (\<lambda>n. (n, True))
         (filter (\<lambda>n. fs (path_Join [''/b'', n]) \<noteq> None) [''clips-1.json'', ''clips-2.json'']))
         else Inl NotExist),
      bo_Remove = (\<lambda>fs p. None), bo_Format = (\<lambda>t. if t = 1 then ''1'' else ''2''),
      bo_Parse = (\<lambda>s. if s = ''1'' then Some 1 else if s = ''2'' then Some 2 else None),
      bo_err = (\<lambda>_. ''error'')\<rparr>"

definition demo_backup :: backup where
  "demo_backup = \<lparr>b_src = ''/c'', b_dir = ''/b'', b_keep = 1, b_last_run = None, b_last_err = None\<rparr>"

definition demo_files :: fs where
  "demo_files = [''/c'' \<mapsto> ([7], 0x1A4), ''/b/clips-1.json'' \<mapsto> ([6], 0x1A0)]"

lemma demo_names:
  "is_plain ''clips-1.json''" "is_plain ''clips-2.json''"
  "path_Join [''/b'', ''clips-1.json''] = ''/b/clips-1.json''"
  "path_Join [''/b'', ''clips-2.json''] = ''/b/clips-2.json''"
  "path_Join [''/b'', ''c''] = ''/b/c''"
  by (simp_all add: is_plain_def is_name_def path_Join_def Clean_def clean_step_def)

lemma demo_dir_law: "dir_law demo_bo ''/b''"
proof -
  have "n = ''clips-1.json'' \<or> n = ''clips-2.json''"
    if fs: "dom fs \<subseteq> {''/c'', ''/b/clips-1.json'', ''/b/clips-2.json''}" "fs (path_Join [''/b'', n]) = Some y"
      and n: "is_plain n" for fs :: fs and n y
  proof -
    from fs have "path_Join [''/b'', n] \<in> {''/c'', path_Join [''/b'', ''clips-1.json''],
        path_Join [''/b'', ''clips-2.json'']}"
      unfolding demo_names by blast
    moreover have "path_Join [''/b'', n] \<noteq> ''/c''"
    proof
      assume c: "path_Join [''/b'', n] = ''/c''"
      then have "n = ''c''" using Join_name [OF n, of "''/b''"] by (simp add: path_Split_def)
      with c demo_names(5) show False by simp
    qed
    ultimately show ?thesis using Join_inj [OF n demo_names(1)] Join_inj [OF n demo_names(2)] by auto
  qed
  note key = this
  show ?thesis
    unfolding dir_law_def
  proof (intro allI impI)
    fix fs :: fs and es
    assume "bo_ReadDir demo_bo fs ''/b'' = Inr es"
    then have dom: "dom fs \<subseteq> {''/c'', ''/b/clips-1.json'', ''/b/clips-2.json''}"
      and es: "es = map (\<lambda>n. (n, True))
        (filter (\<lambda>n. fs (path_Join [''/b'', n]) \<noteq> None) [''clips-1.json'', ''clips-2.json''])"
      by (simp_all add: demo_bo_def split: if_splits)
    have "distinct (map fst es)" unfolding es by (simp add: comp_def)
    moreover have "is_plain n" if "(n, r) \<in> set es" for n r
      using that demo_names(1,2) unfolding es by (auto simp del: filter.simps)
    moreover have "(n, True) \<in> set es \<longleftrightarrow> fs (path_Join [''/b'', n]) \<noteq> None" if "is_plain n" for n
      using key [OF dom _ that] unfolding es by (auto simp del: filter.simps)
    ultimately show "distinct (map fst es) \<and> (\<forall>n r. (n, r) \<in> set es \<longrightarrow> is_plain n)
        \<and> (\<forall>n. is_plain n \<longrightarrow> (n, True) \<in> set es \<longleftrightarrow> fs (path_Join [''/b'', n]) \<noteq> None)"
      by blast
  qed
qed

theorem Once_keeps_newest_witness:
  "\<exists>fs'. Once demo_bo \<lparr>w_create = Inr ''/b/.t'', w_wrote = 0, w_write = None, w_chmod = None,
       w_sync = None, w_close = None, w_rename = None, w_remove = None\<rparr> demo_files demo_backup 2 = (fs', None)
     \<and> copies demo_bo fs' demo_backup = Inr [''clips-2.json'']"
proof -
  let ?env = "\<lparr>w_create = Inr ''/b/.t'', w_wrote = 0, w_write = None, w_chmod = None,
       w_sync = None, w_close = None, w_rename = None, w_remove = None\<rparr>"
  let ?fs = "[''/c'' \<mapsto> ([7], 0x1A4), ''/b/clips-2.json'' \<mapsto> ([7], 0x1A0)] :: fs"
  note defs = demo_bo_def demo_backup_def demo_files_def demo_names copies_def is_copy_def stamp_of_def
    TrimPrefix_def TrimSuffix_def HasPrefix_def HasSuffix_def copy_prefix_def copy_suffix_def
  have c: "copies demo_bo demo_files demo_backup = Inr [''clips-1.json'']"
    by (simp add: defs)
  have o: "Once demo_bo ?env demo_files demo_backup 2 = (?fs, None)"
    by (simp add: Once_def c) (simp add: defs copy_name_def WriteFileAtomic_def Let_def fun_eq_iff)
  have c': "copies demo_bo ?fs demo_backup = Inr [''clips-2.json'']"
    by (simp add: defs)
  have law: "dir_law demo_bo (b_dir demo_backup)" "stamp_law demo_bo"
    using demo_dir_law by (simp_all add: demo_backup_def stamp_law_def demo_bo_def)
  have pre: "demo_files ''/b/.t'' = None \<and> ''/b/.t'' \<noteq> path_Join [b_dir demo_backup, copy_name demo_bo 2]"
    "bo_ReadFile demo_bo demo_files (b_src demo_backup) = Inr [7]"
    "list_all (\<lambda>n. n < copy_name demo_bo 2) [''clips-1.json'']"
    by (simp_all add: defs copy_name_def)
  have "copies demo_bo ?fs demo_backup = Inr (take (nat (max (b_keep demo_backup) 1)) (copy_name demo_bo 2 # [''clips-1.json'']))"
    using Once_keeps_newest [OF law _ pre(2) c pre(3) o c', of "''/c''"] pre(1) c'
    by (simp add: defs)
  with o show ?thesis by (intro exI [of _ ?fs]) (simp add: defs copy_name_def)
qed

text \<open>The hypothesis on the clock is needed: when a changed file is copied twice within the second
  of a stamp, the new copy's name is in the list twice, and with one copy to keep the second
  mention removes the copy that was just written.\<close>

lemma Once_same_second:
  defines "fs \<equiv> [''/c'' \<mapsto> ([7], 0x1A4), ''/b/clips-2.json'' \<mapsto> ([6], 0x1A0)] :: fs"
  shows "\<exists>fs'. Once demo_bo \<lparr>w_create = Inr ''/b/.t'', w_wrote = 0, w_write = None, w_chmod = None,
       w_sync = None, w_close = None, w_rename = None, w_remove = None\<rparr> fs demo_backup 2 = (fs', None)
     \<and> copies demo_bo fs' demo_backup = Inr []"
proof -
  note defs = demo_bo_def demo_backup_def demo_names copies_def is_copy_def stamp_of_def
    TrimPrefix_def TrimSuffix_def HasPrefix_def HasSuffix_def copy_prefix_def copy_suffix_def
  let ?fs = "[''/c'' \<mapsto> ([7], 0x1A4)] :: fs"
  have "copies demo_bo fs demo_backup = Inr [''clips-2.json'']"
    by (simp add: defs fs_def)
  then have "Once demo_bo \<lparr>w_create = Inr ''/b/.t'', w_wrote = 0, w_write = None, w_chmod = None,
       w_sync = None, w_close = None, w_rename = None, w_remove = None\<rparr> fs demo_backup 2 = (?fs, None)"
    by (simp add: Once_def) (simp add: defs fs_def copy_name_def WriteFileAtomic_def Let_def fun_eq_iff)
  moreover have "copies demo_bo ?fs demo_backup = Inr []" by (simp add: defs)
  ultimately show ?thesis by blast
qed

end
