(* ===== verification/Privs.thy ===== *)
theory Privs
  imports Main
begin

text \<open>
  \<^verbatim>\<open>internal/privs/privs.go\<close>: dropping root after the mount and regaining it to unmount.  The
  system calls are the parameter \<open>sys\<close>; the locale \<open>linux\<close> states what credentials(7) says of
  them, for a process whose capabilities follow its effective user: \<open>-1\<close> leaves an ID as it
  is, root may set any ID, and others only to one of their real, effective and saved IDs.  The
  kernel takes the low 32 bits of an ID, so \<open>2 ^ 32 - 1\<close> means \<open>-1\<close> as well.  The locale
  \<open>linux_effects\<close> promises no success: any call may fail (out of memory, a limit of processes,
  a filter of system calls), and only a call that succeeds has its documented effect.
\<close>

section \<open>Credentials\<close>

record creds =
  ruid :: int
  euid :: int
  suid :: int
  rgid :: int
  egid :: int
  sgid :: int
  groups :: "int list"

record syscalls =
  Setgroups :: "int list \<Rightarrow> creds \<Rightarrow> string + creds"
  Setresgid :: "int \<Rightarrow> int \<Rightarrow> int \<Rightarrow> creds \<Rightarrow> string + creds"
  Setresuid :: "int \<Rightarrow> int \<Rightarrow> int \<Rightarrow> creds \<Rightarrow> string + creds"

datatype priv_err =
    SetgroupsFailed string
  | SetresgidFailed string
  | SetresuidFailed string
  | RestoringRoot string
  | RestoringGroup string
  | FnFailed string

section \<open>The operations\<close>

definition Drop :: "syscalls \<Rightarrow> int \<Rightarrow> int \<Rightarrow> creds \<Rightarrow> creds \<times> priv_err option" where
  "Drop sys uid gid c =
     (case Setgroups sys [gid] c of
        Inl e \<Rightarrow> (c, Some (SetgroupsFailed e))
      | Inr c1 \<Rightarrow>
          (case Setresgid sys gid gid gid c1 of
             Inl e \<Rightarrow> (c1, Some (SetresgidFailed e))
           | Inr c2 \<Rightarrow>
               (case Setresuid sys uid uid 0 c2 of
                  Inl e \<Rightarrow> (c2, Some (SetresuidFailed e))
                | Inr c3 \<Rightarrow> (c3, None))))"

definition Elevate :: "syscalls \<Rightarrow> creds \<Rightarrow> creds \<times> priv_err option" where
  "Elevate sys c =
     (case Setresuid sys (-1) 0 (-1) c of
        Inl e \<Rightarrow> (c, Some (SetresuidFailed e))
      | Inr c1 \<Rightarrow> (c1, None))"

text \<open>\<open>fn\<close> is given the credentials it runs with and a state of the world.\<close>

definition As ::
  "syscalls \<Rightarrow> int \<Rightarrow> int \<Rightarrow> (creds \<Rightarrow> 'w \<Rightarrow> 'w \<times> string option) \<Rightarrow> creds \<Rightarrow> 'w \<Rightarrow>
   'w \<times> creds \<times> priv_err option" where
  "As sys uid gid fn c w =
     (case Setresgid sys (-1) gid (-1) c of
        Inl e \<Rightarrow> (w, c, Some (SetresgidFailed e))
      | Inr c1 \<Rightarrow>
          (case Setresuid sys (-1) uid (-1) c1 of
             Inl e \<Rightarrow>
               (w, case Setresgid sys (-1) 0 (-1) c1 of Inr c2 \<Rightarrow> c2 | Inl _ \<Rightarrow> c1,
                Some (SetresuidFailed e))
           | Inr c2 \<Rightarrow>
               (case fn c2 w of (w', err) \<Rightarrow>
                  (case Setresuid sys (-1) 0 (-1) c2 of
                     Inl e \<Rightarrow> (w', c2, Some (RestoringRoot e))
                   | Inr c3 \<Rightarrow>
                       (case Setresgid sys (-1) 0 (-1) c3 of
                          Inl e \<Rightarrow> (w', c3, Some (RestoringGroup e))
                        | Inr c4 \<Rightarrow> (w', c4, map_option FnFailed err))))))"

section \<open>What the kernel promises\<close>

definition kernel_id :: "int \<Rightarrow> int" where
  "kernel_id n = n mod 4294967296"

definition no_id :: "int \<Rightarrow> bool" where
  "no_id n \<longleftrightarrow> kernel_id n = 4294967295"

definition set_id :: "int \<Rightarrow> int \<Rightarrow> int" where
  "set_id new old = (if no_id new then old else kernel_id new)"

text \<open>An ID that a process without privilege may take.\<close>

definition may_set :: "int set \<Rightarrow> int \<Rightarrow> bool" where
  "may_set ids new \<longleftrightarrow> no_id new \<or> kernel_id new \<in> ids"

text \<open>A user's or group's ID.\<close>

definition valid_id :: "int \<Rightarrow> bool" where
  "valid_id n \<longleftrightarrow> 0 \<le> n \<and> n < 4294967295"

lemma id_simps [simp]:
  "kernel_id 0 = 0" "\<not> no_id 0" "no_id (-1)" "no_id 4294967295"
  "valid_id n \<Longrightarrow> kernel_id n = n" "valid_id n \<Longrightarrow> \<not> no_id n"
  by (simp_all add: kernel_id_def no_id_def valid_id_def)

locale linux =
  fixes sys :: syscalls
  assumes setgroups_root: "\<lbrakk>euid c = 0; list_all (\<lambda>g. \<not> no_id g) gs\<rbrakk>
      \<Longrightarrow> Setgroups sys gs c = Inr (c\<lparr>groups := map kernel_id gs\<rparr>)"
    and setresgid_ok: "euid c = 0 \<or> (may_set {rgid c, egid c, sgid c} r
        \<and> may_set {rgid c, egid c, sgid c} e \<and> may_set {rgid c, egid c, sgid c} s) \<Longrightarrow>
      Setresgid sys r e s c =
        Inr (c\<lparr>rgid := set_id r (rgid c), egid := set_id e (egid c), sgid := set_id s (sgid c)\<rparr>)"
    and setresuid_ok: "euid c = 0 \<or> (may_set {ruid c, euid c, suid c} r
        \<and> may_set {ruid c, euid c, suid c} e \<and> may_set {ruid c, euid c, suid c} s) \<Longrightarrow>
      Setresuid sys r e s c =
        Inr (c\<lparr>ruid := set_id r (ruid c), euid := set_id e (euid c), suid := set_id s (suid c)\<rparr>)"
    and setresuid_denied: "euid c \<noteq> 0 \<Longrightarrow> \<not> may_set {ruid c, euid c, suid c} e \<Longrightarrow>
      \<exists>err. Setresuid sys r e s c = Inl err"
begin

lemma Drop_root:
  "euid c = 0 \<Longrightarrow> valid_id uid \<Longrightarrow> valid_id gid \<Longrightarrow> Drop sys uid gid c =
    (\<lparr>ruid = uid, euid = uid, suid = 0, rgid = gid, egid = gid, sgid = gid, groups = [gid]\<rparr>, None)"
  by (simp add: Drop_def setgroups_root setresgid_ok setresuid_ok set_id_def creds.equality)

lemma Elevate_saved:
  "suid c = 0 \<Longrightarrow> Elevate sys c = (c\<lparr>euid := 0\<rparr>, None)"
  by (simp add: Elevate_def setresuid_ok may_set_def set_id_def)

text \<open>With the largest ID there is, \<open>Drop\<close> succeeds and the process stays root.\<close>

lemma Drop_keeps_root:
  assumes "euid c = 0" "valid_id gid"
  shows "snd (Drop sys 4294967295 gid c) = None" "euid (fst (Drop sys 4294967295 gid c)) = 0"
  using assms by (simp_all add: Drop_def setgroups_root setresgid_ok setresuid_ok set_id_def)

lemma As_root:
  assumes "euid c = 0" "ruid c = 0" "egid c = 0" "valid_id uid" "valid_id gid"
  shows "As sys uid gid fn c w =
    (case fn (c\<lparr>egid := gid, euid := uid\<rparr>) w of (w', err) \<Rightarrow> (w', c, map_option FnFailed err))"
  using assms
  by (cases c) (simp add: As_def setresgid_ok setresuid_ok set_id_def may_set_def split: prod.splits)

end

text \<open>Where any call may fail, what the operations do when they succeed, and what a failure of
  \<open>As\<close> leaves.\<close>

locale linux_effects =
  fixes sys :: syscalls
  assumes setgroups_effect: "Setgroups sys gs c = Inr c' \<Longrightarrow> c' = c\<lparr>groups := map kernel_id gs\<rparr>"
    and setresgid_effect: "Setresgid sys r e s c = Inr c' \<Longrightarrow>
      c' = c\<lparr>rgid := set_id r (rgid c), egid := set_id e (egid c), sgid := set_id s (sgid c)\<rparr>"
    and setresuid_effect: "Setresuid sys r e s c = Inr c' \<Longrightarrow>
      c' = c\<lparr>ruid := set_id r (ruid c), euid := set_id e (euid c), suid := set_id s (suid c)\<rparr>"
begin

lemmas effects = setgroups_effect setresgid_effect setresuid_effect

lemma Drop_done:
  "Drop sys uid gid c = (c', None) \<Longrightarrow> valid_id uid \<Longrightarrow> valid_id gid \<Longrightarrow>
    c' = \<lparr>ruid = uid, euid = uid, suid = 0, rgid = gid, egid = gid, sgid = gid, groups = [gid]\<rparr>"
  by (auto simp: Drop_def set_id_def creds.equality split: sum.splits dest!: effects)

text \<open>\<open>fn\<close> runs with the user's effective IDs or not at all; when it ran and the restoring calls
  succeeded, the credentials are the old ones.\<close>

lemma As_done:
  assumes "As sys uid gid fn c w = (w', c', err)" "euid c = 0" "egid c = 0" "valid_id uid" "valid_id gid"
  shows "(w' = w \<or> w' = fst (fn (c\<lparr>egid := gid, euid := uid\<rparr>) w))
    \<and> (err = None \<or> (\<exists>e. err = Some (FnFailed e)) \<longrightarrow>
        c' = c \<and> w' = fst (fn (c\<lparr>egid := gid, euid := uid\<rparr>) w))"
  using assms
  by (cases c) (auto simp: As_def set_id_def split: sum.splits prod.splits dest!: effects)

end

text \<open>The calls as a kernel carries them out.\<close>

definition linux_calls :: syscalls where
  "linux_calls =
     \<lparr>Setgroups = (\<lambda>gs c. if euid c \<noteq> 0 then Inl ''EPERM''
        else if list_all (\<lambda>g. \<not> no_id g) gs then Inr (c\<lparr>groups := map kernel_id gs\<rparr>)
        else Inl ''EINVAL''),
      Setresgid = (\<lambda>r e s c.
        if euid c = 0 \<or> (may_set {rgid c, egid c, sgid c} r \<and> may_set {rgid c, egid c, sgid c} e
            \<and> may_set {rgid c, egid c, sgid c} s)
        then Inr (c\<lparr>rgid := set_id r (rgid c), egid := set_id e (egid c), sgid := set_id s (sgid c)\<rparr>)
        else Inl ''EPERM''),
      Setresuid = (\<lambda>r e s c.
        if euid c = 0 \<or> (may_set {ruid c, euid c, suid c} r \<and> may_set {ruid c, euid c, suid c} e
            \<and> may_set {ruid c, euid c, suid c} s)
        then Inr (c\<lparr>ruid := set_id r (ruid c), euid := set_id e (euid c), suid := set_id s (suid c)\<rparr>)
        else Inl ''EPERM'')\<rparr>"

interpretation linux_calls: linux linux_calls
  by unfold_locales (auto simp: linux_calls_def)

text \<open>The same with a \<open>setresuid\<close> that cannot give up root, as at a limit of processes.\<close>

definition limited_calls :: syscalls where
  "limited_calls = linux_calls\<lparr>Setresuid := (\<lambda>r e s c.
     if r \<noteq> -1 then Inl ''EAGAIN'' else Setresuid linux_calls r e s c)\<rparr>"

interpretation linux_results: linux_effects linux_calls
  by unfold_locales (auto simp: linux_calls_def split: if_splits)

interpretation limited_calls: linux_effects limited_calls
  by unfold_locales (auto simp: limited_calls_def split: if_splits dest: linux_results.effects)

section \<open>Properties\<close>

text \<open>C39: Privileges.  \<open>As\<close> runs its function with the user's effective IDs and nothing else of
  root's taken away, and afterwards the credentials are exactly those before, whether the
  function failed or not.  After \<open>Drop\<close> every ID is the user's, the group is the only one, and
  only the saved user ID is root; \<open>Elevate\<close> then makes root the effective user and changes
  nothing else.  The process starts as root in its real and effective IDs.\<close>

theorem privileges_follow_plan:
  assumes "linux sys" "euid c = 0" "ruid c = 0" "egid c = 0" "valid_id uid" "valid_id gid"
  shows "As sys uid gid fn c w =
      (case fn (c\<lparr>egid := gid, euid := uid\<rparr>) w of (w', err) \<Rightarrow> (w', c, map_option FnFailed err))
    \<and> Drop sys uid gid c =
      (\<lparr>ruid = uid, euid = uid, suid = 0, rgid = gid, egid = gid, sgid = gid, groups = [gid]\<rparr>, None)
    \<and> Elevate sys (fst (Drop sys uid gid c)) =
      (\<lparr>ruid = uid, euid = 0, suid = 0, rgid = gid, egid = gid, sgid = gid, groups = [gid]\<rparr>, None)"
proof -
  note ne = assms(5,6)
  have d: "Drop sys uid gid c =
      (\<lparr>ruid = uid, euid = uid, suid = 0, rgid = gid, egid = gid, sgid = gid, groups = [gid]\<rparr>, None)"
    by (rule linux.Drop_root [OF assms(1,2) ne])
  with linux.As_root [OF assms(1-4) ne] linux.Elevate_saved [OF assms(1)] show ?thesis by simp
qed

definition root_creds :: creds where
  "root_creds = \<lparr>ruid = 0, euid = 0, suid = 0, rgid = 0, egid = 0, sgid = 0, groups = [0]\<rparr>"

theorem privileges_follow_plan_witness:
  "As linux_calls 1000 1001 (\<lambda>c w. (w @ [(euid c, egid c)], Some ''EACCES'')) root_creds []
     = ([(1000, 1001)], root_creds, Some (FnFailed ''EACCES''))
   \<and> euid (fst (Drop linux_calls 1000 1001 root_creds)) = 1000"
proof -
  have "linux linux_calls" by unfold_locales
  from privileges_follow_plan [OF this, of root_creds 1000 1001
      "\<lambda>c w. (w @ [(euid c, egid c)], Some ''EACCES'')" "[]"]
  show ?thesis by (simp add: root_creds_def valid_id_def)
qed

end
