(* ===== verification/Engine.thy ===== *)
theory Engine
  imports Mkv Sink Config Nfo "HOL-Library.AList"
begin

text \<open>
  \<^verbatim>\<open>internal/engine/engine.go\<close>: the state of the engine and its operations.  Every operation
  that runs under the engine's mutex is a function on the record \<open>engine\<close>; the sink's state is
  part of it.  A worker's turn is three functions, as it gives up the mutex between them:
  \<open>receive\<close>, \<open>begin_build\<close> and \<open>finish_build\<close>, with \<open>build\<close> in between.  What an operation sees
  of the operating system is its parameter \<open>os\<close>; pure library functions are in \<open>lib\<close>.
\<close>

section \<open>Parameters\<close>

text \<open>Status of one clip.  The error is kept as a value; its text is not modelled.\<close>

datatype engine_err =
    ErrInvalid "problem list"
  | ErrInput input_err
  | ErrLayout layout_err
  | ErrOs os_err
  | ErrSourceChanged
  | ErrFfmpeg string
  | ErrSave string

record status =
  s_state :: string
  s_kind :: string
  s_error :: "engine_err option"
  s_actual_start :: f64
  s_actual_end :: f64
  s_bytes :: int
  s_source :: string

definition StatePending :: string where "StatePending = ''pending''"
definition StateReady :: string where "StateReady = ''ready''"
definition StateError :: string where "StateError = ''error''"

text \<open>\<open>encoding/json\<close>, \<open>sha256\<close>, \<open>fmt\<close>, \<open>unicode.ToLower\<close>, \<open>sort.Slice\<close> and the text of an
  error.  A map is encoded with its keys sorted.\<close>

record lib =
  lb_ul :: "string \<Rightarrow> string"
  lb_sha256 :: "byte list \<Rightarrow> byte list"
  lb_keyJSON :: "int \<times> FileID \<times> f64 \<times> f64 \<times> string \<Rightarrow> byte list"
  lb_metaJSON :: "string \<times> (string \<times> json) list option \<Rightarrow> byte list"
  lb_statusJSON :: "(string \<times> status) list \<Rightarrow> string + byte list"
  lb_marshal :: "layout \<Rightarrow> string + byte list"
  lb_unmarshal :: "byte list \<Rightarrow> string + layout"
  lb_scalar :: "f64 \<Rightarrow> string"
  lb_fmt3 :: "f64 \<Rightarrow> string"
  lb_sort :: "cue_point list \<Rightarrow> cue_point list"
  lb_oor :: "f64 \<Rightarrow> u64"
  lb_text :: "os_err \<Rightarrow> string"

definition stat_text :: "lib \<Rightarrow> os \<Rightarrow> string \<Rightarrow> string + file_info" where
  "stat_text lb os p = (case os_Stat os p of Inl e \<Rightarrow> Inl (lb_text lb e) | Inr i \<Rightarrow> Inr i)"

definition read_text :: "lib \<Rightarrow> os \<Rightarrow> string \<Rightarrow> string + byte list" where
  "read_text lb os p = (case os_ReadFile os p of Inl e \<Rightarrow> Inl (lb_text lb e) | Inr b \<Rightarrow> Inr b)"

definition bytes_of :: "string \<Rightarrow> byte list" where
  "bytes_of s = map (\<lambda>c. of_nat (of_char c)) s"

text \<open>The operations of the interface \<open>Sink\<close>.\<close>

record 's sink_ops =
  sk_set :: "string \<Rightarrow> layout \<Rightarrow> byte list option \<Rightarrow> int \<Rightarrow> 's \<Rightarrow> 's"
  sk_remove :: "string \<Rightarrow> 's \<Rightarrow> 's"

section \<open>State\<close>

record options =
  o_MediaRoot :: string
  o_CacheDir :: string
  o_FFmpeg :: string
  o_Workers :: int
  o_RemuxTimeout :: int
  o_RecheckPeriod :: int

record clip_state =
  k_clip :: clip_def
  k_input :: string
  k_key :: string
  k_status :: status
  k_ready :: "layout option"

text \<open>Why a goroutine that holds the mutex does not go on: a send on the full queue, or a nil
  dereference.\<close>

datatype stuck = QueueFull | NilPointer

record 's engine =
  e_opt :: options
  e_sink :: 's
  e_clips :: "(string \<times> clip_state) list"
  e_file :: "clips_file option"
  e_queue :: "string list"
  e_queued :: "string set"
  e_building :: int
  e_started :: bool
  e_dirty :: bool
  e_stuck :: "stuck option"

definition queue_size :: nat where "queue_size = 65536"

definition zero_clip :: clip_def where
  "zero_clip = \<lparr>c_input = [], c_output = [], c_start = Fin 0, c_end = Fin 0, c_group = [],
     c_nfo_type = [], c_metadata = None\<rparr>"

definition zero_status :: status where
  "zero_status = \<lparr>s_state = [], s_kind = [], s_error = None, s_actual_start = Fin 0,
     s_actual_end = Fin 0, s_bytes = 0, s_source = []\<rparr>"

definition zero_state :: clip_state where
  "zero_state = \<lparr>k_clip = zero_clip, k_input = [], k_key = [], k_status = zero_status,
     k_ready = None\<rparr>"

definition error_status :: "engine_err \<Rightarrow> status" where
  "error_status e = zero_status\<lparr>s_state := StateError, s_error := Some e\<rparr>"

definition engine_New :: "options \<Rightarrow> 's \<Rightarrow> 's engine" where
  "engine_New opt sink =
     \<lparr>e_opt = opt\<lparr>o_Workers := (if o_Workers opt \<le> 0 then 2 else o_Workers opt),
        o_FFmpeg := (if o_FFmpeg opt = [] then ''ffmpeg'' else o_FFmpeg opt),
        o_RemuxTimeout := (if o_RemuxTimeout opt \<le> 0 then 30 * 60 * 1000000000
          else o_RemuxTimeout opt)\<rparr>,
      e_sink = sink, e_clips = [], e_file = None, e_queue = [], e_queued = {},
      e_building = 0, e_started = False, e_dirty = False, e_stuck = None\<rparr>"

definition indexPath :: "options \<Rightarrow> string \<Rightarrow> string" where
  "indexPath opt key = path_Join [o_CacheDir opt, ''index'', key @ ''.json'']"

definition remuxPath :: "options \<Rightarrow> string \<Rightarrow> string" where
  "remuxPath opt key = path_Join [o_CacheDir opt, ''remux'', key @ ''.mkv'']"

definition StatusPath :: "options \<Rightarrow> string" where
  "StatusPath opt = path_Join [o_CacheDir opt, ''status.json'']"

definition clipKey :: "lib \<Rightarrow> clip_def \<Rightarrow> FileID \<Rightarrow> string" where
  "clipKey lb c origin =
     hex_string (take 16 (lb_sha256 lb
       (lb_keyJSON lb (FormatVersion, origin, c_start c, c_end c, c_output c))))"

definition metadataEqual :: "lib \<Rightarrow> clip_def \<Rightarrow> clip_def \<Rightarrow> bool" where
  "metadataEqual lb a b \<longleftrightarrow>
     lb_metaJSON lb (c_nfo_type a, c_metadata a) = lb_metaJSON lb (c_nfo_type b, c_metadata b)"

definition dataValid :: "lib \<Rightarrow> os \<Rightarrow> layout \<Rightarrow> bool" where
  "dataValid lb os l \<longleftrightarrow> Stat (stat_text lb os) (f_path (l_data l)) = Inr (l_data l)"

definition statusOf :: "options \<Rightarrow> layout \<Rightarrow> status" where
  "statusOf opt l =
     \<lparr>s_state = StateReady, s_kind = l_kind l, s_error = None, s_actual_start = l_actual_start l,
      s_actual_end = l_actual_end l, s_bytes = l_size l,
      s_source = Relative (o_MediaRoot opt) (f_path (l_origin l))\<rparr>"

definition clip_nfo :: "lib \<Rightarrow> clip_def \<Rightarrow> byte list option" where
  "clip_nfo lb c =
     (if c_metadata c \<noteq> None \<or> c_nfo_type c \<noteq> []
      then Some (bytes_of (Generate (lb_scalar lb) (c_nfo_type c)
        (case c_metadata c of None \<Rightarrow> [] | Some m \<Rightarrow> m) (ValidKey (lb_ul lb))))
      else None)"

text \<open>\<open>st\<close> is the clip's state, which \<open>publish\<close> reads only; a layout that is nil is not
  published by any sink and counts as a nil dereference here.\<close>

definition publish :: "lib \<Rightarrow> 's sink_ops \<Rightarrow> string \<Rightarrow> clip_state \<Rightarrow> 's engine \<Rightarrow> 's engine" where
  "publish lb ops path st E =
     (case (e_file E, k_ready st) of
        (Some file, Some l) \<Rightarrow>
          E\<lparr>e_sink := sk_set ops path l (clip_nfo lb (k_clip st))
              (case fl_mtime file of Some t \<Rightarrow> t | None \<Rightarrow> l_built l) (e_sink E)\<rparr>
      | _ \<Rightarrow> E\<lparr>e_stuck := Some NilPointer\<rparr>)"

definition enqueue :: "string \<Rightarrow> 's engine \<Rightarrow> 's engine" where
  "enqueue path E =
     (if path \<in> e_queued E then E
      else let E1 = E\<lparr>e_queued := insert path (e_queued E)\<rparr>
           in if length (e_queue E1) < queue_size then E1\<lparr>e_queue := e_queue E1 @ [path]\<rparr>
              else E1\<lparr>e_stuck := Some QueueFull\<rparr>)"

definition put_clip :: "string \<Rightarrow> clip_state \<Rightarrow> 's engine \<Rightarrow> 's engine" where
  "put_clip path st E = E\<lparr>e_clips := AList.update path st (e_clips E)\<rparr>"

definition sink_remove :: "'s sink_ops \<Rightarrow> string \<Rightarrow> 's engine \<Rightarrow> 's engine" where
  "sink_remove ops path E = E\<lparr>e_sink := sk_remove ops path (e_sink E)\<rparr>"

section \<open>Applying a configuration\<close>

definition fail_clip ::
  "'s sink_ops \<Rightarrow> string \<Rightarrow> clip_def \<Rightarrow> clip_state \<Rightarrow> engine_err \<Rightarrow> 's engine \<Rightarrow> 's engine" where
  "fail_clip ops path c st err E =
     put_clip path (zero_state\<lparr>k_clip := c, k_status := error_status err\<rparr>)
       (if k_ready st \<noteq> None then sink_remove ops path E else E)"

text \<open>The clip stays as it is; a change of its metadata is published.\<close>

definition keep_clip ::
  "lib \<Rightarrow> 's sink_ops \<Rightarrow> string \<Rightarrow> clip_def \<Rightarrow> clip_state \<Rightarrow> 's engine \<Rightarrow> 's engine" where
  "keep_clip lb ops path c st E =
     (let nfoChanged = (\<not> metadataEqual lb (k_clip st) c);
          st1 = st\<lparr>k_clip := c\<rparr>;
          E1 = put_clip path st1 E
      in if nfoChanged \<and> k_ready st \<noteq> None then publish lb ops path st1 E1 else E1)"

text \<open>The clip changed: its layout comes from the index, or it is queued.\<close>

definition renew_clip ::
  "lib \<Rightarrow> 's sink_ops \<Rightarrow> os \<Rightarrow> string \<Rightarrow> clip_def \<Rightarrow> string \<Rightarrow> FileID \<Rightarrow> string \<Rightarrow> clip_state \<Rightarrow>
   's engine \<Rightarrow> 's engine" where
  "renew_clip lb ops os path c input origin key st E =
     (let replaced = (case k_ready st of None \<Rightarrow> False | Some l \<Rightarrow> l_origin l \<noteq> origin);
          E1 = (if replaced then sink_remove ops path E else E);
          st1 = st\<lparr>k_clip := c, k_input := input, k_key := key,
            k_ready := (if replaced then None else k_ready st)\<rparr>;
          pending = enqueue path
            (put_clip path (st1\<lparr>k_status := zero_status\<lparr>s_state := StatePending\<rparr>\<rparr>) E1)
      in (case Load (read_text lb os) (lb_unmarshal lb) (indexPath (e_opt E) key) of
            Inl _ \<Rightarrow> pending
          | Inr l \<Rightarrow>
              if dataValid lb os l
              then let st2 = st1\<lparr>k_ready := Some l, k_status := statusOf (e_opt E) l\<rparr>
                   in publish lb ops path st2 (put_clip path st2 E1)
              else pending))"

definition applyClip ::
  "lib \<Rightarrow> 's sink_ops \<Rightarrow> os \<Rightarrow> string \<Rightarrow> clip_def \<Rightarrow> 's engine \<Rightarrow> 's engine" where
  "applyClip lb ops os path c E =
     (let st = (case map_of (e_clips E) path of Some st \<Rightarrow> st | None \<Rightarrow> zero_state)
      in (case ResolveInput (lb_ul lb) os (o_MediaRoot (e_opt E)) (c_input c) of
            Inl e \<Rightarrow> fail_clip ops path c st (ErrInput e) E
          | Inr input \<Rightarrow>
              (case Stat (stat_text lb os) input of
                 Inl e \<Rightarrow> fail_clip ops path c st (ErrLayout e) E
               | Inr origin \<Rightarrow>
                   let key = clipKey lb c origin
                   in if k_key st = key \<and> s_state (k_status st) \<noteq> StateError
                         \<and> (case k_ready st of None \<Rightarrow> True | Some l \<Rightarrow> dataValid lb os l)
                      then keep_clip lb ops path c st E
                      else renew_clip lb ops os path c input origin key st E)))"

text \<open>The messages of the problems of clip \<open>i\<close>.\<close>

definition problems_of :: "(nat \<times> problem) list \<Rightarrow> nat \<Rightarrow> problem list" where
  "problems_of vs i = map snd (filter (\<lambda>v. fst v = i) vs)"

text \<open>The maps \<open>want\<close> and \<open>invalid\<close> of \<open>Apply\<close>.\<close>

fun split_clips ::
  "(nat \<times> problem) list \<Rightarrow> nat \<Rightarrow> clip_def list \<Rightarrow>
   (string \<times> clip_def) list \<times> (string \<times> problem list) list \<Rightarrow>
   (string \<times> clip_def) list \<times> (string \<times> problem list) list" where
  "split_clips vs i [] wi = wi"
| "split_clips vs i (c # cs) (want, invalid) =
     split_clips vs (Suc i) cs
       (if problems_of vs i \<noteq> [] then (want, AList.update (Path c) (problems_of vs i) invalid)
        else (AList.update (Path c) c want, invalid))"

text \<open>The bodies of the loops over \<open>e.clips\<close>, \<open>invalid\<close> and \<open>want\<close>.\<close>

definition drop_clip ::
  "'s sink_ops \<Rightarrow> (string \<times> clip_def) list \<Rightarrow> (string \<times> problem list) list \<Rightarrow> string \<Rightarrow>
   's engine \<Rightarrow> 's engine" where
  "drop_clip ops want invalid path E =
     (case map_of (e_clips E) path of
        None \<Rightarrow> E
      | Some st \<Rightarrow>
          if map_of want path \<noteq> None then E
          else let E1 = (if k_ready st \<noteq> None then sink_remove ops path E else E)
               in if map_of invalid path \<noteq> None then E1
                  else E1\<lparr>e_clips := AList.delete path (e_clips E1)\<rparr>)"

definition invalid_clip ::
  "(string \<times> clip_def) list \<Rightarrow> (string \<times> problem list) list \<Rightarrow> string \<Rightarrow> 's engine \<Rightarrow>
   's engine" where
  "invalid_clip want invalid path E =
     (case map_of invalid path of
        None \<Rightarrow> E
      | Some msgs \<Rightarrow>
          if map_of want path \<noteq> None then E
          else put_clip path (zero_state\<lparr>k_status := error_status (ErrInvalid msgs)\<rparr>) E)"

definition want_clip ::
  "lib \<Rightarrow> 's sink_ops \<Rightarrow> (string \<Rightarrow> os) \<Rightarrow> (string \<times> clip_def) list \<Rightarrow> string \<Rightarrow> 's engine \<Rightarrow>
   's engine" where
  "want_clip lb ops os_at want path E =
     (case map_of want path of
        None \<Rightarrow> E
      | Some c \<Rightarrow> if e_stuck E \<noteq> None then E else applyClip lb ops (os_at path) path c E)"

text \<open>\<open>os\<close> is what \<open>Validate\<close> sees and \<open>os_at path\<close> what \<open>applyClip\<close> sees.  The order of the
  three iterations over maps is the language's choice: \<open>ord n\<close> permutes the keys of the
  \<open>n\<close>-th.\<close>

definition Apply ::
  "lib \<Rightarrow> 's sink_ops \<Rightarrow> os \<Rightarrow> (string \<Rightarrow> os) \<Rightarrow> (nat \<Rightarrow> string list \<Rightarrow> string list) \<Rightarrow>
   clips_file \<Rightarrow> 's engine \<Rightarrow> 's engine" where
  "Apply lb ops os os_at ord file E =
     (let vs = Validate (lb_ul lb) os (fl_clips file) (o_MediaRoot (e_opt E))
      in case split_clips vs 0 (fl_clips file) ([], []) of
        (want, invalid) \<Rightarrow>
          let E0 = E\<lparr>e_file := Some file\<rparr>;
              E1 = foldl (\<lambda>E p. drop_clip ops want invalid p E) E0 (ord 0 (map fst (e_clips E)));
              E2 = foldl (\<lambda>E p. invalid_clip want invalid p E) E1 (ord 1 (map fst invalid));
              E3 = foldl (\<lambda>E p. want_clip lb ops os_at want p E) E2 (ord 2 (map fst want))
          in if e_stuck E3 \<noteq> None then E3 else E3\<lparr>e_dirty := True\<rparr>)"

text \<open>\<open>Recheck\<close> reads the file under the mutex, gives the mutex up, and then calls \<open>Apply\<close>: \<open>E0\<close>
  is the engine when the file is read, \<open>E\<close> the engine when \<open>Apply\<close> gets the mutex.\<close>

definition Recheck ::
  "lib \<Rightarrow> 's sink_ops \<Rightarrow> os \<Rightarrow> (string \<Rightarrow> os) \<Rightarrow> (nat \<Rightarrow> string list \<Rightarrow> string list) \<Rightarrow>
   's engine \<Rightarrow> 's engine \<Rightarrow> 's engine" where
  "Recheck lb ops os os_at ord E0 E =
     (case e_file E0 of None \<Rightarrow> E | Some f \<Rightarrow> Apply lb ops os os_at ord f E)"

section \<open>The workers\<close>

definition receive :: "'s engine \<Rightarrow> (string \<times> 's engine) option" where
  "receive E =
     (case e_queue E of [] \<Rightarrow> None | path # q \<Rightarrow> Some (path, E\<lparr>e_queue := q\<rparr>))"

definition begin_build ::
  "string \<Rightarrow> 's engine \<Rightarrow> 's engine \<times> (clip_def \<times> string \<times> string) option" where
  "begin_build path E =
     (let E1 = E\<lparr>e_queued := e_queued E - {path}\<rparr>
      in (case map_of (e_clips E1) path of
            None \<Rightarrow> (E1, None)
          | Some st \<Rightarrow>
              (E1\<lparr>e_building := e_building E1 + 1\<rparr>, Some (k_clip st, k_input st, k_key st))))"

definition finish_build ::
  "lib \<Rightarrow> 's sink_ops \<Rightarrow> string \<Rightarrow> string \<Rightarrow> engine_err + layout \<Rightarrow> 's engine \<Rightarrow> 's engine" where
  "finish_build lb ops path key res E =
     (let E1 = E\<lparr>e_building := e_building E - 1, e_dirty := True\<rparr>
      in (case map_of (e_clips E1) path of
            None \<Rightarrow> E1
          | Some st \<Rightarrow>
              if k_key st \<noteq> key then E1
              else (case res of
                  Inl err \<Rightarrow>
                    put_clip path (st\<lparr>k_ready := None, k_status := error_status err\<rparr>)
                      (if k_ready st \<noteq> None then sink_remove ops path E1 else E1)
                | Inr l \<Rightarrow>
                    let st1 = st\<lparr>k_ready := Some l, k_status := statusOf (e_opt E) l\<rparr>
                    in publish lb ops path st1 (put_clip path st1 E1))))"

section \<open>Building a clip\<close>

definition matroskaExt :: "string list" where
  "matroskaExt = [''.mkv'', ''.mk3d'', ''.webm'']"

definition buildMKV :: "lib \<Rightarrow> reader \<Rightarrow> int \<Rightarrow> clip_def \<Rightarrow> mkv_err + clip" where
  "buildMKV lb f sz c =
     (case Open (lb_sort lb) f sz of
        Inl e \<Rightarrow> Inl e
      | Inr src \<Rightarrow> BuildClip (lb_oor lb) src f (c_start c) (c_end c) (bytes_of (c_output c)))"

text \<open>What one build meets: the files it opens, the clock, the outcome of \<open>ffmpeg\<close> for a list
  of arguments (what it leaves in the cache directory, and its failure), the outcomes of the
  rename, of the write of the index and of the removal of the temporary file, which is
  ignored, and the system before and after the remux.\<close>

record build_env =
  be_open :: "string \<Rightarrow> os_err + reader"
  be_os :: os
  be_now :: int
  be_run :: "string list \<Rightarrow> fs \<Rightarrow> fs \<times> string option"
  be_rename :: "os_err option"
  be_os_after :: os
  be_save :: write_env
  be_remove :: "os_err option"

definition remux_args :: "lib \<Rightarrow> clip_def \<Rightarrow> string \<Rightarrow> string \<Rightarrow> bool \<Rightarrow> string list" where
  "remux_args lb c input tmp subs =
     [''-nostdin'', ''-hide_banner'', ''-loglevel'', ''error'',
      ''-ss'', lb_fmt3 lb (c_start c), ''-i'', input,
      ''-t'', lb_fmt3 lb (f64_sub (c_end c) (c_start c)),
      ''-map'', ''0:v'', ''-map'', ''0:a?'']
     @ (if subs then [''-map'', ''0:s?''] else [])
     @ [''-c'', ''copy'', ''-avoid_negative_ts'', ''make_zero'',
        ''-metadata'', ''title='' @ c_output c, ''-f'', ''matroska'', ''-y'', tmp]"

definition save_layout ::
  "lib \<Rightarrow> options \<Rightarrow> build_env \<Rightarrow> fs \<Rightarrow> string \<Rightarrow> layout \<Rightarrow> fs \<times> (engine_err + layout)" where
  "save_layout lb opt be fs key l =
     (case Finalize l of
        (_, Some e) \<Rightarrow> (fs, Inl (ErrLayout e))
      | (l', None) \<Rightarrow>
          (case Save (lb_marshal lb) (be_save be) fs l' (indexPath opt key) of
             (states, Some e) \<Rightarrow> (last states, Inl (ErrSave e))
           | (states, None) \<Rightarrow> (last states, Inr l')))"

definition remux_tmp :: "options \<Rightarrow> string \<Rightarrow> string" where
  "remux_tmp opt key = path_Join [path_Dir (remuxPath opt key), ''.'' @ key @ ''.tmp.mkv'']"

text \<open>The first run copies the subtitles too; when it fails a second one leaves them out.\<close>

definition remux_run ::
  "lib \<Rightarrow> build_env \<Rightarrow> clip_def \<Rightarrow> string \<Rightarrow> string \<Rightarrow> fs \<Rightarrow> fs \<times> string option" where
  "remux_run lb be c input tmp fs =
     (case be_run be (remux_args lb c input tmp True) fs of
        (fs1, None) \<Rightarrow> (fs1, None)
      | (fs1, Some _) \<Rightarrow> be_run be (remux_args lb c input tmp False) fs1)"

definition remux ::
  "lib \<Rightarrow> options \<Rightarrow> build_env \<Rightarrow> fs \<Rightarrow> clip_def \<Rightarrow> string \<Rightarrow> string \<Rightarrow> layout \<Rightarrow>
   fs \<times> (engine_err + layout)" where
  "remux lb opt be fs c input key l =
     (let out = remuxPath opt key;
          tmp = remux_tmp opt key;
          cleaned = (\<lambda>(fs, res). (if be_remove be = None then fs(tmp := None) else fs, res))
      in cleaned (case remux_run lb be c input tmp fs of
           (fs1, Some e) \<Rightarrow> (fs1, Inl (ErrFfmpeg e))
         | (fs1, None) \<Rightarrow>
             (case be_rename be of
                Some e \<Rightarrow> (fs1, Inl (ErrOs e))
              | None \<Rightarrow>
                  let fs2 = fs1(tmp := None, out := fs1 tmp)
                  in (case Stat (stat_text lb (be_os_after be)) out of
                        Inl e \<Rightarrow> (fs2, Inl (ErrLayout e))
                      | Inr data \<Rightarrow>
                          save_layout lb opt be fs2 key
                            (l\<lparr>l_kind := KindRemux, l_data := data, l_actual_start := c_start c,
                               l_actual_end := c_end c,
                               l_parts := [Range 0 (f_size data)]\<rparr>)))))"

definition new_layout :: "FileID \<Rightarrow> clip_def \<Rightarrow> int \<Rightarrow> layout" where
  "new_layout origin c now =
     \<lparr>l_version = FormatVersion, l_kind = [], l_origin = origin,
      l_data = \<lparr>f_path = [], f_size = 0, f_mtime = 0\<rparr>, l_start = c_start c, l_end = c_end c,
      l_actual_start = Fin 0, l_actual_end = Fin 0, l_size = 0, l_built = now,
      l_parts = [], l_offsets = []\<rparr>"

definition build ::
  "lib \<Rightarrow> options \<Rightarrow> build_env \<Rightarrow> fs \<Rightarrow> clip_def \<Rightarrow> string \<Rightarrow> string \<Rightarrow> fs \<times> (engine_err + layout)"
where
  "build lb opt be fs c input key =
     (case be_open be input of
        Inl e \<Rightarrow> (fs, Inl (ErrOs e))
      | Inr f \<Rightarrow>
          (case Stat (stat_text lb (be_os be)) input of
             Inl e \<Rightarrow> (fs, Inl (ErrLayout e))
           | Inr origin \<Rightarrow>
               if clipKey lb c origin \<noteq> key then (fs, Inl ErrSourceChanged)
               else
                 let l = new_layout origin c (be_now be)
                 in if ToLower (lb_ul lb) (path_Ext input) \<in> set matroskaExt
                    then (case buildMKV lb f (f_size origin) c of
                        Inr clip \<Rightarrow>
                          save_layout lb opt be fs key
                            (l\<lparr>l_kind := KindMKV, l_data := origin, l_parts := clip_parts clip,
                               l_actual_start := clip_start clip, l_actual_end := clip_end clip\<rparr>)
                      | Inl _ \<Rightarrow> remux lb opt be fs c input key l)
                    else remux lb opt be fs c input key l))"

section \<open>Housekeeping\<close>

text \<open>\<open>Start\<close> removes the temporary files of an interrupted remux, \<open>tmps\<close>; a file that cannot
  be removed stays.\<close>

definition Start :: "string list \<Rightarrow> (string \<Rightarrow> os_err option) \<Rightarrow> fs \<Rightarrow> 's engine \<Rightarrow> fs \<times> 's engine" where
  "Start tmps rm fs E =
     (foldl (\<lambda>fs t. if rm t = None then fs(t := None) else fs) fs tmps, E\<lparr>e_started := True\<rparr>)"

definition writeStatus :: "lib \<Rightarrow> write_env \<Rightarrow> fs \<Rightarrow> 's engine \<Rightarrow> fs \<times> string option" where
  "writeStatus lb env fs E =
     (if \<not> e_started E then (fs, None)
      else (case lb_statusJSON lb (map (\<lambda>(path, st). (path, k_status st)) (e_clips E)) of
          Inl e \<Rightarrow> (fs, Some e)
        | Inr b \<Rightarrow>
            (case WriteFileAtomic env fs (StatusPath (e_opt E)) b 0x1A4 of
               (states, err) \<Rightarrow> (last states, err))))"

text \<open>One tick of the status timer: the engine, the cache directory, the variable \<open>cleaned\<close> and
  whether \<open>cleanCache\<close> is called next.\<close>

definition status_tick ::
  "lib \<Rightarrow> write_env \<Rightarrow> fs \<Rightarrow> bool \<Rightarrow> 's engine \<Rightarrow> fs \<times> bool \<times> 's engine \<times> bool" where
  "status_tick lb env fs cleaned E =
     (let idle = (e_queued E = {} \<and> e_building E = 0)
      in case (if e_dirty E then (fst (writeStatus lb env fs E), False, E\<lparr>e_dirty := False\<rparr>)
               else (fs, cleaned, E)) of
        (fs1, cleaned1, E1) \<Rightarrow>
          if idle \<and> \<not> cleaned1 then (fs1, True, E1, True) else (fs1, cleaned1, E1, False))"

definition entry_key :: "string \<Rightarrow> string" where
  "entry_key name = TrimSuffix (TrimSuffix name ''.json'') ''.mkv''"

definition kept_entry :: "string list \<Rightarrow> string \<Rightarrow> bool" where
  "kept_entry keep name \<longleftrightarrow>
     HasPrefix name ''.'' \<or> length (entry_key name) \<noteq> 32 \<or> entry_key name \<in> set keep"

text \<open>The keys are read under the mutex, but the directories are read and the entries removed
  without it: \<open>E\<close> is the engine when the mutex is released, \<open>os_at dir\<close> the system when \<open>dir\<close> is
  read, and \<open>others p\<close> what the other goroutines did to the files by the time the entry \<open>p\<close> is
  reached.\<close>

fun clean_entries ::
  "(string \<Rightarrow> fs \<Rightarrow> fs) \<Rightarrow> (string \<Rightarrow> os_err option) \<Rightarrow> string list \<Rightarrow> string \<Rightarrow> string \<Rightarrow>
   string list \<Rightarrow> fs \<Rightarrow> fs" where
  "clean_entries others rm keep cache dir [] fs = fs"
| "clean_entries others rm keep cache dir (name # names) fs =
     (let p = path_Join [cache, dir, name];
          fs1 = others p fs
      in clean_entries others rm keep cache dir names
           (if kept_entry keep name \<or> rm p \<noteq> None then fs1 else fs1(p := None)))"

definition cleanCache ::
  "(string \<Rightarrow> os) \<Rightarrow> (string \<Rightarrow> fs \<Rightarrow> fs) \<Rightarrow> (string \<Rightarrow> os_err option) \<Rightarrow> 's engine \<Rightarrow> fs \<Rightarrow> fs"
where
  "cleanCache os_at others rm E fs =
     (let keep = map (\<lambda>(_, st). k_key st) (e_clips E);
          cache = o_CacheDir (e_opt E)
      in foldl (\<lambda>fs dir.
           (case os_ReadDir (os_at dir) (path_Join [cache, dir]) of
              Inl _ \<Rightarrow> fs
            | Inr entries \<Rightarrow> clean_entries others rm keep cache dir (map d_name entries) fs))
         fs [''index'', ''remux''])"

end
