(* ===== verification/EngineRun.thy ===== *)
theory EngineRun
  imports Engine "HOL-Library.Multiset"
begin

text \<open>
  The engine in motion: the steps of \<^verbatim>\<open>internal/engine/engine.go\<close> that the goroutines of the
  program interleave, under its mutex, and the invariants of the states they reach.  The lemmas
  hold for every sink that keeps the contract \<open>clip_sink\<close>; \<open>EngineMount\<close> states the properties for
  the mount of \<open>Clipfs\<close>.
\<close>

section \<open>Steps\<close>

text \<open>What a worker is busy with: a path it took from the queue, or a build.\<close>

datatype job =
    Received string
  | Building string clip_def string string

fun job_received :: "job \<Rightarrow> string list" where
  "job_received (Received p) = [p]"
| "job_received (Building p c i k) = []"

fun job_building :: "job \<Rightarrow> string list" where
  "job_building (Received p) = []"
| "job_building (Building p c i k) = [p]"

definition received :: "job list \<Rightarrow> string list" where
  "received J = concat (map job_received J)"

definition building_paths :: "job list \<Rightarrow> string list" where
  "building_paths J = concat (map job_building J)"

text \<open>The order in which Go iterates over a map is a permutation of its keys.\<close>

definition is_order :: "(nat \<Rightarrow> string list \<Rightarrow> string list) \<Rightarrow> bool" where
  "is_order ord \<longleftrightarrow> (\<forall>n xs. mset (ord n xs) = mset xs)"

text \<open>A layout that was built for a clip with this key.\<close>

definition built_for :: "lib \<Rightarrow> string \<Rightarrow> layout \<Rightarrow> bool" where
  "built_for lb key l \<longleftrightarrow>
     (\<exists>c. clipKey lb c (l_origin l) = key \<and> l_start l = c_start c \<and> l_end l = c_end c)"

text \<open>The index holds what \<open>build\<close> saved in it.\<close>

definition index_law :: "lib \<Rightarrow> options \<Rightarrow> os \<Rightarrow> bool" where
  "index_law lb opt os \<longleftrightarrow>
     (\<forall>key l. Load (read_text lb os) (lb_unmarshal lb) (indexPath opt key) = Inr l
        \<longrightarrow> built_for lb key l)"

text \<open>The steps of the workers.\<close>

inductive work ::
  "lib \<Rightarrow> 's sink_ops \<Rightarrow> 's engine \<times> job list \<Rightarrow> 's engine \<times> job list \<Rightarrow> bool"
  for lb ops where
  receive: "\<lbrakk>e_stuck E = None; e_started E; int (length J) < o_Workers (e_opt E);
      receive E = Some (p, E')\<rbrakk> \<Longrightarrow> work lb ops (E, J) (E', Received p # J)"
| skip: "\<lbrakk>e_stuck E = None; Received p \<in> set J; begin_build p E = (E', None)\<rbrakk>
    \<Longrightarrow> work lb ops (E, J) (E', remove1 (Received p) J)"
| begin_build: "\<lbrakk>e_stuck E = None; Received p \<in> set J; begin_build p E = (E', Some (c, i, k))\<rbrakk>
    \<Longrightarrow> work lb ops (E, J) (E', Building p c i k # remove1 (Received p) J)"
| finish: "\<lbrakk>e_stuck E = None; Building p c i k \<in> set J; build lb (e_opt E) be fs c i k = (fs', res)\<rbrakk>
    \<Longrightarrow> work lb ops (E, J) (finish_build lb ops p k res E, remove1 (Building p c i k) J)"

text \<open>All steps: the workers', a new or rechecked configuration, and housekeeping.  A recheck
  applies the file that it found in an earlier state \<open>E0\<close>.\<close>

inductive engine_step ::
  "lib \<Rightarrow> 's sink_ops \<Rightarrow> 's engine \<times> job list \<Rightarrow> 's engine \<times> job list \<Rightarrow> bool"
  for lb ops where
  work: "work lb ops y y' \<Longrightarrow> engine_step lb ops y y'"
| apply_file: "\<lbrakk>e_stuck E = None; is_order ord; \<And>p. index_law lb (e_opt E) (os_at p)\<rbrakk>
    \<Longrightarrow> engine_step lb ops (E, J) (Apply lb ops os os_at ord file E, J)"
| recheck: "\<lbrakk>e_stuck E = None; is_order ord; \<And>p. index_law lb (e_opt E) (os_at p)\<rbrakk>
    \<Longrightarrow> engine_step lb ops (E, J) (Recheck lb ops os os_at ord E0 E, J)"
| start: "\<lbrakk>e_stuck E = None; Start tmps rm fs E = (fs', E')\<rbrakk> \<Longrightarrow> engine_step lb ops (E, J) (E', J)"
| tick: "\<lbrakk>e_stuck E = None; status_tick lb env fs cleaned E = (fs', cleaned', E', clean)\<rbrakk>
    \<Longrightarrow> engine_step lb ops (E, J) (E', J)"

inductive reachable :: "lib \<Rightarrow> 's sink_ops \<Rightarrow> options \<Rightarrow> 's \<Rightarrow> 's engine \<times> job list \<Rightarrow> bool"
  for lb ops opt sink where
  init: "reachable lb ops opt sink (engine_New opt sink, [])"
| step: "\<lbrakk>reachable lb ops opt sink y; engine_step lb ops y y'\<rbrakk> \<Longrightarrow> reachable lb ops opt sink y'"

section \<open>What a build returns\<close>

lemma save_layout_Inr:
  assumes "save_layout lb opt be fs key l0 = (fs', Inr l)"
  shows "Finalize l0 = (l, None)"
    and "\<exists>states. Save (lb_marshal lb) (be_save be) fs l (indexPath opt key) = (states, None)
      \<and> fs' = last states"
  using assms by (auto simp: save_layout_def split: prod.splits option.splits)

text \<open>A build that succeeds ends with \<open>save_layout\<close>; only the temporary file of a remux is
  removed after it.\<close>

lemma build_Inr:
  assumes "build lb opt be fs c input key = (fs', Inr l)"
  obtains origin l0 fs0 fs1 where
    "Stat (stat_text lb (be_os be)) input = Inr origin" "clipKey lb c origin = key"
    "save_layout lb opt be fs0 key l0 = (fs1, Inr l)"
    "fs' = fs1 \<or> fs' = fs1(remux_tmp opt key := None)"
    "l_version l0 = FormatVersion" "l_origin l0 = origin" "l_start l0 = c_start c"
    "l_end l0 = c_end c"
    "l_kind l0 = KindMKV \<and> l_data l0 = origin
     \<or> l_kind l0 = KindRemux \<and> f_path (l_data l0) = remuxPath opt key
       \<and> Stat (stat_text lb (be_os_after be)) (remuxPath opt key) = Inr (l_data l0)"
proof -
  obtain f where "be_open be input = Inr f" using assms by (auto simp: build_def split: sum.splits)
  moreover obtain origin where o: "Stat (stat_text lb (be_os be)) input = Inr origin"
    using assms calculation by (auto simp: build_def split: sum.splits)
  moreover have k: "clipKey lb c origin = key"
    using assms calculation by (auto simp: build_def split: if_splits)
  let ?l = "new_layout origin c (be_now be)"
  consider (mkv) clip :: clip where "save_layout lb opt be fs key
        (?l\<lparr>l_kind := KindMKV, l_data := origin, l_parts := clip_parts clip,
           l_actual_start := clip_start clip, l_actual_end := clip_end clip\<rparr>) = (fs', Inr l)"
    | (remux) "remux lb opt be fs c input key ?l = (fs', Inr l)"
    using assms calculation by (auto simp: build_def Let_def k split: if_splits sum.splits)
  then show thesis
  proof cases
    case (mkv clip)
    show ?thesis by (rule that [OF o k mkv]) (simp_all add: new_layout_def)
  next
    case remux
    then obtain fs2 data fs1 where
      d: "Stat (stat_text lb (be_os_after be)) (remuxPath opt key) = Inr data" and
      s: "save_layout lb opt be fs2 key
        (?l\<lparr>l_kind := KindRemux, l_data := data, l_actual_start := c_start c,
           l_actual_end := c_end c, l_parts := [Range 0 (f_size data)]\<rparr>) = (fs1, Inr l)" and
      f: "fs' = fs1 \<or> fs' = fs1(remux_tmp opt key := None)"
      by (cases "be_remove be")
        (auto simp: remux_def Let_def split: prod.splits option.splits sum.splits)
    from d have "f_path data = remuxPath opt key"
      by (auto simp: Stat_def split: sum.splits if_splits)
    with d f show ?thesis by (intro that [OF o k s]) (simp_all add: new_layout_def)
  qed
qed

lemma build_good:
  assumes "build lb opt be fs c input key = (fs', Inr l)"
  shows "accepted l" "built_for lb key l"
proof -
  obtain origin l0 fs0 fs1 where b: "clipKey lb c origin = key"
    "save_layout lb opt be fs0 key l0 = (fs1, Inr l)" "l_origin l0 = origin"
    "l_start l0 = c_start c" "l_end l0 = c_end c"
    by (rule build_Inr [OF assms])
  note F = save_layout_Inr(1) [OF b(2)]
  show "accepted l" by (rule Finalize_accepted [OF F])
  show "built_for lb key l"
    using Finalize_fields [OF F] b unfolding built_for_def by (intro exI [of _ c]) simp
qed

section \<open>Invariants\<close>

text \<open>\<open>encoding/json\<close> tells different NFOs apart and a digest is not empty.\<close>

definition lib_ok :: "lib \<Rightarrow> bool" where
  "lib_ok lb \<longleftrightarrow> (\<forall>b. lb_sha256 lb b \<noteq> [])
     \<and> (\<forall>a b. metadataEqual lb a b \<longrightarrow> clip_nfo lb a = clip_nfo lb b)"

definition busy :: "'s engine \<Rightarrow> job list \<Rightarrow> string \<Rightarrow> string \<Rightarrow> bool" where
  "busy E J p k \<longleftrightarrow> p \<in> e_queued E \<or> (\<exists>c i. Building p c i k \<in> set J)"

type_synonym shown_clip = "(layout \<times> byte list option \<times> int) option"

text \<open>A clip is pending and waits for a worker, or failed and is not shown, or is ready and
  shown with its NFO.  What is shown is its layout, which \<open>Finalize\<close> accepted.\<close>

definition good_state ::
  "lib \<Rightarrow> options \<Rightarrow> (string \<Rightarrow> bool) \<Rightarrow> shown_clip \<Rightarrow> clip_state \<Rightarrow> bool" where
  "good_state lb opt bz shown st \<longleftrightarrow>
     map_option fst shown = k_ready st
     \<and> (\<forall>l. k_ready st = Some l \<longrightarrow> accepted l)
     \<and> (s_state (k_status st) = StateError \<and> k_ready st = None
          \<and> (k_key st = [] \<or> (\<exists>origin. clipKey lb (k_clip st) origin = k_key st))
        \<or> (\<exists>origin. clipKey lb (k_clip st) origin = k_key st)
          \<and> (s_state (k_status st) = StatePending \<and> bz (k_key st)
             \<or> (\<exists>l t. k_ready st = Some l \<and> k_status st = statusOf opt l
                  \<and> shown = Some (l, clip_nfo lb (k_clip st), t) \<and> built_for lb (k_key st) l)))"

definition good_at ::
  "lib \<Rightarrow> ('s \<Rightarrow> string \<Rightarrow> shown_clip) \<Rightarrow> (string \<Rightarrow> string \<Rightarrow> bool) \<Rightarrow> 's engine \<Rightarrow> string \<Rightarrow> bool" where
  "good_at lb clips bz E p \<longleftrightarrow>
     (case map_of (e_clips E) p of
        None \<Rightarrow> clips (e_sink E) p = None
      | Some st \<Rightarrow> good_state lb (e_opt E) (bz p) (clips (e_sink E) p) st)"

definition queue_ok :: "'s engine \<Rightarrow> job list \<Rightarrow> bool" where
  "queue_ok E J \<longleftrightarrow>
     distinct (e_queue E @ received J)
     \<and> (e_stuck E = None \<longrightarrow> e_queued E = set (e_queue E @ received J))
     \<and> (e_stuck E = None \<or> e_stuck E = Some QueueFull \<and> length (e_queue E) = queue_size)
     \<and> set (e_queue E @ received J) \<subseteq> e_queued E
     \<and> length (e_queue E) \<le> queue_size
     \<and> e_building E = int (length (building_paths J))"

definition engine_inv :: "lib \<Rightarrow> ('s \<Rightarrow> string \<Rightarrow> shown_clip) \<Rightarrow> 's engine \<Rightarrow> job list \<Rightarrow> bool" where
  "engine_inv lb clips E J \<longleftrightarrow>
     (\<forall>p. good_at lb clips (busy E J) E p) \<and> queue_ok E J
     \<and> distinct (map fst (e_clips E)) \<and> (e_clips E \<noteq> [] \<longrightarrow> e_file E \<noteq> None)"

subsection \<open>Frames\<close>

lemma put_clip_simps [simp]:
  "map_of (e_clips (put_clip p st E)) = (map_of (e_clips E))(p \<mapsto> st)"
  "e_sink (put_clip p st E) = e_sink E" "e_opt (put_clip p st E) = e_opt E"
  "e_file (put_clip p st E) = e_file E" "e_queue (put_clip p st E) = e_queue E"
  "e_queued (put_clip p st E) = e_queued E" "e_building (put_clip p st E) = e_building E"
  "e_stuck (put_clip p st E) = e_stuck E"
  by (simp_all add: put_clip_def AList.update_conv')

lemma sink_remove_simps [simp]:
  "e_clips (sink_remove ops p E) = e_clips E"
  "e_sink (sink_remove ops p E) = sk_remove ops p (e_sink E)"
  "e_opt (sink_remove ops p E) = e_opt E"
  "e_file (sink_remove ops p E) = e_file E" "e_queue (sink_remove ops p E) = e_queue E"
  "e_queued (sink_remove ops p E) = e_queued E"
  "e_building (sink_remove ops p E) = e_building E"
  "e_stuck (sink_remove ops p E) = e_stuck E"
  by (simp_all add: sink_remove_def)

lemma publish_Some:
  "\<lbrakk>e_file E = Some fl; k_ready st = Some l\<rbrakk> \<Longrightarrow> publish lb ops p st E =
     E\<lparr>e_sink := sk_set ops p l (clip_nfo lb (k_clip st))
       (case fl_mtime fl of Some t \<Rightarrow> t | None \<Rightarrow> l_built l) (e_sink E)\<rparr>"
  by (simp add: publish_def)

lemma publish_simps [simp]:
  "e_clips (publish lb ops p st E) = e_clips E" "e_opt (publish lb ops p st E) = e_opt E"
  "e_file (publish lb ops p st E) = e_file E" "e_queue (publish lb ops p st E) = e_queue E"
  "e_queued (publish lb ops p st E) = e_queued E" "e_building (publish lb ops p st E) = e_building E"
  by (auto simp: publish_def split: option.split)

lemma enqueue_simps [simp]:
  "e_clips (enqueue p E) = e_clips E" "e_sink (enqueue p E) = e_sink E"
  "e_opt (enqueue p E) = e_opt E" "e_file (enqueue p E) = e_file E"
  "e_queued (enqueue p E) = insert p (e_queued E)" "e_building (enqueue p E) = e_building E"
  by (auto simp: enqueue_def Let_def)

lemma statusOf_state [simp]: "s_state (statusOf opt l) = StateReady"
  by (simp add: statusOf_def)

lemma error_state [simp]: "s_state (error_status e) = StateError"
  by (simp add: error_status_def)

lemma states_distinct [simp]:
  "StateReady \<noteq> StateError" "StateReady \<noteq> StatePending" "StatePending \<noteq> StateError"
  "StateError \<noteq> StateReady" "StatePending \<noteq> StateReady" "StateError \<noteq> StatePending"
  by (simp_all add: StateReady_def StateError_def StatePending_def)

lemma clipKey_nonempty: "lib_ok lb \<Longrightarrow> clipKey lb c origin \<noteq> []"
  by (simp add: lib_ok_def clipKey_def hex_string_def neq_Nil_conv)

lemma good_state_mono:
  "\<lbrakk>good_state lb opt bz shown st; bz (k_key st) \<Longrightarrow> bz' (k_key st)\<rbrakk>
   \<Longrightarrow> good_state lb opt bz' shown st"
  by (auto simp: good_state_def)

lemma good_at_frame [simp]:
  "good_at lb clips bz (E\<lparr>e_file := f\<rparr>) = good_at lb clips bz E"
  "good_at lb clips bz (E\<lparr>e_dirty := d\<rparr>) = good_at lb clips bz E"
  "good_at lb clips bz (E\<lparr>e_started := d\<rparr>) = good_at lb clips bz E"
  "good_at lb clips bz (E\<lparr>e_queue := q\<rparr>) = good_at lb clips bz E"
  "good_at lb clips bz (E\<lparr>e_queued := s\<rparr>) = good_at lb clips bz E"
  "good_at lb clips bz (E\<lparr>e_building := n\<rparr>) = good_at lb clips bz E"
  by (simp_all add: good_at_def fun_eq_iff split: option.split)

lemma busy_frame [simp]:
  "busy (E\<lparr>e_dirty := d\<rparr>) = busy E" "busy (E\<lparr>e_started := d\<rparr>) = busy E"
  "busy (E\<lparr>e_queue := q\<rparr>) = busy E" "busy (E\<lparr>e_building := n\<rparr>) = busy E"
  by (simp_all add: busy_def fun_eq_iff)

text \<open>An operation on one path.\<close>

lemma good_at_update:
  assumes "\<And>q. good_at lb clips bz E q"
    and "\<And>q. q \<noteq> p \<Longrightarrow> map_of (e_clips E') q = map_of (e_clips E) q
      \<and> clips (e_sink E') q = clips (e_sink E) q"
    and "e_opt E' = e_opt E"
    and "\<And>q k. \<lbrakk>q \<noteq> p; bz q k\<rbrakk> \<Longrightarrow> bz' q k"
    and "good_at lb clips bz' E' p"
  shows "good_at lb clips bz' E' q"
proof (cases "q = p")
  case False
  with assms(1) [of q] assms(2) [OF False] assms(3,4) show ?thesis
    by (auto simp: good_at_def split: option.splits elim!: good_state_mono)
qed (simp add: assms(5))

subsection \<open>The queue\<close>

lemma distinct_put:
  "distinct (map fst (e_clips E)) \<Longrightarrow> distinct (map fst (e_clips (put_clip p st E)))"
  by (simp add: put_clip_def AList.distinct_update)

lemma queue_ok_frame [simp]:
  "queue_ok (put_clip p st E) J = queue_ok E J" "queue_ok (sink_remove ops p E) J = queue_ok E J"
  "queue_ok (E\<lparr>e_sink := s\<rparr>) J = queue_ok E J" "queue_ok (E\<lparr>e_file := f\<rparr>) J = queue_ok E J"
  "queue_ok (E\<lparr>e_clips := cs\<rparr>) J = queue_ok E J" "queue_ok (E\<lparr>e_dirty := d\<rparr>) J = queue_ok E J"
  "queue_ok (E\<lparr>e_started := d\<rparr>) J = queue_ok E J"
  by (simp_all add: queue_ok_def)

lemma queue_ok_enqueue:
  assumes "queue_ok E J" "e_stuck E = None"
  shows "queue_ok (enqueue p E) J"
  using assms by (auto simp: queue_ok_def enqueue_def Let_def)

lemma received_simps [simp]:
  "received [] = []" "received (Received p # J) = p # received J"
  "received (Building p c i k # J) = received J"
  by (simp_all add: received_def)

lemma building_paths_simps [simp]:
  "building_paths [] = []" "building_paths (Received p # J) = building_paths J"
  "building_paths (Building p c i k # J) = p # building_paths J"
  by (simp_all add: building_paths_def)

lemma remove_received [simp]:
  "received (remove1 (Received p) J) = remove1 p (received J)"
  "building_paths (remove1 (Received p) J) = building_paths J"
proof (induction J)
  case (Cons j J)
  { case 1 from Cons.IH show ?case by (cases j) auto }
  { case 2 from Cons.IH show ?case by (cases j) auto }
qed auto

lemma remove_building [simp]:
  "received (remove1 (Building p c i k) J) = received J"
proof (induction J)
  case (Cons j J)
  then show ?case by (cases j) auto
qed auto

lemma length_remove_building:
  "Building p c i k \<in> set J \<Longrightarrow>
   length (building_paths J) = Suc (length (building_paths (remove1 (Building p c i k) J)))"
proof (induction J)
  case (Cons j J)
  then show ?case by (cases j) auto
qed simp

lemma received_mem: "Received p \<in> set J \<Longrightarrow> p \<in> set (received J)"
proof (induction J)
  case (Cons j J)
  then show ?case by (cases j) auto
qed simp

subsection \<open>Wanted and invalid clips\<close>

lemma all_less_Suc_shift: "(\<forall>j < Suc n. P j) \<longleftrightarrow> P 0 \<and> (\<forall>j < n. P (Suc j))"
  by (auto simp: less_Suc_eq_0_disj)

lemma ex_less_Suc_shift: "(\<exists>j < Suc n. P j) \<longleftrightarrow> P 0 \<or> (\<exists>j < n. P (Suc j))"
  by (auto simp: less_Suc_eq_0_disj)

lemma split_clips_want:
  assumes "split_clips vs i cs (w, v) = (want, invalid)"
  shows "(\<forall>p c. map_of want p = Some c \<longrightarrow> map_of w p = Some c
      \<or> (\<exists>j < length cs. cs ! j = c \<and> Path c = p \<and> problems_of vs (i + j) = []))
    \<and> (\<forall>j < length cs. problems_of vs (i + j) = [] \<longrightarrow> map_of want (Path (cs ! j)) \<noteq> None)
    \<and> (\<forall>p. map_of w p \<noteq> None \<longrightarrow> map_of want p \<noteq> None)"
  using assms
proof (induction cs arbitrary: i w v)
  case (Cons d cs)
  let ?ok = "problems_of vs i = []"
  let ?w = "if ?ok then AList.update (Path d) d w else w"
  have "split_clips vs (Suc i) cs
      (?w, if ?ok then v else AList.update (Path d) (problems_of vs i) v) = (want, invalid)"
    using Cons.prems by (simp split: if_splits)
  note IH = Cons.IH [OF this]
  have w: "map_of ?w p = (if ?ok \<and> p = Path d then Some d else map_of w p)" for p
    by (simp add: AList.update_conv')
  show ?case
    using IH unfolding w length_Cons all_less_Suc_shift ex_less_Suc_shift
    by (simp split: if_splits) metis
qed simp

lemma split_clips_invalid:
  assumes "split_clips vs i cs (w, v) = (want, invalid)"
  shows "(\<forall>p m. map_of invalid p = Some m \<longrightarrow> map_of v p = Some m
      \<or> (\<exists>j < length cs. Path (cs ! j) = p \<and> problems_of vs (i + j) = m \<and> m \<noteq> []))
    \<and> (\<forall>j < length cs. problems_of vs (i + j) \<noteq> [] \<longrightarrow> map_of invalid (Path (cs ! j)) \<noteq> None)
    \<and> (\<forall>p. map_of v p \<noteq> None \<longrightarrow> map_of invalid p \<noteq> None)"
  using assms
proof (induction cs arbitrary: i w v)
  case (Cons d cs)
  let ?ok = "problems_of vs i = []"
  let ?v = "if ?ok then v else AList.update (Path d) (problems_of vs i) v"
  have "split_clips vs (Suc i) cs
      (if ?ok then AList.update (Path d) d w else w, ?v) = (want, invalid)"
    using Cons.prems by (simp split: if_splits)
  note IH = Cons.IH [OF this]
  have v: "map_of ?v p = (if \<not> ?ok \<and> p = Path d then Some (problems_of vs i) else map_of v p)" for p
    by (simp add: AList.update_conv')
  show ?case
    using IH unfolding v length_Cons all_less_Suc_shift ex_less_Suc_shift
    by (simp split: if_splits) metis
qed simp

text \<open>Valid clips have different paths: the second of two equal ones has a problem.\<close>

lemma problems_of_append: "problems_of (xs @ ys) i = problems_of xs i @ problems_of ys i"
  by (simp add: problems_of_def)

lemma problems_of_index: "problems_of (map (\<lambda>p. (j, p)) ps) i = (if i = j then ps else [])"
  by (induction ps) (auto simp: problems_of_def)

lemma problems_of_later: "j < i \<Longrightarrow> problems_of (validate_from ul os mr i seen cs) j = []"
  by (induction cs arbitrary: i seen) (simp_all add: problems_of_append problems_of_index,
      simp add: problems_of_def)

lemma valid_path_new:
  assumes "problems_of (validate_from ul os mr i seen cs) (i + j) = []" "j < length cs"
  shows "seen (ToLower ul (Path (cs ! j))) = None
    \<and> (\<forall>k < j. ToLower ul (Path (cs ! k)) \<noteq> ToLower ul (Path (cs ! j)))"
  using assms
proof (induction cs arbitrary: i j seen)
  case (Cons c cs)
  let ?l = "ToLower ul (Path c)"
  show ?case
  proof (cases j)
    case 0
    with Cons.prems have "clip_problems ul os mr seen c = []"
      by (simp add: problems_of_append problems_of_index problems_of_later)
    with 0 show ?thesis by (simp add: clip_problems_def split: option.splits)
  next
    case (Suc j')
    with Cons.prems have "problems_of (validate_from ul os mr (Suc i)
        (if seen ?l = None then seen(?l \<mapsto> i) else seen) cs) (Suc i + j') = []" "j' < length cs"
      by (simp_all add: problems_of_append problems_of_index)
    from Cons.IH [OF this] Suc show ?thesis
      by (auto simp: all_less_Suc_shift split: if_splits)
  qed
qed simp

lemma valid_paths_differ:
  assumes "problems_of (Validate ul os cs mr) i = []" "problems_of (Validate ul os cs mr) j = []"
    and "i < length cs" "j < length cs" "Path (cs ! i) = Path (cs ! j)"
  shows "i = j"
  using valid_path_new [of ul os mr 0 Map.empty cs] assms
  unfolding Validate_def by (metis add_0 linorder_neqE_nat)

subsection \<open>Applying one clip\<close>

lemma Load_accepted: "Load rd um path = Inr l \<Longrightarrow> accepted l"
  by (auto simp: Load_def dest!: Finalize_accepted split: sum.splits if_splits prod.splits option.splits)

locale engine_sink = clip_sink "sk_set ops" "sk_remove ops" clips
  for ops :: "'s sink_ops" and clips :: "'s \<Rightarrow> string \<Rightarrow> shown_clip"
begin

lemma fail_clip_good:
  assumes "\<And>q. good_at lb clips (busy E J) E q"
    and "st = (case map_of (e_clips E) p of Some st \<Rightarrow> st | None \<Rightarrow> zero_state)"
  shows "good_at lb clips (busy (fail_clip ops p c st e E) J) (fail_clip ops p c st e E) q"
proof (rule good_at_update [OF assms(1), where p = p])
  let ?E = "fail_clip ops p c st e E"
  have shown: "clips (e_sink ?E) p = None"
  proof (cases "k_ready st")
    case None
    moreover have "clips (e_sink E) p = None"
      using assms(1) [of p] assms(2) None
      by (auto simp: good_at_def good_state_def zero_state_def split: option.splits)
    ultimately show ?thesis by (simp add: fail_clip_def)
  qed (simp add: fail_clip_def clips_remove)
  then show "good_at lb clips (busy ?E J) ?E p"
    by (simp add: good_at_def good_state_def fail_clip_def zero_state_def)
qed (auto simp: fail_clip_def clips_remove busy_def)

lemma keep_clip_good:
  assumes "\<And>q. good_at lb clips (busy E J) E q" "e_file E \<noteq> None" "lib_ok lb"
    and "st = (case map_of (e_clips E) p of Some st \<Rightarrow> st | None \<Rightarrow> zero_state)"
    and "clipKey lb c origin = k_key st" "s_state (k_status st) \<noteq> StateError"
  shows "good_at lb clips (busy (keep_clip lb ops p c st E) J) (keep_clip lb ops p c st E) q"
    and "e_stuck (keep_clip lb ops p c st E) = e_stuck E"
proof -
  let ?E = "keep_clip lb ops p c st E"
  have m: "map_of (e_clips E) p = Some st"
    using assms(4,5) clipKey_nonempty [OF assms(3), of c origin]
    by (auto simp: zero_state_def split: option.splits)
  obtain fl where f: "e_file E = Some fl" using assms(2) by blast
  note g = assms(1) [of p, unfolded good_at_def m option.case]
  let ?pub = "\<not> metadataEqual lb (k_clip st) c \<and> k_ready st \<noteq> None"
  show st: "e_stuck ?E = e_stuck E"
    using f by (auto simp: keep_clip_def Let_def publish_def)
  have "good_at lb clips (busy ?E J) ?E p"
  proof (cases ?pub)
    case True
    then obtain l where l: "k_ready st = Some l" by blast
    have "?E = publish lb ops p (st\<lparr>k_clip := c\<rparr>) (put_clip p (st\<lparr>k_clip := c\<rparr>) E)"
      using True by (simp add: keep_clip_def Let_def)
    then have E: "?E = (put_clip p (st\<lparr>k_clip := c\<rparr>) E)\<lparr>e_sink := sk_set ops p l (clip_nfo lb c)
        (case fl_mtime fl of Some t \<Rightarrow> t | None \<Rightarrow> l_built l) (e_sink E)\<rparr>"
      by (simp add: publish_Some f l)
    show ?thesis
      using g l assms(5,6) by (auto simp: E good_at_def good_state_def clips_set busy_def)
  next
    case False
    then have E: "?E = put_clip p (st\<lparr>k_clip := c\<rparr>) E" by (auto simp: keep_clip_def Let_def)
    have "k_ready st \<noteq> None \<Longrightarrow> clip_nfo lb (k_clip st) = clip_nfo lb c"
      using False assms(3) by (auto simp: lib_ok_def)
    with g assms(5,6) show ?thesis
      by (auto simp: E good_at_def good_state_def busy_def)
  qed
  then show "good_at lb clips (busy ?E J) ?E q"
    using f by (rule_tac good_at_update [OF assms(1), where p = p])
      (auto simp: keep_clip_def Let_def publish_def clips_set busy_def split: option.splits)
qed

text \<open>The state and the engine that \<open>renew_clip\<close> goes on with.\<close>

definition renewed :: "clip_def \<Rightarrow> string \<Rightarrow> FileID \<Rightarrow> string \<Rightarrow> clip_state \<Rightarrow> clip_state" where
  "renewed c input origin key st =
     st\<lparr>k_clip := c, k_input := input, k_key := key,
        k_ready := (case k_ready st of None \<Rightarrow> None
          | Some l \<Rightarrow> if l_origin l \<noteq> origin then None else Some l)\<rparr>"

lemma renew_clip_cases:
  fixes E :: "'s engine"
  obtains (pending) E1 where "E1 = E \<and> k_ready (renewed c input origin key st) = k_ready st
      \<or> E1 = sink_remove ops p E \<and> k_ready (renewed c input origin key st) = None"
    "renew_clip lb ops os p c input origin key st E = enqueue p (put_clip p
      ((renewed c input origin key st)\<lparr>k_status := zero_status\<lparr>s_state := StatePending\<rparr>\<rparr>) E1)"
  | (ready) E1 l where "E1 = E \<or> E1 = sink_remove ops p E"
    "Load (read_text lb os) (lb_unmarshal lb) (indexPath (e_opt E) key) = Inr l" "dataValid lb os l"
    "renew_clip lb ops os p c input origin key st E =
      publish lb ops p ((renewed c input origin key st)\<lparr>k_ready := Some l, k_status := statusOf (e_opt E) l\<rparr>)
        (put_clip p ((renewed c input origin key st)\<lparr>k_ready := Some l, k_status := statusOf (e_opt E) l\<rparr>) E1)"
proof -
  let ?replaced = "case k_ready st of None \<Rightarrow> False | Some l \<Rightarrow> l_origin l \<noteq> origin"
  let ?E1 = "if ?replaced then sink_remove ops p E else E"
  have r: "renewed c input origin key st = st\<lparr>k_clip := c, k_input := input, k_key := key,
      k_ready := (if ?replaced then None else k_ready st)\<rparr>"
    by (simp add: renewed_def split: option.split)
  have E1: "?E1 = E \<and> k_ready (renewed c input origin key st) = k_ready st
      \<or> ?E1 = sink_remove ops p E \<and> k_ready (renewed c input origin key st) = None"
    by (simp add: r)
  show thesis
  proof (cases "Load (read_text lb os) (lb_unmarshal lb) (indexPath (e_opt E) key)")
    case (Inl e)
    then show ?thesis by (intro pending [OF E1]) (simp only: renew_clip_def Let_def sum.case r)
  next
    case (Inr l)
    show ?thesis
    proof (cases "dataValid lb os l")
      case True
      have "?E1 = E \<or> ?E1 = sink_remove ops p E" using E1 by blast
      from ready [OF this Inr True] True show ?thesis
        by (simp only: renew_clip_def Let_def Inr sum.case if_True r)
    next
      case False
      then show ?thesis
        by (intro pending [OF E1]) (simp only: renew_clip_def Let_def Inr sum.case if_False r)
    qed
  qed
qed

lemma renew_clip_good:
  assumes "\<And>q. good_at lb clips (busy E J) E q" "e_file E \<noteq> None" "index_law lb (e_opt E) os"
    and "st = (case map_of (e_clips E) p of Some st \<Rightarrow> st | None \<Rightarrow> zero_state)"
    and "key = clipKey lb c origin"
  shows "good_at lb clips (busy (renew_clip lb ops os p c input origin key st E) J)
    (renew_clip lb ops os p c input origin key st E) q" (is "good_at lb clips (busy ?E J) ?E q")
proof -
  obtain fl where f: "e_file E = Some fl" using assms(2) by blast
  have g: "map_option fst (clips (e_sink E) p) = k_ready st \<and> (\<forall>l. k_ready st = Some l \<longrightarrow> accepted l)"
    using assms(1) [of p] assms(4)
    by (auto simp: good_at_def good_state_def zero_state_def split: option.splits)
  have r: "k_clip (renewed c input origin key st) = c" "k_key (renewed c input origin key st) = key"
    by (simp_all add: renewed_def)
  show ?thesis
  proof (cases rule: renew_clip_cases [where c = c and input = input and origin = origin and key = key
        and st = st and E = E and p = p and lb = lb and os = os])
    case (pending E1)
    have "good_at lb clips (busy ?E J) ?E p"
      using g pending(1) assms(5) [symmetric] unfolding pending(2)
      by (auto simp: good_at_def good_state_def busy_def clips_remove r)
    then show ?thesis
      using pending(1) by (rule_tac good_at_update [OF assms(1), where p = p])
        (auto simp: pending(2) clips_remove busy_def)
  next
    case (ready E1 l)
    let ?st3 = "(renewed c input origin key st)\<lparr>k_ready := Some l, k_status := statusOf (e_opt E) l\<rparr>"
    have f1: "e_file E1 = Some fl" "e_opt E1 = e_opt E" using ready(1) f by auto
    have E: "?E = (put_clip p ?st3 E1)\<lparr>e_sink := sk_set ops p l (clip_nfo lb c)
        (case fl_mtime fl of Some t \<Rightarrow> t | None \<Rightarrow> l_built l) (e_sink E1)\<rparr>"
      unfolding ready(4) by (subst publish_Some [where fl = fl and l = l]) (simp_all add: f1 r)
    have "accepted l" "built_for lb key l"
      using Load_accepted [OF ready(2)] assms(3) ready(2) by (auto simp: index_law_def)
    then have "good_at lb clips (busy ?E J) ?E p"
      using assms(5) [symmetric] unfolding E
      by (auto simp: good_at_def good_state_def clips_set r f1)
    then show ?thesis
      using ready(1) unfolding E by (rule_tac good_at_update [OF assms(1), where p = p])
        (auto simp: clips_set clips_remove busy_def)
  qed
qed

lemma applyClip_cases:
  fixes E :: "'s engine" and p :: string
  defines "st \<equiv> (case map_of (e_clips E) p of Some st \<Rightarrow> st | None \<Rightarrow> zero_state)"
  obtains (failed) e where "applyClip lb ops os p c E = fail_clip ops p c st e E"
  | (kept) origin where "applyClip lb ops os p c E = keep_clip lb ops p c st E"
      "clipKey lb c origin = k_key st" "s_state (k_status st) \<noteq> StateError"
  | (renewed) input origin key where "applyClip lb ops os p c E = renew_clip lb ops os p c input origin key st E"
      "key = clipKey lb c origin"
proof (cases "ResolveInput (lb_ul lb) os (o_MediaRoot (e_opt E)) (c_input c)")
  case (Inl e)
  then show ?thesis by (intro failed) (simp add: applyClip_def st_def)
next
  case (Inr input)
  show ?thesis
  proof (cases "Stat (stat_text lb os) input")
    case (Inl e)
    with Inr show ?thesis by (intro failed) (simp add: applyClip_def st_def)
  next
    case (Inr origin)
    let ?same = "k_key st = clipKey lb c origin \<and> s_state (k_status st) \<noteq> StateError
      \<and> (case k_ready st of None \<Rightarrow> True | Some l \<Rightarrow> dataValid lb os l)"
    show ?thesis
    proof (cases ?same)
      case True
      then show ?thesis
        using \<open>ResolveInput _ _ _ _ = Inr input\<close> Inr
        by (intro kept [of origin]) (simp_all add: applyClip_def Let_def st_def)
    next
      case False
      then show ?thesis
        using \<open>ResolveInput _ _ _ _ = Inr input\<close> Inr
        by (intro renewed [of input origin "clipKey lb c origin"])
          (simp_all only: applyClip_def Let_def st_def [symmetric] sum.case if_False)
    qed
  qed
qed

lemma applyClip_good:
  assumes "\<And>q. good_at lb clips (busy E J) E q" "e_file E \<noteq> None" "lib_ok lb"
    and "index_law lb (e_opt E) os"
  shows "good_at lb clips (busy (applyClip lb ops os p c E) J) (applyClip lb ops os p c E) q"
proof -
  let ?st = "case map_of (e_clips E) p of Some st \<Rightarrow> st | None \<Rightarrow> zero_state"
  show ?thesis
  proof (cases rule: applyClip_cases [where E = E and p = p and lb = lb and os = os and c = c])
    case (failed e)
    with fail_clip_good [OF assms(1) refl] show ?thesis by simp
  next
    case (kept origin)
    with keep_clip_good(1) [OF assms(1-3) refl] show ?thesis by simp
  next
    case (renewed input origin key)
    with renew_clip_good [OF assms(1,2,4) refl] show ?thesis by simp
  qed
qed

lemma applyClip_frame:
  assumes "e_stuck E = None" "e_file E = Some fl" "queue_ok E J" "distinct (map fst (e_clips E))"
  shows "queue_ok (applyClip lb ops os p c E) J
    \<and> distinct (map fst (e_clips (applyClip lb ops os p c E)))
    \<and> e_file (applyClip lb ops os p c E) = Some fl
    \<and> e_opt (applyClip lb ops os p c E) = e_opt E"
proof -
  let ?st = "case map_of (e_clips E) p of Some st \<Rightarrow> st | None \<Rightarrow> zero_state"
  show ?thesis
  proof (cases rule: applyClip_cases [where E = E and p = p and lb = lb and os = os and c = c])
    case (failed e)
    with assms show ?thesis by (simp add: fail_clip_def distinct_put)
  next
    case (kept origin)
    with assms show ?thesis
      by (simp add: keep_clip_def Let_def publish_def distinct_put split: option.split)
  next
    case (renewed input origin key)
    let ?r = "renewed c input origin key ?st"
    show ?thesis
    proof (cases rule: renew_clip_cases [where c = c and input = input and origin = origin
          and key = key and st = ?st and E = E and p = p and lb = lb and os = os])
      case (pending E1)
      with assms renewed(1) show ?thesis by (auto simp: distinct_put intro!: queue_ok_enqueue)
    next
      case (ready E1 l)
      with assms renewed(1) show ?thesis by (auto simp: distinct_put publish_def)
    qed
  qed
qed

subsection \<open>Applying a file\<close>

text \<open>After the loops over \<open>e.clips\<close> and \<open>invalid\<close>, the paths that are not wanted are not shown,
  and only the invalid ones are known.\<close>

lemma drop_clip_other:
  assumes "q \<noteq> p"
  shows "map_of (e_clips (drop_clip ops want invalid q E)) p = map_of (e_clips E) p"
    and "clips (e_sink (drop_clip ops want invalid q E)) p = clips (e_sink E) p"
  using assms
  by (auto simp: drop_clip_def Let_def clips_remove AList.delete_conv' split: option.splits)

lemma drop_clip_wanted:
  assumes "map_of want p \<noteq> None"
  shows "map_of (e_clips (drop_clip ops want invalid q E)) p = map_of (e_clips E) p"
    and "clips (e_sink (drop_clip ops want invalid q E)) p = clips (e_sink E) p"
  using assms drop_clip_other [of q p]
  by (cases "q = p"; auto simp: drop_clip_def split: option.splits)+

lemma drop_clip_frame:
  "e_opt (drop_clip ops want invalid p E) = e_opt E"
  "e_file (drop_clip ops want invalid p E) = e_file E"
  "queue_ok (drop_clip ops want invalid p E) J = queue_ok E J"
  "e_stuck (drop_clip ops want invalid p E) = e_stuck E"
  "e_queued (drop_clip ops want invalid p E) = e_queued E"
  "distinct (map fst (e_clips E)) \<Longrightarrow> distinct (map fst (e_clips (drop_clip ops want invalid p E)))"
  by (auto simp: drop_clip_def Let_def AList.distinct_delete split: option.splits)

definition hidden :: "(string \<times> problem list) list \<Rightarrow> 's engine \<Rightarrow> string \<Rightarrow> bool" where
  "hidden invalid E p \<longleftrightarrow>
     clips (e_sink E) p = None \<and> (map_of invalid p = None \<longrightarrow> map_of (e_clips E) p = None)"

lemma drop_clip_hides:
  assumes "map_of want p = None"
    and "clips (e_sink E) p \<noteq> None \<Longrightarrow> \<exists>st. map_of (e_clips E) p = Some st \<and> k_ready st \<noteq> None"
  shows "hidden invalid (drop_clip ops want invalid p E) p"
  using assms
  by (cases "clips (e_sink E) p"; auto simp: hidden_def drop_clip_def Let_def clips_remove AList.delete_conv' split: option.splits)

lemma drops_hide:
  assumes "map_of want p = None"
    and "clips (e_sink E) p \<noteq> None \<Longrightarrow> \<exists>st. map_of (e_clips E) p = Some st \<and> k_ready st \<noteq> None"
    and "p \<in> set ps \<or> hidden invalid E p"
  shows "hidden invalid (foldl (\<lambda>E p. drop_clip ops want invalid p E) E ps) p"
  using assms(2,3)
proof (induction ps arbitrary: E)
  case (Cons q ps)
  let ?E = "drop_clip ops want invalid q E"
  have "hidden invalid ?E p" if "q = p \<or> hidden invalid E p"
    using that drop_clip_hides [OF assms(1) Cons.prems(1)] drop_clip_other [of q p want invalid E]
    by (cases "q = p") (auto simp: hidden_def)
  moreover have "\<exists>st. map_of (e_clips ?E) p = Some st \<and> k_ready st \<noteq> None"
    if "clips (e_sink ?E) p \<noteq> None"
    using that Cons.prems(1) drop_clip_other [of q p want invalid E]
      drop_clip_hides [OF assms(1) Cons.prems(1)]
    by (cases "q = p") (auto simp: hidden_def)
  ultimately show ?case using Cons.prems(2) Cons.IH [of ?E] by auto
qed simp

lemma drops_frame:
  fixes E :: "'s engine" and ps :: "string list" and want :: "(string \<times> clip_def) list"
    and invalid :: "(string \<times> problem list) list"
  defines "E' \<equiv> foldl (\<lambda>E p. drop_clip ops want invalid p E) E ps"
  shows "e_opt E' = e_opt E" "e_file E' = e_file E" "queue_ok E' J = queue_ok E J"
    "e_stuck E' = e_stuck E" "e_queued E' = e_queued E"
    "distinct (map fst (e_clips E)) \<Longrightarrow> distinct (map fst (e_clips E'))"
    "map_of want p \<noteq> None \<Longrightarrow> map_of (e_clips E') p = map_of (e_clips E) p"
    "map_of want p \<noteq> None \<Longrightarrow> clips (e_sink E') p = clips (e_sink E) p"
  unfolding E'_def
  by (induction ps arbitrary: E) (simp_all add: drop_clip_frame drop_clip_wanted)

lemma invalids_frame:
  fixes E :: "'s engine" and ps :: "string list" and want :: "(string \<times> clip_def) list"
    and invalid :: "(string \<times> problem list) list"
  defines "E' \<equiv> foldl (\<lambda>E p. invalid_clip want invalid p E) E ps"
  shows "e_opt E' = e_opt E" "e_file E' = e_file E" "queue_ok E' J = queue_ok E J"
    "e_stuck E' = e_stuck E" "e_queued E' = e_queued E" "e_sink E' = e_sink E"
    "distinct (map fst (e_clips E)) \<Longrightarrow> distinct (map fst (e_clips E'))"
    "map_of (e_clips E') p =
       (case map_of invalid p of
          Some msgs \<Rightarrow> if map_of want p = None \<and> p \<in> set ps
            then Some (zero_state\<lparr>k_status := error_status (ErrInvalid msgs)\<rparr>)
            else map_of (e_clips E) p
        | None \<Rightarrow> map_of (e_clips E) p)"
  unfolding E'_def
  by (induction ps arbitrary: E)
    (auto simp: invalid_clip_def distinct_put split: option.split)

text \<open>The engine between the second and the third loop.\<close>

definition cleared ::
  "(string \<times> clip_def) list \<Rightarrow> (string \<times> problem list) list \<Rightarrow> 's engine \<Rightarrow> 's engine \<Rightarrow> bool" where
  "cleared want invalid E E' \<longleftrightarrow>
     (\<forall>p. if map_of want p = None
        then clips (e_sink E') p = None \<and> map_of (e_clips E') p =
          map_option (\<lambda>msgs. zero_state\<lparr>k_status := error_status (ErrInvalid msgs)\<rparr>) (map_of invalid p)
        else clips (e_sink E') p = clips (e_sink E) p
          \<and> map_of (e_clips E') p = map_of (e_clips E) p)"

lemma cleared_loops:
  assumes "\<And>q. good_at lb clips bz E q"
    and "set ps = fst ` set (e_clips E)" "set is = fst ` set invalid"
  shows "cleared want invalid E
    (foldl (\<lambda>E p. invalid_clip want invalid p E)
      (foldl (\<lambda>E p. drop_clip ops want invalid p E) E ps) is)"
  unfolding cleared_def
proof (intro allI)
  fix p
  let ?E1 = "foldl (\<lambda>E p. drop_clip ops want invalid p E) E ps"
  let ?E2 = "foldl (\<lambda>E p. invalid_clip want invalid p E) ?E1 is"
  have i: "map_of invalid p \<noteq> None \<longleftrightarrow> p \<in> set is"
    using assms(3) by (simp add: map_of_eq_None_iff)
  show "if map_of want p = None
        then clips (e_sink ?E2) p = None \<and> map_of (e_clips ?E2) p =
          map_option (\<lambda>msgs. zero_state\<lparr>k_status := error_status (ErrInvalid msgs)\<rparr>) (map_of invalid p)
        else clips (e_sink ?E2) p = clips (e_sink E) p
          \<and> map_of (e_clips ?E2) p = map_of (e_clips E) p"
  proof (cases "map_of want p")
    case None
    have ready: "\<exists>st. map_of (e_clips E) p = Some st \<and> k_ready st \<noteq> None"
      if "clips (e_sink E) p \<noteq> None"
      using assms(1) [of p] that
      by (auto simp: good_at_def good_state_def split: option.splits dest: sym)
    have "p \<in> set ps \<or> hidden invalid E p"
    proof (cases "map_of (e_clips E) p")
      case None
      with ready show ?thesis by (auto simp: hidden_def)
    next
      case (Some st)
      then show ?thesis using assms(2) by (metis map_of_eq_None_iff option.distinct(1))
    qed
    from drops_hide [OF None ready this] have "hidden invalid ?E1 p" .
    with None i show ?thesis by (auto simp: hidden_def invalids_frame split: option.split)
  next
    case (Some c)
    then show ?thesis by (simp add: invalids_frame drops_frame split: option.split)
  qed
qed

lemma publish_other:
  "q \<noteq> p \<Longrightarrow> clips (e_sink (publish lb ops q st E)) p = clips (e_sink E) p"
  by (simp add: publish_def clips_set split: option.split)

lemma applyClip_other:
  assumes "q \<noteq> p"
  shows "map_of (e_clips (applyClip lb ops os q c E)) p = map_of (e_clips E) p
    \<and> clips (e_sink (applyClip lb ops os q c E)) p = clips (e_sink E) p"
proof (cases rule: applyClip_cases [where E = E and p = q and lb = lb and os = os and c = c])
  case (renewed input origin key)
  let ?st = "case map_of (e_clips E) q of Some st \<Rightarrow> st | None \<Rightarrow> zero_state"
  show ?thesis
    using assms renewed(1)
    by (cases rule: renew_clip_cases [where c = c and input = input and origin = origin
          and key = key and st = ?st and E = E and p = q and lb = lb and os = os])
      (auto simp: clips_remove publish_other)
qed (use assms in \<open>simp_all add: fail_clip_def keep_clip_def Let_def clips_remove publish_other\<close>)

lemma applyClip_clip:
  "\<exists>st. map_of (e_clips (applyClip lb ops os p c E)) p = Some st \<and> k_clip st = c"
proof (cases rule: applyClip_cases [where E = E and p = p and lb = lb and os = os and c = c])
  case (renewed input origin key)
  let ?st = "case map_of (e_clips E) p of Some st \<Rightarrow> st | None \<Rightarrow> zero_state"
  show ?thesis
    using renewed(1)
    by (cases rule: renew_clip_cases [where c = c and input = input and origin = origin
          and key = key and st = ?st and E = E and p = p and lb = lb and os = os])
      (auto simp: renewed_def)
qed (simp_all add: fail_clip_def keep_clip_def Let_def)

lemma want_clip_simps:
  "map_of want q = None \<Longrightarrow> want_clip lb ops os_at want q E = E"
  "e_stuck E \<noteq> None \<Longrightarrow> want_clip lb ops os_at want q E = E"
  "\<lbrakk>map_of want q = Some c; e_stuck E = None\<rbrakk>
    \<Longrightarrow> want_clip lb ops os_at want q E = applyClip lb ops (os_at q) q c E"
  by (simp_all add: want_clip_def split: option.split)

lemma want_loop_inv:
  assumes "lib_ok lb" "\<And>p. index_law lb (e_opt E) (os_at p)"
    and "\<And>q. good_at lb clips (busy E J) E q" "queue_ok E J"
    and "distinct (map fst (e_clips E))" "e_file E = Some fl"
  shows "(\<forall>q. good_at lb clips (busy (foldl (\<lambda>E p. want_clip lb ops os_at want p E) E ps) J)
        (foldl (\<lambda>E p. want_clip lb ops os_at want p E) E ps) q)
    \<and> queue_ok (foldl (\<lambda>E p. want_clip lb ops os_at want p E) E ps) J
    \<and> distinct (map fst (e_clips (foldl (\<lambda>E p. want_clip lb ops os_at want p E) E ps)))
    \<and> e_file (foldl (\<lambda>E p. want_clip lb ops os_at want p E) E ps) = Some fl
    \<and> e_opt (foldl (\<lambda>E p. want_clip lb ops os_at want p E) E ps) = e_opt E"
  using assms(2-)
proof (induction ps arbitrary: E)
  case (Cons p ps)
  let ?E = "want_clip lb ops os_at want p E"
  have "(\<forall>q. good_at lb clips (busy ?E J) ?E q) \<and> queue_ok ?E J \<and> distinct (map fst (e_clips ?E))
    \<and> e_file ?E = Some fl \<and> e_opt ?E = e_opt E"
  proof (cases "map_of want p = None \<or> e_stuck E \<noteq> None")
    case True
    then have "?E = E" by (metis want_clip_simps(1,2))
    with Cons.prems show ?thesis by simp
  next
    case False
    then obtain c where "?E = applyClip lb ops (os_at p) p c E" and s: "e_stuck E = None"
      by (auto simp: want_clip_simps(3))
    then show ?thesis
      using applyClip_good [OF Cons.prems(2) _ assms(1) Cons.prems(1), of p p c]
        applyClip_frame [OF s Cons.prems(5,3,4), of lb "os_at p" p c] Cons.prems(5) by simp
  qed
  with Cons.IH [of ?E] Cons.prems(1) show ?case by simp
qed auto

lemma want_loop_other:
  assumes "map_of want p = None"
  shows "map_of (e_clips (foldl (\<lambda>E p. want_clip lb ops os_at want p E) E ps)) p = map_of (e_clips E) p
    \<and> clips (e_sink (foldl (\<lambda>E p. want_clip lb ops os_at want p E) E ps)) p = clips (e_sink E) p"
proof (induction ps arbitrary: E)
  case (Cons q ps)
  let ?E = "want_clip lb ops os_at want q E"
  have "map_of (e_clips ?E) p = map_of (e_clips E) p \<and> clips (e_sink ?E) p = clips (e_sink E) p"
  proof (cases "map_of want q = None \<or> e_stuck E \<noteq> None")
    case True
    then have "?E = E" by (metis want_clip_simps(1,2))
    then show ?thesis by simp
  next
    case False
    then obtain c where "?E = applyClip lb ops (os_at q) q c E" by (auto simp: want_clip_simps(3))
    moreover have "q \<noteq> p" using False assms by auto
    ultimately show ?thesis by (simp add: applyClip_other)
  qed
  with Cons.IH [of ?E] show ?case by simp
qed simp

lemma want_loop_stuck:
  "e_stuck E \<noteq> None \<Longrightarrow> foldl (\<lambda>E p. want_clip lb ops os_at want p E) E ps = E"
  by (induction ps) (simp_all add: want_clip_simps(2))

lemma want_loop_clip:
  assumes "e_stuck (foldl (\<lambda>E p. want_clip lb ops os_at want p E) E ps) = None"
    and "map_of want p = Some c"
    and "p \<in> set ps \<or> (\<exists>st. map_of (e_clips E) p = Some st \<and> k_clip st = c)"
  shows "\<exists>st. map_of (e_clips (foldl (\<lambda>E p. want_clip lb ops os_at want p E) E ps)) p = Some st
    \<and> k_clip st = c"
  using assms(1,3)
proof (induction ps arbitrary: E)
  case (Cons q ps)
  let ?E = "want_clip lb ops os_at want q E"
  have s: "e_stuck E = None"
    using Cons.prems(1) want_loop_stuck [of E] want_clip_simps(2) [of E] by (cases "e_stuck E") auto
  have "\<exists>st. map_of (e_clips ?E) p = Some st \<and> k_clip st = c"
    if "p = q \<or> (\<exists>st. map_of (e_clips E) p = Some st \<and> k_clip st = c)"
  proof (cases "map_of want q")
    case None
    with that assms(2) show ?thesis by (auto simp: want_clip_simps(1))
  next
    case (Some d)
    then have e: "?E = applyClip lb ops (os_at q) q d E" using s by (simp add: want_clip_simps(3))
    show ?thesis
      using that applyClip_clip [of lb "os_at q" q d E] applyClip_other [of q p lb "os_at q" d E]
        Some assms(2) unfolding e by (cases "p = q") auto
  qed
  with Cons.IH [of ?E] Cons.prems show ?case by auto
qed simp

lemma Apply_parts:
  assumes "split_clips (Validate (lb_ul lb) os (fl_clips fl) (o_MediaRoot (e_opt E))) 0 (fl_clips fl) ([], [])
      = (want, invalid)"
    and "is_order ord" "\<And>q. good_at lb clips bz E q"
  obtains E2 where "cleared want invalid E E2" "e_opt E2 = e_opt E" "e_file E2 = Some fl"
    "\<And>J. queue_ok E2 J = queue_ok E J" "e_stuck E2 = e_stuck E" "e_queued E2 = e_queued E"
    "distinct (map fst (e_clips E)) \<Longrightarrow> distinct (map fst (e_clips E2))"
    "Apply lb ops os os_at ord fl E =
      (let E3 = foldl (\<lambda>E p. want_clip lb ops os_at want p E) E2 (ord 2 (map fst want))
       in if e_stuck E3 \<noteq> None then E3 else E3\<lparr>e_dirty := True\<rparr>)"
    "set (ord 2 (map fst want)) = fst ` set want"
proof -
  let ?E0 = "E\<lparr>e_file := Some fl\<rparr>"
  let ?E1 = "foldl (\<lambda>E p. drop_clip ops want invalid p E) ?E0 (ord 0 (map fst (e_clips E)))"
  let ?E2 = "foldl (\<lambda>E p. invalid_clip want invalid p E) ?E1 (ord 1 (map fst invalid))"
  have set: "set (ord n xs) = set xs" for n xs
    using assms(2) by (metis is_order_def set_mset_mset)
  have "cleared want invalid ?E0 ?E2"
    using assms(3) by (intro cleared_loops [where lb = lb and bz = bz]) (simp_all add: set)
  then have "cleared want invalid E ?E2" by (simp add: cleared_def)
  then show ?thesis
    using assms(1)
    by (intro that [of ?E2]) (simp_all add: invalids_frame drops_frame Apply_def set Let_def)
qed

lemma cleared_good:
  assumes "\<And>q. good_at lb clips (busy E J) E q" "cleared want invalid E E2"
    and "e_opt E2 = e_opt E" "e_queued E2 = e_queued E"
  shows "good_at lb clips (busy E2 J) E2 q"
proof -
  have b: "busy E2 J = busy E J" using assms(4) by (simp add: busy_def fun_eq_iff)
  show ?thesis
  proof (cases "map_of want q")
    case None
    with assms(2) [unfolded cleared_def, rule_format, of q] show ?thesis
      by (cases "map_of invalid q") (simp_all add: good_at_def good_state_def zero_state_def)
  next
    case (Some c)
    with assms(2) [unfolded cleared_def, rule_format, of q] assms(1) [of q] assms(3) show ?thesis
      by (simp add: good_at_def b split: option.splits)
  qed
qed

lemma Apply_inv:
  assumes "engine_inv lb clips E J" "lib_ok lb" "\<And>p. index_law lb (e_opt E) (os_at p)"
    and "is_order ord"
  shows "engine_inv lb clips (Apply lb ops os os_at ord fl E) J
    \<and> e_opt (Apply lb ops os os_at ord fl E) = e_opt E"
proof -
  obtain want invalid where s: "split_clips (Validate (lb_ul lb) os (fl_clips fl)
      (o_MediaRoot (e_opt E))) 0 (fl_clips fl) ([], []) = (want, invalid)" by fastforce
  note inv = assms(1) [unfolded engine_inv_def]
  have g: "good_at lb clips (busy E J) E q" for q using inv by blast
  obtain E2 where E2: "cleared want invalid E E2" "e_opt E2 = e_opt E" "e_file E2 = Some fl"
    "queue_ok E2 J = queue_ok E J" "e_queued E2 = e_queued E" "distinct (map fst (e_clips E2))"
    "Apply lb ops os os_at ord fl E =
      (let E3 = foldl (\<lambda>E p. want_clip lb ops os_at want p E) E2 (ord 2 (map fst want))
       in if e_stuck E3 \<noteq> None then E3 else E3\<lparr>e_dirty := True\<rparr>)"
    by (rule Apply_parts [OF s assms(4) g, where os_at = os_at]) (use inv in blast)
  let ?E3 = "foldl (\<lambda>E p. want_clip lb ops os_at want p E) E2 (ord 2 (map fst want))"
  have "index_law lb (e_opt E2) (os_at p)" for p using assms(3) E2(2) by simp
  note w = want_loop_inv [OF assms(2) this cleared_good [OF g E2(1,2,5)] _ E2(6,3),
      where want = want and ps = "ord 2 (map fst want)"]
  have w': "engine_inv lb clips ?E3 J \<and> e_opt ?E3 = e_opt E"
    using w inv E2(2,4) by (simp add: engine_inv_def)
  have "engine_inv lb clips (?E3\<lparr>e_dirty := True\<rparr>) J"
    using w' by (simp add: engine_inv_def)
  with w' show ?thesis by (simp add: E2(7) Let_def)
qed

text \<open>What the engine knows after \<open>Apply\<close>.\<close>

lemma Apply_result:
  assumes "engine_inv lb clips E J" "is_order ord"
    and "split_clips (Validate (lb_ul lb) os (fl_clips fl) (o_MediaRoot (e_opt E))) 0 (fl_clips fl) ([], [])
      = (want, invalid)"
    and "e_stuck (Apply lb ops os os_at ord fl E) = None"
  shows "case map_of want p of
      Some c \<Rightarrow> \<exists>st. map_of (e_clips (Apply lb ops os os_at ord fl E)) p = Some st \<and> k_clip st = c
    | None \<Rightarrow> clips (e_sink (Apply lb ops os os_at ord fl E)) p = None
        \<and> map_of (e_clips (Apply lb ops os os_at ord fl E)) p =
          map_option (\<lambda>msgs. zero_state\<lparr>k_status := error_status (ErrInvalid msgs)\<rparr>) (map_of invalid p)"
proof -
  have g: "good_at lb clips (busy E J) E q" for q using assms(1) by (simp add: engine_inv_def)
  obtain E2 where E2: "cleared want invalid E E2"
    "Apply lb ops os os_at ord fl E =
      (let E3 = foldl (\<lambda>E p. want_clip lb ops os_at want p E) E2 (ord 2 (map fst want))
       in if e_stuck E3 \<noteq> None then E3 else E3\<lparr>e_dirty := True\<rparr>)"
    "set (ord 2 (map fst want)) = fst ` set want"
    by (rule Apply_parts [OF assms(3,2) g, where os_at = os_at]) blast
  let ?E3 = "foldl (\<lambda>E p. want_clip lb ops os_at want p E) E2 (ord 2 (map fst want))"
  have s: "e_stuck ?E3 = None" and A: "Apply lb ops os os_at ord fl E = ?E3\<lparr>e_dirty := True\<rparr>"
    using assms(4) unfolding E2(2) Let_def by (auto split: if_splits)
  show ?thesis
  proof (cases "map_of want p")
    case None
    with want_loop_other [OF None, where lb = lb and os_at = os_at and ps = "ord 2 (map fst want)"
          and E = E2]
      E2(1) [unfolded cleared_def, rule_format, of p] show ?thesis by (simp add: A)
  next
    case (Some c)
    then have "p \<in> set (ord 2 (map fst want))"
      unfolding E2(3) by (metis map_of_SomeD fst_conv image_eqI)
    with want_loop_clip [OF s Some] Some show ?thesis by (simp add: A)
  qed
qed

subsection \<open>The workers' steps\<close>

lemma receive_inv:
  assumes "engine_inv lb clips E J" "e_stuck E = None" "receive E = Some (p, E')"
  shows "engine_inv lb clips E' (Received p # J)" "e_opt E' = e_opt E"
proof -
  obtain q where q: "e_queue E = p # q" "E' = E\<lparr>e_queue := q\<rparr>"
    using assms(3) by (auto simp: receive_def split: list.splits)
  have "busy E' (Received p # J) = busy E J" by (simp add: q busy_def fun_eq_iff)
  moreover have "queue_ok E' (Received p # J)"
    using assms(1,2) by (auto simp: engine_inv_def queue_ok_def q)
  ultimately show "engine_inv lb clips E' (Received p # J)" "e_opt E' = e_opt E"
    using assms(1) by (simp_all add: engine_inv_def q)
qed

lemma begin_inv:
  assumes "engine_inv lb clips E J" "e_stuck E = None" "Received p \<in> set J"
    and "begin_build p E = (E', r)"
  shows "case r of None \<Rightarrow> engine_inv lb clips E' (remove1 (Received p) J)
      | Some (c, i, k) \<Rightarrow> engine_inv lb clips E' (Building p c i k # remove1 (Received p) J)"
    and "e_opt E' = e_opt E"
proof -
  let ?E1 = "E\<lparr>e_queued := e_queued E - {p}\<rparr>" and ?J1 = "remove1 (Received p) J"
  have inv: "\<And>q. good_at lb clips (busy E J) E q" "queue_ok E J" "distinct (map fst (e_clips E))"
    "e_clips E \<noteq> [] \<longrightarrow> e_file E \<noteq> None"
    using assms(1) by (simp_all add: engine_inv_def)
  have q1: "queue_ok ?E1 ?J1"
    using inv(2) assms(2) received_mem [OF assms(3)]
    by (auto simp: queue_ok_def distinct_remove1 in_set_remove1 dest: in_set_remove1)
  have other: "good_at lb clips (busy ?E1 J') ?E1 q" if "q \<noteq> p" "set ?J1 \<subseteq> set J'" for q J'
  proof -
    have "Building q c i k \<in> set J \<Longrightarrow> Building q c i k \<in> set ?J1" for c i k
      by (simp add: in_set_remove1)
    then have "busy E J q k \<Longrightarrow> busy ?E1 J' q k" for k
      using that unfolding busy_def by fastforce
    with inv(1) [of q] show ?thesis
      by (auto simp: good_at_def split: option.splits elim!: good_state_mono)
  qed
  show "e_opt E' = e_opt E"
    using assms(4) by (auto simp: begin_build_def Let_def split: option.splits)
  show "case r of None \<Rightarrow> engine_inv lb clips E' ?J1
      | Some (c, i, k) \<Rightarrow> engine_inv lb clips E' (Building p c i k # ?J1)"
  proof (cases "map_of (e_clips E) p")
    case None
    then have E': "E' = ?E1" "r = None" using assms(4) by (auto simp: begin_build_def)
    have "good_at lb clips (busy ?E1 ?J1) ?E1 q" for q
      using other [of q ?J1] inv(1) [of q] None by (cases "q = p") (auto simp: good_at_def)
    with q1 inv show ?thesis by (simp add: E' engine_inv_def)
  next
    case (Some st)
    then have E': "E' = ?E1\<lparr>e_building := e_building E + 1\<rparr>"
      "r = Some (k_clip st, k_input st, k_key st)"
      using assms(4) by (auto simp: begin_build_def)
    let ?J' = "Building p (k_clip st) (k_input st) (k_key st) # ?J1"
    have "good_at lb clips (busy ?E1 ?J') ?E1 q" for q
    proof (cases "q = p")
      case True
      have "busy ?E1 ?J' p (k_key st)" unfolding busy_def by force
      with True inv(1) [of p] Some show ?thesis
        by (auto simp: good_at_def elim: good_state_mono)
    qed (rule other; auto)
    then have "\<forall>q. good_at lb clips (busy E' ?J') E' q" by (simp add: E')
    with q1 inv(2-4) show ?thesis by (simp add: E' engine_inv_def) (simp add: queue_ok_def)
  qed
qed

lemma finish_inv:
  assumes "engine_inv lb clips E J" "e_stuck E = None" "Building p c i k \<in> set J"
    and "lib_ok lb" "\<And>l. res = Inr l \<Longrightarrow> accepted l \<and> built_for lb k l"
  shows "engine_inv lb clips (finish_build lb ops p k res E) (remove1 (Building p c i k) J)"
    and "e_opt (finish_build lb ops p k res E) = e_opt E"
proof -
  let ?E1 = "E\<lparr>e_building := e_building E - 1, e_dirty := True\<rparr>"
    and ?J1 = "remove1 (Building p c i k) J" and ?E = "finish_build lb ops p k res E"
  have inv: "\<And>q. good_at lb clips (busy E J) E q" "queue_ok E J" "distinct (map fst (e_clips E))"
    "e_clips E \<noteq> [] \<longrightarrow> e_file E \<noteq> None"
    using assms(1) by (simp_all add: engine_inv_def)
  have q1: "queue_ok ?E1 ?J1"
    using inv(2) length_remove_building [OF assms(3)] by (simp add: queue_ok_def)
  have bz: "busy ?E1 ?J1 q k'" if "busy E J q k'" "q \<noteq> p \<or> k' \<noteq> k" for q k'
    using that by (auto simp: busy_def in_set_remove1)
  have rest: "queue_ok ?E ?J1 \<and> distinct (map fst (e_clips ?E))
      \<and> (e_clips ?E \<noteq> [] \<longrightarrow> e_file ?E \<noteq> None) \<and> e_opt ?E = e_opt E
      \<and> (\<forall>q. good_at lb clips (busy ?E ?J1) ?E q)"
  proof (cases "\<exists>st. map_of (e_clips E) p = Some st \<and> k_key st = k")
    case False
    then have "?E = ?E1" by (auto simp: finish_build_def Let_def split: option.split)
    moreover have "good_at lb clips (busy ?E1 ?J1) ?E1 q" for q
      using inv(1) [of q] bz [of q] False
      by (auto simp: good_at_def split: option.splits elim!: good_state_mono)
    ultimately show ?thesis using q1 inv by simp
  next
    case True
    then obtain st where st: "map_of (e_clips E) p = Some st" "k_key st = k" by blast
    then have "e_clips E \<noteq> []" by auto
    with inv(4) obtain fl where f: "e_file E = Some fl" by blast
    have shown: "map_option fst (clips (e_sink E) p) = k_ready st"
      and key: "k_key st = [] \<or> (\<exists>origin. clipKey lb (k_clip st) origin = k_key st)"
      using inv(1) [of p] st(1) by (auto simp: good_at_def good_state_def)
    show ?thesis
    proof (cases res)
      case (Inl err)
      let ?st = "st\<lparr>k_ready := None, k_status := error_status err\<rparr>"
      have E: "?E = put_clip p ?st (if k_ready st \<noteq> None then sink_remove ops p ?E1 else ?E1)"
        using st by (simp add: finish_build_def Inl)
      have "good_at lb clips (busy ?E ?J1) ?E p"
        using shown key unfolding E by (auto simp: good_at_def good_state_def clips_remove)
      then have "good_at lb clips (busy ?E ?J1) ?E q" for q
        by (rule_tac good_at_update [OF inv(1), where p = p])
          (auto simp: E clips_remove busy_def in_set_remove1)
      with q1 inv f show ?thesis by (simp add: E distinct_put)
    next
      case (Inr l)
      let ?st = "st\<lparr>k_ready := Some l, k_status := statusOf (e_opt E) l\<rparr>"
      have E: "?E = (put_clip p ?st ?E1)\<lparr>e_sink := sk_set ops p l (clip_nfo lb (k_clip st))
          (case fl_mtime fl of Some t \<Rightarrow> t | None \<Rightarrow> l_built l) (e_sink E)\<rparr>"
        using st by (simp add: finish_build_def Inr Let_def publish_Some [where fl = fl and l = l] f)
      have l: "accepted l" "built_for lb k l" using assms(5) [OF Inr] by auto
      then have "k \<noteq> []" using clipKey_nonempty [OF assms(4)] by (auto simp: built_for_def)
      then have "good_at lb clips (busy ?E ?J1) ?E p"
        using key st(2) l unfolding E by (auto simp: good_at_def good_state_def clips_set)
      then have "good_at lb clips (busy ?E ?J1) ?E q" for q
        by (rule_tac good_at_update [OF inv(1), where p = p])
          (auto simp: E clips_set busy_def in_set_remove1)
      with q1 inv f show ?thesis by (simp add: E distinct_put)
    qed
  qed
  then show "engine_inv lb clips ?E ?J1" "e_opt ?E = e_opt E" by (simp_all add: engine_inv_def)
qed

lemma finish_stuck:
  assumes "engine_inv lb clips E J"
  shows "e_stuck (finish_build lb ops p k res E) = e_stuck E"
    and "e_queue (finish_build lb ops p k res E) = e_queue E"
    and "e_started (finish_build lb ops p k res E) = e_started E"
proof -
  have "e_file E \<noteq> None" if "map_of (e_clips E) p = Some st" for st
    using assms that by (auto simp: engine_inv_def)
  then show "e_stuck (finish_build lb ops p k res E) = e_stuck E"
    by (auto simp: finish_build_def Let_def publish_def split: option.split sum.split)
qed (auto simp: finish_build_def Let_def publish_def put_clip_def sink_remove_def
    split: option.split sum.split)

lemma begin_frame:
  assumes "begin_build p E = (E', r)"
  shows "e_stuck E' = e_stuck E" "e_queue E' = e_queue E" "e_started E' = e_started E"
  using assms by (auto simp: begin_build_def Let_def split: option.splits)

lemma work_inv:
  assumes "work lb ops (E, J) (E', J')" "engine_inv lb clips E J" "lib_ok lb"
  shows "engine_inv lb clips E' J' \<and> e_opt E' = e_opt E \<and> e_stuck E' = None
    \<and> e_started E' = e_started E
    \<and> 3 * length (e_queue E') + 2 * length (received J') + length (building_paths J')
      < 3 * length (e_queue E) + 2 * length (received J) + length (building_paths J)"
  using assms(1)
proof cases
  case (receive p)
  then show ?thesis
    using receive_inv [OF assms(2) receive(2,5)]
    by (auto simp: receive_def split: list.splits)
next
  case (skip p)
  then show ?thesis
    using begin_inv [OF assms(2) skip(2,3,4)] begin_frame [OF skip(4)] received_mem [OF skip(3)]
    by (auto simp: length_remove1 neq_Nil_conv dest: split_list)
next
  case (begin_build p c i k)
  then show ?thesis
    using begin_inv [OF assms(2) begin_build(2,3,4)] begin_frame [OF begin_build(4)]
      received_mem [OF begin_build(3)]
    by (auto simp: length_remove1 neq_Nil_conv dest: split_list)
next
  case (finish p c i k be fs fs' res)
  have "accepted l \<and> built_for lb k l" if "res = Inr l" for l
    using build_good finish(5) that by blast
  with finish_inv [OF assms(2) finish(3,4) assms(3)] finish_stuck [OF assms(2), where p = p and k = k and res = res]
  show ?thesis using finish length_remove_building [OF finish(4)] by simp
qed

lemma engine_step_inv:
  assumes "engine_step lb ops (E, J) (E', J')" "engine_inv lb clips E J" "lib_ok lb"
  shows "engine_inv lb clips E' J' \<and> e_opt E' = e_opt E"
  using assms(1)
proof cases
  case work
  from work_inv [OF this assms(2,3)] show ?thesis by blast
next
  case (apply_file ord os_at os fl)
  with Apply_inv [OF assms(2,3)] show ?thesis by simp
next
  case (recheck ord os_at os E0)
  with Apply_inv [OF assms(2,3)] assms(2) show ?thesis
    by (auto simp: Recheck_def split: option.splits)
next
  case (start tmps rm fs fs')
  with assms(2) show ?thesis by (auto simp: Start_def engine_inv_def)
next
  case (tick env fs cleaned fs' cleaned' clean)
  with assms(2) show ?thesis
    by (auto simp: status_tick_def Let_def engine_inv_def split: if_splits)
qed

lemma reachable_inv:
  assumes "reachable lb ops opt sink y" "lib_ok lb" "\<And>p. clips sink p = None"
  shows "engine_inv lb clips (fst y) (snd y) \<and> e_opt (fst y) = e_opt (engine_New opt sink)"
  using assms(1)
proof induction
  case init
  show ?case
    by (simp add: engine_inv_def engine_New_def good_at_def assms(3) queue_ok_def queue_size_def)
next
  case (step y y')
  then show ?case using engine_step_inv [OF _ _ assms(2)] by (metis prod.collapse)
qed

text \<open>A worker can go on as long as there is anything to do.\<close>

lemma work_progress:
  assumes "e_stuck E = None" "e_started E" "0 < o_Workers (e_opt E)" "e_queue E \<noteq> [] \<or> J \<noteq> []"
  shows "\<exists>y. work lb ops (E, J) y"
proof (cases J)
  case Nil
  with assms(4) obtain p q where "e_queue E = p # q" by (auto simp: neq_Nil_conv)
  then have "receive E = Some (p, E\<lparr>e_queue := q\<rparr>)" by (simp add: receive_def)
  with work.receive [OF assms(1,2), where J = J and lb = lb and ops = ops] assms(3) Nil
  show ?thesis by auto
next
  case (Cons j J')
  show ?thesis
  proof (cases j)
    case (Received p)
    obtain E' r where b: "begin_build p E = (E', r)" by fastforce
    show ?thesis
    proof (cases r)
      case None
      then show ?thesis 
        using work.skip [OF assms(1) _ b [unfolded None], where J = J and lb = lb and ops = ops]
          Cons Received by auto
    next
      case (Some x)
      then obtain c i k where "r = Some (c, i, k)" by (cases x) auto
      then show ?thesis 
        using work.begin_build [OF assms(1), where J = J and lb = lb and ops = ops] b Cons Received
        by (metis list.set_intros(1))
    qed
  next
    case (Building p c i k)
    then show ?thesis
      using work.finish [OF assms(1), where J = J and lb = lb and ops = ops] Cons
      by (metis list.set_intros(1) surj_pair)
  qed
qed

lemma work_bound:
  assumes "(work lb ops ^^ n) (E, J) (E', J')" "engine_inv lb clips E J" "lib_ok lb" "e_stuck E = None"
  shows "engine_inv lb clips E' J' \<and> e_opt E' = e_opt E \<and> e_stuck E' = None
    \<and> e_started E' = e_started E
    \<and> n + (3 * length (e_queue E') + 2 * length (received J') + length (building_paths J'))
      \<le> 3 * length (e_queue E) + 2 * length (received J) + length (building_paths J)"
  using assms(1)
proof (induction n arbitrary: E' J')
  case (Suc n)
  then obtain E1 J1 where w: "(work lb ops ^^ n) (E, J) (E1, J1)" "work lb ops (E1, J1) (E', J')"
    by auto
  from Suc.IH [OF w(1)] work_inv [OF w(2) _ assms(3)] show ?case by auto
qed (use assms in auto)

text \<open>When no worker has anything to do, every clip is settled.\<close>

definition settled :: "lib \<Rightarrow> 's engine \<Rightarrow> string \<Rightarrow> bool" where
  "settled lb E p \<longleftrightarrow>
     (case map_of (e_clips E) p of
        None \<Rightarrow> clips (e_sink E) p = None
      | Some st \<Rightarrow>
          s_state (k_status st) = StateError \<and> clips (e_sink E) p = None
          \<or> (\<exists>l t. k_status st = statusOf (e_opt E) l \<and> k_ready st = Some l
               \<and> clips (e_sink E) p = Some (l, clip_nfo lb (k_clip st), t)))"

lemma idle_settled:
  assumes "engine_inv lb clips E J" "e_stuck E = None" "e_queue E = []" "J = []"
  shows "settled lb E p"
proof -
  have "\<not> busy E J p k" for k
    using assms by (simp add: engine_inv_def queue_ok_def busy_def)
  moreover have "good_at lb clips (busy E J) E p" using assms(1) by (simp add: engine_inv_def)
  ultimately show ?thesis
    by (auto simp: good_at_def good_state_def settled_def split: option.splits)
qed

end

section \<open>What the steps do to the sink\<close>

text \<open>A property of sinks that publishing a clip of \<open>D\<close> keeps, and removing any clip.\<close>

definition sink_closed :: "'s sink_ops \<Rightarrow> string set \<Rightarrow> ('s \<Rightarrow> bool) \<Rightarrow> bool" where
  "sink_closed ops D P \<longleftrightarrow>
     (\<forall>p \<in> D. \<forall>l nfo t s. P s \<longrightarrow> P (sk_set ops p l nfo t s)) \<and> (\<forall>p s. P s \<longrightarrow> P (sk_remove ops p s))"

text \<open>The clips of a file that have no problem, and the engines whose clips with a source have
  their names in \<open>D\<close>.\<close>

definition valid_clips :: "lib \<Rightarrow> os \<Rightarrow> string \<Rightarrow> clips_file \<Rightarrow> clip_def list" where
  "valid_clips lb os mediaRoot fl =
     map (\<lambda>i. fl_clips fl ! i)
       (filter (\<lambda>i. problems_of (Validate (lb_ul lb) os (fl_clips fl) mediaRoot) i = [])
         [0..<length (fl_clips fl)])"

definition keyed :: "string set \<Rightarrow> 's engine \<Rightarrow> bool" where
  "keyed D E \<longleftrightarrow> (\<forall>p st. map_of (e_clips E) p = Some st \<longrightarrow> k_key st = [] \<or> p \<in> D)"

lemma keyed_frame [simp]:
  "keyed D (E\<lparr>e_started := b\<rparr>) = keyed D E" "keyed D (E\<lparr>e_dirty := b\<rparr>) = keyed D E"
  "keyed D (E\<lparr>e_file := f\<rparr>) = keyed D E" "keyed D (E\<lparr>e_sink := s\<rparr>) = keyed D E"
  by (simp_all add: keyed_def)

lemma foldl_inv: "(\<And>x s. x \<in> set xs \<Longrightarrow> P s \<Longrightarrow> P (f s x)) \<Longrightarrow> P s \<Longrightarrow> P (foldl f s xs)"
  by (induction xs arbitrary: s) auto

context engine_sink
begin

lemma sink_closed_sets:
  assumes "sink_closed ops D P" "P (e_sink E)"
  shows "p \<in> D \<Longrightarrow> P (e_sink (publish lb ops p st E))" "P (e_sink (sink_remove ops p E))"
  using assms by (auto simp: sink_closed_def publish_def sink_remove_def split: option.split)

lemma applyClip_sink:
  assumes "sink_closed ops D P" "P (e_sink E)" "p \<in> D"
  shows "P (e_sink (applyClip lb ops os p c E))"
proof (cases rule: applyClip_cases [where E = E and p = p and lb = lb and os = os and c = c])
  case (failed e)
  with assms show ?thesis by (simp add: fail_clip_def sink_closed_sets del: sink_remove_simps)
next
  case (kept origin)
  with assms show ?thesis by (simp add: kept(1) keep_clip_def Let_def sink_closed_sets)
next
  case (renewed input origin key)
  let ?st = "case map_of (e_clips E) p of Some st \<Rightarrow> st | None \<Rightarrow> zero_state"
  have r: "P (e_sink (sink_remove ops p E))" using sink_closed_sets(2) [OF assms(1,2)] .
  show ?thesis
    unfolding renewed(1)
  proof (cases rule: renew_clip_cases [where c = c and input = input and origin = origin
        and key = key and st = ?st and E = E and p = p and lb = lb and os = os])
    case (pending E1)
    with assms(2) r show "P (e_sink (renew_clip lb ops os p c input origin key ?st E))" by auto
  next
    case (ready E1 l)
    with assms(2) r have "P (e_sink E1)" by auto
    then show "P (e_sink (renew_clip lb ops os p c input origin key ?st E))"
      unfolding ready(4) using assms(3) by (intro sink_closed_sets(1) [OF assms(1)]) simp_all
  qed
qed

lemma drop_clip_sink:
  assumes "sink_closed ops D P" "P (e_sink E)"
  shows "P (e_sink (drop_clip ops want invalid p E))"
  using assms by (auto simp: drop_clip_def Let_def sink_closed_def split: option.split)

lemma applyClip_keyed: "keyed D E \<Longrightarrow> p \<in> D \<Longrightarrow> keyed D (applyClip lb ops os p c E)"
  using applyClip_other [of p _ lb os c E] unfolding keyed_def by metis

lemma drop_clip_keyed: "keyed D E \<Longrightarrow> keyed D (drop_clip ops want invalid p E)"
  by (auto simp: keyed_def drop_clip_def Let_def AList.delete_conv' split: option.split)

lemma invalid_clip_keyed: "keyed D E \<Longrightarrow> keyed D (invalid_clip want invalid p E)"
  by (auto simp: keyed_def invalid_clip_def zero_state_def split: option.split)

text \<open>What every part of \<open>Apply\<close> keeps, \<open>Apply\<close> keeps.\<close>

lemma Apply_closed:
  assumes "\<And>E w v p. Q E \<Longrightarrow> Q (drop_clip ops w v p E)" "\<And>E w v p. Q E \<Longrightarrow> Q (invalid_clip w v p E)"
    and "\<And>E p os c. p \<in> D \<Longrightarrow> Q E \<Longrightarrow> Q (applyClip lb ops os p c E)"
    and "\<And>E f. Q E \<Longrightarrow> Q (E\<lparr>e_file := f\<rparr>)" "\<And>E d. Q E \<Longrightarrow> Q (E\<lparr>e_dirty := d\<rparr>)"
    and "Path ` set (valid_clips lb os (o_MediaRoot (e_opt E)) fl) \<subseteq> D" "Q E"
  shows "Q (Apply lb ops os os_at ord fl E)"
proof -
  obtain want invalid where s: "split_clips (Validate (lb_ul lb) os (fl_clips fl)
      (o_MediaRoot (e_opt E))) 0 (fl_clips fl) ([], []) = (want, invalid)" by fastforce
  have D: "p \<in> D" if "map_of want p = Some c" for p c
    using split_clips_want [OF s, THEN conjunct1, rule_format, OF that] assms(6)
    by (auto simp: valid_clips_def)
  let ?E0 = "E\<lparr>e_file := Some fl\<rparr>"
  let ?E1 = "foldl (\<lambda>E p. drop_clip ops want invalid p E) ?E0 (ord 0 (map fst (e_clips E)))"
  let ?E2 = "foldl (\<lambda>E p. invalid_clip want invalid p E) ?E1 (ord 1 (map fst invalid))"
  let ?E3 = "foldl (\<lambda>E p. want_clip lb ops os_at want p E) ?E2 (ord 2 (map fst want))"
  have "Q ?E1" by (rule foldl_inv [where P = Q]) (simp_all add: assms(1,4,7))
  then have "Q ?E2" by (rule_tac foldl_inv [where P = Q]) (simp_all add: assms(2))
  then have "Q ?E3"
    by (rule_tac foldl_inv [where P = Q])
      (auto simp: want_clip_def assms(3) D split: option.split)
  with s assms(5) show ?thesis by (simp add: Apply_def Let_def)
qed

lemma Apply_sink:
  assumes "sink_closed ops D P" "P (e_sink E)"
    and "Path ` set (valid_clips lb os (o_MediaRoot (e_opt E)) fl) \<subseteq> D"
  shows "P (e_sink (Apply lb ops os os_at ord fl E))"
  by (rule Apply_closed [where Q = "\<lambda>E. P (e_sink E)" and D = D])
    (simp_all add: assms drop_clip_sink [OF assms(1)] applyClip_sink [OF assms(1)] invalid_clip_def
      split: option.split)

lemma Apply_keyed:
  assumes "keyed D E" "Path ` set (valid_clips lb os (o_MediaRoot (e_opt E)) fl) \<subseteq> D"
  shows "keyed D (Apply lb ops os os_at ord fl E)"
  by (rule Apply_closed [where Q = "keyed D" and D = D])
    (use assms in \<open>simp_all add: drop_clip_keyed invalid_clip_keyed applyClip_keyed\<close>)

text \<open>A worker publishes under a name of \<open>D\<close> only: a clip that was built has a key.\<close>

lemma work_closed:
  assumes "work lb ops (E, J) (E', J')" "sink_closed ops D P" "P (e_sink E)" "keyed D E" "lib_ok lb"
  shows "P (e_sink E') \<and> keyed D E'"
  using assms(1)
proof cases
  case (receive p)
  then have "e_sink E' = e_sink E \<and> e_clips E' = e_clips E"
    by (auto simp: receive_def split: list.splits)
  with assms(3,4) show ?thesis by (simp add: keyed_def)
next
  case (skip p)
  then have "e_sink E' = e_sink E \<and> e_clips E' = e_clips E"
    by (auto simp: begin_build_def Let_def split: option.splits)
  with assms(3,4) show ?thesis by (simp add: keyed_def)
next
  case (begin_build p c i k)
  then have "e_sink E' = e_sink E \<and> e_clips E' = e_clips E"
    by (auto simp: begin_build_def Let_def split: option.splits)
  with assms(3,4) show ?thesis by (simp add: keyed_def)
next
  case (finish p c i k be fs fs' res)
  let ?E1 = "E\<lparr>e_building := e_building E - 1, e_dirty := True\<rparr>"
  have k: "k \<noteq> []" if "res = Inr l" for l
    using build_good(2) [OF finish(5) [unfolded that]] clipKey_nonempty [OF assms(5)]
    by (auto simp: built_for_def)
  have "P (e_sink (finish_build lb ops p k res E)) \<and> keyed D (finish_build lb ops p k res E)"
  proof (cases "\<exists>st. map_of (e_clips E) p = Some st \<and> k_key st = k")
    case False
    then have "finish_build lb ops p k res E = ?E1"
      by (auto simp: finish_build_def Let_def split: option.split)
    with assms(3,4) show ?thesis by (simp add: keyed_def)
  next
    case True
    then obtain st where st: "map_of (e_clips E) p = Some st" "k_key st = k" by blast
    show ?thesis
    proof (cases res)
      case (Inl e)
      then show ?thesis
        using st assms(2-4)
        by (auto simp: finish_build_def Let_def keyed_def sink_closed_def split: if_splits)
    next
      case (Inr l)
      have "p \<in> D" using k [OF Inr] st assms(4) by (auto simp: keyed_def)
      then show ?thesis
        using st assms(4) sink_closed_sets(1) [OF assms(2), of _ p] assms(3)
        by (simp add: finish_build_def Inr Let_def) (auto simp: keyed_def)
    qed
  qed
  with finish(1) show ?thesis by simp
qed

lemma applyClip_keeps:
  "e_file (applyClip lb ops os p c E) = e_file E \<and> e_opt (applyClip lb ops os p c E) = e_opt E"
proof (cases rule: applyClip_cases [where E = E and p = p and lb = lb and os = os and c = c])
  case (renewed input origin key)
  let ?st = "case map_of (e_clips E) p of Some st \<Rightarrow> st | None \<Rightarrow> zero_state"
  show ?thesis
    unfolding renewed(1)
    by (cases rule: renew_clip_cases [where c = c and input = input and origin = origin
          and key = key and st = ?st and E = E and p = p and lb = lb and os = os]) auto
qed (simp_all add: fail_clip_def keep_clip_def Let_def)

lemma Apply_keeps:
  "e_file (Apply lb ops os os_at ord fl E) = Some fl \<and> e_opt (Apply lb ops os os_at ord fl E) = e_opt E"
proof -
  have "e_file (foldl (\<lambda>E p. want_clip lb ops os_at want p E) E' ps) = e_file E'
      \<and> e_opt (foldl (\<lambda>E p. want_clip lb ops os_at want p E) E' ps) = e_opt E'" for want E' ps
    by (rule foldl_inv [where P = "\<lambda>E. e_file E = e_file E' \<and> e_opt E = e_opt E'"])
      (auto simp: want_clip_def applyClip_keeps split: option.split)
  then show ?thesis by (simp add: Apply_def Let_def invalids_frame drops_frame split: prod.split)
qed

lemmas Apply_opt = Apply_keeps [THEN conjunct2]

text \<open>A recheck that read its file before another \<open>Apply\<close> puts that older file back, whatever the
  other one applied: \<open>engine.go\<close> gives the mutex up in between.\<close>

lemma Recheck_reverts:
  assumes "e_file E0 = Some old" "E = Apply lb ops os os_at ord new E0"
  shows "e_file E = Some new" "e_file (Recheck lb ops os' os_at' ord' E0 E) = Some old"
  using assms Apply_keeps by (simp_all add: Recheck_def)

end

end
