(* ===== verification/EngineMount.thy ===== *)
theory EngineMount
  imports EngineRun Clipfs
begin

text \<open>
  The engine of \<^verbatim>\<open>internal/engine/engine.go\<close> on the mount of \<^verbatim>\<open>internal/clipfs/clipfs.go\<close>: what
  its runs promise, and an example of a run.
\<close>

section \<open>The mount as sink\<close>

definition mount_ops :: "'f inode_ops \<Rightarrow> 'f root sink_ops" where
  "mount_ops iops = \<lparr>sk_set = SetClip iops, sk_remove = root_remove iops\<rparr>"

interpretation mount: engine_sink "mount_ops iops" root_clips
  for iops :: "'f inode_ops"
  by unfold_locales (simp_all add: mount_ops_def root_sink.clips_set root_sink.clips_remove)

section \<open>The index across a restart\<close>

lemma hex_chars: "c \<in> set (hex_string bs) \<Longrightarrow> c \<in> set ''0123456789abcdef''"
proof -
  have d: "hex_digit n \<in> set ''0123456789abcdef''" if "n < 16" for n
    using that nth_mem [of n "''0123456789abcdef''"] by (simp add: hex_digit_def)
  have "hex_digit (unat b div 16) \<in> set ''0123456789abcdef''
      \<and> hex_digit (unat b mod 16) \<in> set ''0123456789abcdef''" for b :: byte
  proof -
    have "unat b < 256" using unsigned_less [of b] by simp
    then show ?thesis by (intro conjI d) simp_all
  qed
  moreover assume "c \<in> set (hex_string bs)"
  ultimately show ?thesis unfolding hex_string_def by auto
qed

lemma hex_no_slash: "slash \<notin> set (hex_string bs)"
  using hex_chars [of slash bs] by auto

lemma index_not_tmp:
  assumes "slash \<notin> set key"
  shows "indexPath opt key \<noteq> remux_tmp opt key"
proof -
  have "is_plain (key @ ''.json'')" "is_plain (''.'' @ key @ ''.tmp.mkv'')"
    using assms by (auto simp: is_plain_def is_name_def append_eq_Cons_conv)
  from Join_last [OF this(1), of "[o_CacheDir opt, ''index'']"]
    Join_last [OF this(2), of "[path_Dir (remuxPath opt key)]"]
  have "snd (path_Split (indexPath opt key)) = key @ ''.json''"
    "snd (path_Split (remux_tmp opt key)) = ''.'' @ key @ ''.tmp.mkv''"
    by (simp_all add: indexPath_def remux_tmp_def)
  moreover have "last (key @ ''.json'') \<noteq> last (''.'' @ key @ ''.tmp.mkv'')" by simp
  ultimately show ?thesis by metis
qed

lemma WriteFileAtomic_wrote:
  assumes "WriteFileAtomic env fs path data perm = (states, None)"
    and "\<And>tmp. w_create env = Inr tmp \<Longrightarrow> tmp \<noteq> path"
  shows "last states path = Some (data, perm)"
  using assms by (auto simp: WriteFileAtomic_def Let_def split: sum.splits option.splits)

lemma build_saved:
  assumes "build lb opt be fs c input key = (fs', Inr l)"
    and "\<And>tmp. w_create (be_save be) = Inr tmp \<Longrightarrow> tmp \<noteq> indexPath opt key"
  shows "\<exists>b. lb_marshal lb l = Inr b \<and> fs' (indexPath opt key) = Some (b, 0x1A4)"
proof -
  obtain origin l0 fs0 fs1 where b: "clipKey lb c origin = key"
    "save_layout lb opt be fs0 key l0 = (fs1, Inr l)"
    "fs' = fs1 \<or> fs' = fs1(remux_tmp opt key := None)"
    by (rule build_Inr [OF assms(1)])
  obtain states where s: "Save (lb_marshal lb) (be_save be) fs0 l (indexPath opt key) = (states, None)"
    "fs1 = last states"
    using save_layout_Inr(2) [OF b(2)] by blast
  then obtain m where m: "lb_marshal lb l = Inr m"
    "WriteFileAtomic (be_save be) fs0 (indexPath opt key) m 0x1A4 = (states, None)"
    by (auto simp: Save_def split: sum.splits)
  have "slash \<notin> set key" using b(1) hex_no_slash by (auto simp: clipKey_def)
  from index_not_tmp [OF this] have "fs' (indexPath opt key) = fs1 (indexPath opt key)"
    using b(3) by auto
  with WriteFileAtomic_wrote [OF m(2) assms(2)] m(1) s(2) show ?thesis by simp
qed

lemma build_loaded:
  assumes "build lb opt be fs c input key = (fs', Inr l)"
    and "\<And>tmp. w_create (be_save be) = Inr tmp \<Longrightarrow> tmp \<noteq> indexPath opt key"
    and "\<And>b. lb_marshal lb l = Inr b \<Longrightarrow> lb_unmarshal lb b = Inr (l\<lparr>l_offsets := []\<rparr>)"
    and "\<And>b m. fs' (indexPath opt key) = Some (b, m) \<Longrightarrow> os_ReadFile os (indexPath opt key) = Inr b"
  shows "Load (read_text lb os) (lb_unmarshal lb) (indexPath opt key) = Inr l"
proof -
  obtain b where b: "lb_marshal lb l = Inr b" "fs' (indexPath opt key) = Some (b, 0x1A4)"
    using build_saved [OF assms(1,2)] by blast
  obtain l0 where l0: "Finalize l0 = (l, None)" "l_version l0 = FormatVersion"
    using build_Inr [OF assms(1)] save_layout_Inr(1) by metis
  then have "accepted l" "l_version l = FormatVersion"
    using Finalize_accepted Finalize_fields [OF l0(1)] by auto
  with b assms(3,4) show ?thesis
    by (simp add: Load_def read_text_def Finalize_again)
qed

section \<open>The engine and its mount\<close>

lemma OnAdd_entries: "r_entries (OnAdd ops order R) = r_entries R"
proof -
  have "r_entries (foldl (\<lambda>R (p, e). place ops p e False R) R order) = r_entries R"
    by (rule foldl_inv [where P = "\<lambda>R'. r_entries R' = r_entries R"])
      (auto simp: same_root_sel [OF place_same])
  then show ?thesis by (simp add: OnAdd_def)
qed

lemma OnAdd_clips [simp]: "root_clips (OnAdd ops order R) = root_clips R"
  by (simp add: root_clips_def OnAdd_entries fun_eq_iff)

lemma mount_closed:
  "sink_closed (mount_ops iops) D (\<lambda>R. reach iops f0 D R \<and> r_mounted R = b)"
proof -
  have "reach iops f0 D (root_remove iops p R) \<and> r_mounted (root_remove iops p R) = r_mounted R"
    if "reach iops f0 D R" for p and R :: "'a root"
  proof -
    obtain R' where "RemoveClip iops p R = Some R'" by (rule RemoveClip_Some)
    with that show ?thesis
      by (auto simp: root_remove_def RemoveClip_entries(2) intro: reach.remove)
  qed
  then show ?thesis
    by (auto simp: sink_closed_def mount_ops_def SetClip_entries(2) intro: reach.set)
qed

text \<open>The states of the program's library: the engine and the root it publishes to, under any
  interleaving of the workers, of configurations and rechecks, of housekeeping, and of the
  mount, which happens once.  \<open>D\<close> are the names of the valid clips of all files applied.\<close>

definition names_in :: "lib \<Rightarrow> options \<Rightarrow> string set \<Rightarrow> os \<Rightarrow> clips_file \<Rightarrow> bool" where
  "names_in lb opt D os fl \<longleftrightarrow> Path ` set (valid_clips lb os (o_MediaRoot opt) fl) \<subseteq> D"

inductive library ::
  "lib \<Rightarrow> 'f inode_ops \<Rightarrow> options \<Rightarrow> 'f \<Rightarrow> string set \<Rightarrow> 'f root engine \<times> job list \<Rightarrow> bool"
  for lb iops opt f0 D where
  new: "library lb iops opt f0 D (engine_New opt (New uid gid on_stale now f0), [])"
| work: "\<lbrakk>library lb iops opt f0 D (E, J); work lb (mount_ops iops) (E, J) (E', J')\<rbrakk>
    \<Longrightarrow> library lb iops opt f0 D (E', J')"
| apply_file: "\<lbrakk>library lb iops opt f0 D (E, J); e_stuck E = None; is_order ord;
      \<And>p. index_law lb (e_opt E) (os_at p); names_in lb (e_opt E) D os fl\<rbrakk>
    \<Longrightarrow> library lb iops opt f0 D (Apply lb (mount_ops iops) os os_at ord fl E, J)"
| recheck: "\<lbrakk>library lb iops opt f0 D (E, J); e_stuck E = None; is_order ord;
      \<And>p. index_law lb (e_opt E) (os_at p); \<And>fl. e_file E0 = Some fl \<Longrightarrow> names_in lb (e_opt E) D os fl\<rbrakk>
    \<Longrightarrow> library lb iops opt f0 D (Recheck lb (mount_ops iops) os os_at ord E0 E, J)"
| start: "\<lbrakk>library lb iops opt f0 D (E, J); e_stuck E = None; Start tmps rm fs E = (fs', E')\<rbrakk>
    \<Longrightarrow> library lb iops opt f0 D (E', J)"
| tick: "\<lbrakk>library lb iops opt f0 D (E, J); e_stuck E = None;
      status_tick lb env fs cleaned E = (fs', cleaned', E', clean)\<rbrakk>
    \<Longrightarrow> library lb iops opt f0 D (E', J)"
| mount: "\<lbrakk>library lb iops opt f0 D (E, J); e_stuck E = None; \<not> r_mounted (e_sink E);
      mset order = mset (r_entries (e_sink E))\<rbrakk>
    \<Longrightarrow> library lb iops opt f0 D (E\<lparr>e_sink := OnAdd iops order (e_sink E)\<rparr>, J)"

definition library_inv ::
  "lib \<Rightarrow> 'f inode_ops \<Rightarrow> options \<Rightarrow> 'f \<Rightarrow> string set \<Rightarrow> 'f root engine \<Rightarrow> job list \<Rightarrow> bool" where
  "library_inv lb iops opt f0 D E J \<longleftrightarrow>
     reach iops f0 D (e_sink E) \<and> keyed D E \<and> engine_inv lb root_clips E J
     \<and> e_opt E = e_opt (engine_New opt ())"

lemma library_work:
  assumes "library_inv lb iops opt f0 D E J" "work lb (mount_ops iops) (E, J) (E', J')" "lib_ok lb"
  shows "library_inv lb iops opt f0 D E' J' \<and> r_mounted (e_sink E') = r_mounted (e_sink E)"
proof -
  let ?P = "\<lambda>R. reach iops f0 D R \<and> r_mounted R = r_mounted (e_sink E)"
  have "?P (e_sink E') \<and> keyed D E'"
    using mount.work_closed [OF assms(2) mount_closed [of iops D f0 "r_mounted (e_sink E)"]] assms(1,3)
    by (simp add: library_inv_def)
  with mount.work_inv [OF assms(2) _ assms(3)] assms(1) show ?thesis by (simp add: library_inv_def)
qed

lemma library_Apply:
  assumes "library_inv lb iops opt f0 D E J" "lib_ok lb" "is_order ord"
    and "\<And>p. index_law lb (e_opt E) (os_at p)" "names_in lb (e_opt E) D os fl"
  shows "library_inv lb iops opt f0 D (Apply lb (mount_ops iops) os os_at ord fl E) J"
proof -
  have "reach iops f0 D (e_sink (Apply lb (mount_ops iops) os os_at ord fl E)) \<and>
      r_mounted (e_sink (Apply lb (mount_ops iops) os os_at ord fl E)) = r_mounted (e_sink E)"
    using mount.Apply_sink [OF mount_closed [of iops D f0 "r_mounted (e_sink E)"]] assms(1,5)
    by (simp add: library_inv_def names_in_def)
  moreover have "keyed D (Apply lb (mount_ops iops) os os_at ord fl E)"
    using mount.Apply_keyed [where D = D and E = E and lb = lb and os = os and fl = fl] assms(1,5) unfolding library_inv_def names_in_def by blast
  ultimately show ?thesis
    using mount.Apply_inv [OF _ assms(2) _ assms(3), of E J os_at iops os fl] assms(1,4) by (simp add: library_inv_def)
qed

lemma library_reach:
  assumes "library lb iops opt f0 D (E, J)" "lib_ok lb"
  shows "library_inv lb iops opt f0 D E J"
  using assms(1)
proof (induction "(E, J)" arbitrary: E J)
  case (new uid gid on_stale now)
  show ?case
    by (auto simp: library_inv_def engine_inv_def engine_New_def good_at_def queue_ok_def keyed_def
        queue_size_def root_clips_def New_def [of uid] intro: reach.new [unfolded New_def])
next
  case (work E J E' J')
  from library_work [OF work(2,3) assms(2)] show ?case ..
next
  case (apply_file E J ord os_at os fl)
  then show ?case by (intro library_Apply [OF _ assms(2)]) simp_all
next
  case (recheck E J ord os_at E0 os)
  then show ?case
    by (cases "e_file E0") (auto simp: Recheck_def intro!: library_Apply [OF _ assms(2)])
next
  case (start E J tmps rm fs fs' E')
  then show ?case by (auto simp: Start_def library_inv_def engine_inv_def)
next
  case (tick E J env fs cleaned fs' cleaned' E' clean)
  then show ?case
    by (auto simp: status_tick_def Let_def library_inv_def engine_inv_def split: if_splits)
next
  case (mount E J order)
  then have "reach iops f0 D (OnAdd iops order (e_sink E))"
    by (intro reach.on_add) (simp_all add: library_inv_def)
  moreover have "good_at lb root_clips bz (E\<lparr>e_sink := OnAdd iops order (e_sink E)\<rparr>) p
      = good_at lb root_clips bz E p" for bz p
    by (cases "map_of (e_clips E) p") (simp_all add: good_at_def)
  moreover have "busy (E\<lparr>e_sink := OnAdd iops order (e_sink E)\<rparr>) J = busy E J"
    by (simp add: busy_def fun_eq_iff)
  ultimately show ?case using mount by (simp add: library_inv_def engine_inv_def)
qed

text \<open>What the tree of a mounted root shows of one clip.\<close>

lemma mounted_clip:
  assumes "inode_tree iops ok" "ok f0" "fresh_tree iops f0" "conflict_free D"
    and "reach iops f0 D R" "r_mounted R"
  shows "view iops (r_tree R) q = Some (ClipNode p l) \<longleftrightarrow>
      q = mkv_of p \<and> map_option fst (root_clips R p) = Some l"
    and "p \<in> D \<Longrightarrow> view iops (r_tree R) (mkv_of p) = map_option (\<lambda>(l, _). ClipNode p l) (root_clips R p)"
    and "p \<in> D \<Longrightarrow> view iops (r_tree R) (nfo_of p) =
      (case root_clips R p of None \<Rightarrow> None | Some (l, nfo, t) \<Rightarrow> map_option (\<lambda>d. StaticNode d t) nfo)"
    and "root_clips R p \<noteq> None \<Longrightarrow> p \<in> D"
proof -
  note v = mount_tree [OF assms]
  have "agrees iops Map.empty f0" "inode_tree.good iops ok f0"
    using assms(2,3) by (auto simp: agrees_def fresh_tree_def served_def inode_tree.good_def [OF assms(1)])
  then have d: "dom (map_of (r_entries R)) \<subseteq> D"
    using inode_tree.reach_inv(2) [OF assms(1,5)] assms(4) by (auto simp: dom_map_of_conv_image_fst)
  show "view iops (r_tree R) q = Some (ClipNode p l) \<longleftrightarrow>
      q = mkv_of p \<and> map_option fst (root_clips R p) = Some l"
    unfolding v by (auto simp: served_def root_clips_def)
  show "root_clips R p \<noteq> None \<Longrightarrow> p \<in> D"
    using d by (auto simp: root_clips_def)
  have eq: "x = y" if "\<And>nd. x = Some nd \<longleftrightarrow> y = Some nd" for x y :: "node option"
    using that by (metis not_Some_eq)
  show "view iops (r_tree R) (mkv_of p) = map_option (\<lambda>(l, _). ClipNode p l) (root_clips R p)" if "p \<in> D"
    by (rule eq) (auto simp: v served_mkv [OF assms(4) d that] root_clips_def)
  show "view iops (r_tree R) (nfo_of p) =
      (case root_clips R p of None \<Rightarrow> None | Some (l, nfo, t) \<Rightarrow> map_option (\<lambda>d. StaticNode d t) nfo)"
    if "p \<in> D"
    by (rule eq) (auto simp: v served_mkv [OF assms(4) d that] root_clips_def split: option.split)
qed

section \<open>Properties\<close>

text \<open>C1: In every state that the library reaches, under any interleaving of configurations,
  rechecks, workers, housekeeping and the mount, the tree of the mount has a clip's file if
  and only if the engine holds a finished layout for the clip; it then serves that layout,
  which \<open>Finalize\<close> accepted, and nothing else.  A clip that is reported ready is shown with
  the layout that the report describes, built for its key, and with the NFO of its current
  metadata; a clip in error is not shown; a pending clip is queued or being built.  Before
  the mount the same holds of what the root is going to show.  No operation dereferences a
  nil pointer.  The names of the valid clips are assumed not to collide with folders of
  others, go-fuse's inode operations to do what they promise, and the index to hold what
  \<open>build\<close> saved.\<close>

theorem engine_shows_ready_clips:
  assumes "inode_tree iops ok" "ok f0" "fresh_tree iops f0" "conflict_free D" "lib_ok lb"
    and "library lb iops opt f0 D (E, J)"
  shows "e_stuck E \<noteq> Some NilPointer \<and>
    (case map_of (e_clips E) p of
       None \<Rightarrow> root_clips (e_sink E) p = None
     | Some st \<Rightarrow>
         map_option fst (root_clips (e_sink E) p) = k_ready st
         \<and> (case k_ready st of None \<Rightarrow> True | Some l \<Rightarrow> Finalize l = (l, None))
         \<and> (s_state (k_status st) = StateError \<and> k_ready st = None
            \<or> s_state (k_status st) = StatePending
              \<and> (p \<in> e_queued E \<or> (\<exists>c i. Building p c i (k_key st) \<in> set J))
            \<or> (\<exists>l t. k_status st = statusOf (e_opt E) l \<and> built_for lb (k_key st) l
                 \<and> root_clips (e_sink E) p = Some (l, clip_nfo lb (k_clip st), t)))) \<and>
    (r_mounted (e_sink E) \<longrightarrow>
       (view iops (r_tree (e_sink E)) q = Some (ClipNode p l) \<longleftrightarrow>
          q = mkv_of p \<and> (\<exists>st. map_of (e_clips E) p = Some st \<and> k_ready st = Some l))
       \<and> (p \<in> D \<longrightarrow>
          view iops (r_tree (e_sink E)) (mkv_of p) =
            map_option (\<lambda>(l, _). ClipNode p l) (root_clips (e_sink E) p)
          \<and> view iops (r_tree (e_sink E)) (nfo_of p) =
            (case root_clips (e_sink E) p of None \<Rightarrow> None
             | Some (_, nfo, t) \<Rightarrow> map_option (\<lambda>d. StaticNode d t) nfo)))"
proof -
  have inv: "library_inv lb iops opt f0 D E J" by (rule library_reach [OF assms(6,5)])
  then have g: "good_at lb root_clips (busy E J) E p" and s: "e_stuck E \<noteq> Some NilPointer"
    by (auto simp: library_inv_def engine_inv_def queue_ok_def)
  have ready: "map_option fst (root_clips (e_sink E) p) = Some l \<longleftrightarrow>
      (\<exists>st. map_of (e_clips E) p = Some st \<and> k_ready st = Some l)"
    using g by (auto simp: good_at_def good_state_def split: option.splits)
  have "case map_of (e_clips E) p of
       None \<Rightarrow> root_clips (e_sink E) p = None
     | Some st \<Rightarrow>
         map_option fst (root_clips (e_sink E) p) = k_ready st
         \<and> (case k_ready st of None \<Rightarrow> True | Some l \<Rightarrow> Finalize l = (l, None))
         \<and> (s_state (k_status st) = StateError \<and> k_ready st = None
            \<or> s_state (k_status st) = StatePending
              \<and> (p \<in> e_queued E \<or> (\<exists>c i. Building p c i (k_key st) \<in> set J))
            \<or> (\<exists>l t. k_status st = statusOf (e_opt E) l \<and> built_for lb (k_key st) l
                 \<and> root_clips (e_sink E) p = Some (l, clip_nfo lb (k_clip st), t)))"
    using g by (auto simp: good_at_def good_state_def busy_def accepted_def split: option.splits)
  moreover note mounted_clip [OF assms(1-4), of "e_sink E"] inv
  ultimately show ?thesis using s ready by (simp add: library_inv_def)
qed

text \<open>C5: The engine settles.  From any state that the library reaches with its root mounted, its
  workers started and no goroutine waiting for the full queue (with the engine's mutex held),
  as long as the configuration stays, the workers
  take at most three steps per queued path, two per received one and one per build; and as
  long as there is a queued path or a running job some worker can take a step.  When they
  have come to rest, every clip is in error and the mounted tree has no file for it, or ready
  and the tree has its current layout and NFO; and the tree has no file for any other path.
  The assumptions on names, go-fuse and the index are those of C1.\<close>

theorem engine_settles:
  assumes "inode_tree iops ok" "ok f0" "fresh_tree iops f0" "conflict_free D" "lib_ok lb"
    and "library lb iops opt f0 D (E, J)"
    and "e_started E" "e_stuck E = None" "r_mounted (e_sink E)"
    and "(work lb (mount_ops iops) ^^ n) (E, J) (E', J')"
  shows "n \<le> 3 * length (e_queue E) + 2 * length (received J) + length (building_paths J)
    \<and> ((\<exists>y. work lb (mount_ops iops) (E', J') y)
       \<or> e_queue E' = [] \<and> J' = [] \<and> e_queued E' = {} \<and> e_building E' = 0
         \<and> (case map_of (e_clips E') p of
              None \<Rightarrow> \<forall>q l. view iops (r_tree (e_sink E')) q \<noteq> Some (ClipNode p l)
            | Some st \<Rightarrow>
                s_state (k_status st) = StateError
                \<and> (\<forall>q l. view iops (r_tree (e_sink E')) q \<noteq> Some (ClipNode p l))
                \<or> (\<exists>l t. k_status st = statusOf (e_opt E') l \<and> k_ready st = Some l
                     \<and> view iops (r_tree (e_sink E')) (mkv_of p) = Some (ClipNode p l)
                     \<and> view iops (r_tree (e_sink E')) (nfo_of p) =
                         map_option (\<lambda>d. StaticNode d t) (clip_nfo lb (k_clip st)))))"
proof -
  have inv: "library_inv lb iops opt f0 D E J" by (rule library_reach [OF assms(6,5)])
  have inv': "library_inv lb iops opt f0 D E' J' \<and> r_mounted (e_sink E')"
    using assms(10)
  proof (induction n arbitrary: E' J')
    case 0
    with inv assms(9) show ?case by simp
  next
    case (Suc n)
    then obtain E1 J1 where "(work lb (mount_ops iops) ^^ n) (E, J) (E1, J1)"
      "work lb (mount_ops iops) (E1, J1) (E', J')" by auto
    with Suc.IH library_work [OF _ _ assms(5)] show ?case by metis
  qed
  note w = mount.work_bound [OF assms(10) _ assms(5,8)]
  have "0 < o_Workers (e_opt E')" using inv' by (simp add: library_inv_def engine_New_def)
  then have "(\<exists>y. work lb (mount_ops iops) (E', J') y) \<or> e_queue E' = [] \<and> J' = []"
    using mount.work_progress [of E' J' lb iops] w inv assms(7) by (auto simp: library_inv_def)
  moreover have "e_queued E' = {} \<and> e_building E' = 0 \<and> mount.settled lb E' p"
    if "e_queue E' = []" "J' = []"
    using mount.idle_settled [of lb E' J' p] w inv that
    by (simp add: library_inv_def engine_inv_def queue_ok_def)
  moreover have "case map_of (e_clips E') p of
        None \<Rightarrow> \<forall>q l. view iops (r_tree (e_sink E')) q \<noteq> Some (ClipNode p l)
      | Some st \<Rightarrow>
          s_state (k_status st) = StateError
          \<and> (\<forall>q l. view iops (r_tree (e_sink E')) q \<noteq> Some (ClipNode p l))
          \<or> (\<exists>l t. k_status st = statusOf (e_opt E') l \<and> k_ready st = Some l
               \<and> view iops (r_tree (e_sink E')) (mkv_of p) = Some (ClipNode p l)
               \<and> view iops (r_tree (e_sink E')) (nfo_of p) =
                   map_option (\<lambda>d. StaticNode d t) (clip_nfo lb (k_clip st)))"
    if "mount.settled lb E' p"
  proof -
    have "reach iops f0 D (e_sink E')" "r_mounted (e_sink E')" using inv' by (simp_all add: library_inv_def)
    note t = mounted_clip [OF assms(1-4) this]
    from that show ?thesis
      using t(2,3) [OF t(4), of p] unfolding mount.settled_def t(1)
      by (auto split: option.splits)
  qed
  ultimately show ?thesis using w inv by (auto simp: library_inv_def)
qed

text \<open>C7: A finished clip survives a restart.  What \<open>build\<close> returns was made for the clip's
  times, and it is in the index; a later engine that meets the same clip and source publishes
  that very layout at once, with nothing queued.  \<open>encoding/json\<close> is assumed to decode what it
  encoded, and the source and the data file to be unchanged.\<close>

theorem build_survives_restart:
  assumes "build lb opt be fs c input key = (fs', Inr l)" "lib_ok lb"
    and "\<And>tmp. w_create (be_save be) = Inr tmp \<Longrightarrow> tmp \<noteq> indexPath opt key"
    and "\<And>b. lb_marshal lb l = Inr b \<Longrightarrow> lb_unmarshal lb b = Inr (l\<lparr>l_offsets := []\<rparr>)"
    and "\<And>b m. fs' (indexPath opt key) = Some (b, m) \<Longrightarrow> os_ReadFile os (indexPath opt key) = Inr b"
    and "ResolveInput (lb_ul lb) os (o_MediaRoot opt) (c_input c) = Inr (f_path (l_origin l))"
    and "Stat (stat_text lb os) (f_path (l_origin l)) = Inr (l_origin l)" "dataValid lb os l"
    and "e_opt E = opt" "e_file E = Some fl" "map_of (e_clips E) p = None"
  shows "l_start l = c_start c \<and> l_end l = c_end c \<and>
    applyClip lb (mount_ops iops) os p c E =
      E\<lparr>e_sink := SetClip iops p l (clip_nfo lb c)
           (case fl_mtime fl of Some t \<Rightarrow> t | None \<Rightarrow> l_built l) (e_sink E),
        e_clips := AList.update p \<lparr>k_clip = c, k_input = f_path (l_origin l), k_key = key,
           k_status = statusOf opt l, k_ready = Some l\<rparr> (e_clips E)\<rparr>"
proof -
  obtain origin l0 where b: "clipKey lb c origin = key" "Finalize l0 = (l, None)"
    "l_origin l0 = origin" "l_start l0 = c_start c" "l_end l0 = c_end c"
    using build_Inr [OF assms(1)] save_layout_Inr(1) by metis
  have l: "l_origin l = origin" "l_start l = c_start c" "l_end l = c_end c"
    using Finalize_fields [OF b(2)] b by simp_all
  have "key \<noteq> []" using clipKey_nonempty [OF assms(2)] b(1) by blast
  with assms(6-11) b(1) l show ?thesis
    by (simp add: applyClip_def renew_clip_def zero_state_def build_loaded [OF assms(1,3-5)]
        publish_def put_clip_def mount_ops_def clip_nfo_def)
qed

text \<open>C10: After \<open>Apply\<close> the engine knows exactly the clips of the file, unless it waits for a full
  queue: a clip that \<open>Validate\<close> accepts is known under its path; a path that only rejected
  clips have is in error, with the messages of one of them, and not shown; any other path is
  unknown and not shown.\<close>

theorem Apply_follows_file:
  assumes "reachable lb (mount_ops iops) opt sink (E, J)" "lib_ok lb" "root_clips sink = Map.empty"
    and "is_order ord" "e_stuck (Apply lb (mount_ops iops) os os_at ord fl E) = None"
    and "vs = Validate (lb_ul lb) os (fl_clips fl) (o_MediaRoot (e_opt E))"
  shows "case filter (\<lambda>i. Path (fl_clips fl ! i) = p \<and> problems_of vs i = []) [0..<length (fl_clips fl)] of
      i # rest \<Rightarrow> rest = [] \<and> (\<exists>st. map_of (e_clips (Apply lb (mount_ops iops) os os_at ord fl E)) p = Some st
        \<and> k_clip st = fl_clips fl ! i)
    | [] \<Rightarrow> root_clips (e_sink (Apply lb (mount_ops iops) os os_at ord fl E)) p = None \<and>
        (case map_of (e_clips (Apply lb (mount_ops iops) os os_at ord fl E)) p of
           None \<Rightarrow> p \<notin> Path ` set (fl_clips fl)
         | Some st \<Rightarrow> \<exists>i < length (fl_clips fl). Path (fl_clips fl ! i) = p \<and> problems_of vs i \<noteq> []
             \<and> st = zero_state\<lparr>k_status := error_status (ErrInvalid (problems_of vs i))\<rparr>)"
proof -
  let ?cs = "fl_clips fl" and ?E = "Apply lb (mount_ops iops) os os_at ord fl E"
  let ?is = "filter (\<lambda>i. Path (?cs ! i) = p \<and> problems_of vs i = []) [0..<length ?cs]"
  have inv: "engine_inv lb root_clips E J"
    using mount.reachable_inv [OF assms(1,2)] assms(3) by simp
  obtain want invalid where s: "split_clips vs 0 ?cs ([], []) = (want, invalid)" by fastforce
  note W = split_clips_want [OF s] and V = split_clips_invalid [OF s]
  note R = mount.Apply_result [OF inv assms(4) s [unfolded assms(6)] assms(5), of p]
  show ?thesis
  proof (cases ?is)
    case Nil
    then have none: "problems_of vs i \<noteq> []" if "i < length ?cs" "Path (?cs ! i) = p" for i
      using that by (auto simp: filter_empty_conv)
    then have "map_of want p = None" using W by (cases "map_of want p") auto
    note R = R [unfolded this option.case]
    show ?thesis
    proof (cases "map_of invalid p")
      case None
      have "p \<noteq> Path c" if "c \<in> set ?cs" for c
        using V none that None by (auto simp: in_set_conv_nth)
      with R None Nil show ?thesis by auto
    next
      case (Some m)
      then obtain j where "j < length ?cs" "Path (?cs ! j) = p" "problems_of vs j = m" "m \<noteq> []"
        using V by auto
      with Some R Nil show ?thesis by auto
    qed
  next
    case (Cons i rest)
    then have "i \<in> set ?is" by simp
    then have i: "i < length ?cs" "Path (?cs ! i) = p" "problems_of vs i = []" by simp_all
    then obtain c where c: "map_of want p = Some c" using W by fastforce
    then obtain j where j: "j < length ?cs" "?cs ! j = c" "Path c = p" "problems_of vs j = []"
      using W by auto
    have one: "k = i" if "k < length ?cs" "Path (?cs ! k) = p" "problems_of vs k = []" for k
      using valid_paths_differ [of "lb_ul lb" os ?cs] that i assms(6) by metis
    have "rest = []"
    proof (rule ccontr)
      assume "rest \<noteq> []"
      then obtain k where "k \<in> set rest" by fastforce
      moreover have "distinct ?is" by simp
      ultimately have "k \<noteq> i" "k \<in> set ?is" unfolding Cons by auto
      then show False using one by auto
    qed
    with one [OF j(1)] j c R Cons show ?thesis by auto
  qed
qed

section \<open>An engine at work\<close>

text \<open>One clip of a source that is not Matroska: it is queued, remuxed and published.\<close>

definition demo_options :: options where
  "demo_options = \<lparr>o_MediaRoot = ''/m'', o_CacheDir = ''/c'', o_FFmpeg = [], o_Workers = 1,
     o_RemuxTimeout = 0, o_RecheckPeriod = 0\<rparr>"

definition demo_origin :: FileID where
  "demo_origin = \<lparr>f_path = ''/m/F - [720p].ts'', f_size = 4, f_mtime = 0\<rparr>"

definition demo_data :: FileID where
  "demo_data = \<lparr>f_path = ''/c/remux/000000.mkv'', f_size = 3, f_mtime = 7\<rparr>"

definition demo_remuxed :: layout where
  "demo_remuxed = \<lparr>l_version = 1, l_kind = KindRemux, l_origin = demo_origin, l_data = demo_data,
     l_start = Fin 1, l_end = Fin 5, l_actual_start = Fin 1, l_actual_end = Fin 5, l_size = 3,
     l_built = 9, l_parts = [Range 0 3], l_offsets = [0]\<rparr>"

definition demo_lib :: lib where
  "demo_lib = \<lparr>lb_ul = id, lb_sha256 = (\<lambda>_. [0, 0, 0]), lb_keyJSON = (\<lambda>_. []),
     lb_metaJSON = (\<lambda>(t, m). if m \<noteq> None \<or> t \<noteq> []
       then 1 # bytes_of (Generate (\<lambda>_. []) t (case m of None \<Rightarrow> [] | Some m \<Rightarrow> m) (ValidKey id)) else []),
     lb_statusJSON = (\<lambda>_. Inr []), lb_marshal = (\<lambda>_. Inr [7]),
     lb_unmarshal = (\<lambda>_. Inr (demo_remuxed\<lparr>l_offsets := []\<rparr>)),
     lb_scalar = (\<lambda>_. []), lb_fmt3 = (\<lambda>_. []), lb_sort = id, lb_oor = (\<lambda>_. 0), lb_text = (\<lambda>_. [])\<rparr>"

definition demo_file :: clips_file where
  "demo_file = \<lparr>fl_clips = [demo_clip], fl_mtime = Some 8, fl_version = []\<rparr>"

text \<open>The system after the build: the remuxed file and its index entry exist.\<close>

definition demo_after :: os where
  "demo_after = demo_os\<lparr>
     os_Stat := (\<lambda>p. if p = ''/c/remux/000000.mkv''
       then Inr \<lparr>fi_regular = True, fi_dir = False, fi_size = 3, fi_mtime = 7\<rparr> else os_Stat demo_os p),
     os_ReadFile := (\<lambda>p. if p = ''/c/index/000000.json'' then Inr [7] else Inl NotExist)\<rparr>"

definition demo_build :: build_env where
  "demo_build = \<lparr>be_open = (\<lambda>_. Inr (\<lambda>_ _. ([], None))), be_os = demo_os, be_now = 9,
     be_run = (\<lambda>args fs. (fs(last args \<mapsto> ([1, 2, 3], 0)), None)), be_rename = None,
     be_os_after = demo_after, be_save = demo_env\<lparr>w_write := None\<rparr>, be_remove = None\<rparr>"

lemma demo_lib_ok: "lib_ok demo_lib"
  by (auto simp: lib_ok_def demo_lib_def metadataEqual_def clip_nfo_def split: if_splits)

lemma demo_key: "clipKey demo_lib c origin = ''000000''"
  by (simp add: clipKey_def demo_lib_def hex_string_def hex_digit_def)

lemma demo_cache_paths:
  assumes "o_CacheDir opt = ''/c''"
  shows "indexPath opt ''000000'' = ''/c/index/000000.json''"
    "remuxPath opt ''000000'' = ''/c/remux/000000.mkv''"
    "remux_tmp opt ''000000'' = ''/c/remux/.000000.tmp.mkv''"
  using Join_abs_names [of "[''c'']" "[''index'', ''000000.json'']"]
    Join_abs_names [of "[''c'']" "[''remux'', ''000000.mkv'']"]
    Dir_abs_names [of "[''c'', ''remux'']" "''000000.mkv''"]
    Join_abs_names [of "[''c'', ''remux'']" "[''.000000.tmp.mkv'']"]
  by (simp_all add: indexPath_def remuxPath_def remux_tmp_def assms abs_of_def is_plain_def
      is_name_def)

lemma demo_input:
  "ResolveInput id demo_os ''/m'' (c_input demo_clip) = Inr ''/m/F - [720p].ts''"
  "Stat (stat_text demo_lib demo_os) ''/m/F - [720p].ts'' = Inr demo_origin"
proof -
  show "ResolveInput id demo_os ''/m'' (c_input demo_clip) = Inr ''/m/F - [720p].ts''" by code_simp
  show "Stat (stat_text demo_lib demo_os) ''/m/F - [720p].ts'' = Inr demo_origin" by code_simp
qed

definition demo_pending :: clip_state where
  "demo_pending = \<lparr>k_clip = demo_clip, k_input = ''/m/F - [720p].ts'', k_key = ''000000'',
     k_status = zero_status\<lparr>s_state := StatePending\<rparr>, k_ready = None\<rparr>"

definition demo_queued :: "'s \<Rightarrow> 's engine" where
  "demo_queued s = (engine_New demo_options s)\<lparr>e_clips := [(''G/A'', demo_pending)],
     e_file := Some demo_file, e_queue := [''G/A''], e_queued := {''G/A''}, e_dirty := True\<rparr>"

lemma demo_Path: "Path demo_clip = ''G/A''"
  by (simp add: Path_def demo_clip_def trim_char_def)

lemma demo_lib_simps [simp]: "lb_ul demo_lib = id" "o_MediaRoot demo_options = ''/m''"
  "o_CacheDir demo_options = ''/c''"
  by (simp_all add: demo_lib_def demo_options_def)

lemma demo_Apply:
  "Apply demo_lib ops demo_os (\<lambda>_. demo_os) (\<lambda>_ xs. xs) demo_file (engine_New demo_options s) =
   demo_queued s"
proof -
  let ?E = "(engine_New demo_options s)\<lparr>e_file := Some demo_file\<rparr>"
  have "Load (read_text demo_lib demo_os) (lb_unmarshal demo_lib) path = Inl (OSError [])" for path
    by (simp add: Load_def read_text_def demo_os_def demo_lib_def)
  then have "applyClip demo_lib ops demo_os ''G/A'' demo_clip ?E = (demo_queued s)\<lparr>e_dirty := False\<rparr>"
    by (simp add: applyClip_def renew_clip_def engine_New_def demo_input demo_key zero_state_def
        put_clip_def enqueue_def queue_size_def demo_queued_def demo_pending_def)
  then show ?thesis
    by (simp add: Apply_def demo_file_def demo_Validate problems_of_def demo_Path engine_New_def
        want_clip_def) (simp add: demo_queued_def engine_New_def demo_file_def)
qed

lemma demo_index_law: "index_law demo_lib opt demo_os"
  by (simp add: index_law_def Load_def read_text_def demo_os_def)

lemma demo_save:
  assumes "o_CacheDir opt = ''/c''"
  shows "save_layout demo_lib opt demo_build fs ''000000''
      (demo_remuxed\<lparr>l_size := 0, l_offsets := []\<rparr>) =
    (fs(''.a.1'' := None, ''/c/index/000000.json'' \<mapsto> ([7], 0x1A4)), Inr demo_remuxed)"
proof -
  have "Finalize (demo_remuxed\<lparr>l_size := 0, l_offsets := []\<rparr>) = (demo_remuxed, None)"
    by (simp add: Finalize_def demo_remuxed_def demo_data_def Range_def wrap64_nonneg)
  moreover have "lb_marshal demo_lib demo_remuxed = Inr [7]" by (simp add: demo_lib_def)
  ultimately show ?thesis
    by (simp add: save_layout_def Save_def demo_cache_paths [OF assms] demo_build_def demo_env_def
        WriteFileAtomic_def Let_def fun_upd_twist)
qed

lemma demo_build:
  assumes "o_CacheDir opt = ''/c''"
  shows "build demo_lib opt demo_build Map.empty demo_clip ''/m/F - [720p].ts'' ''000000'' =
    ([''/c/remux/000000.mkv'' \<mapsto> ([1, 2, 3], 0), ''/c/index/000000.json'' \<mapsto> ([7], 0x1A4)],
     Inr demo_remuxed)"
proof -
  have ext: "ToLower id (path_Ext ''/m/F - [720p].ts'') \<notin> set matroskaExt" by code_simp
  have st: "Stat (stat_text demo_lib demo_after) ''/c/remux/000000.mkv'' = Inr demo_data"
    by (simp add: Stat_def stat_text_def demo_after_def demo_data_def)
  let ?l = "new_layout demo_origin demo_clip 9"
  have l: "?l\<lparr>l_kind := KindRemux, l_data := demo_data, l_actual_start := c_start demo_clip,
      l_actual_end := c_end demo_clip, l_parts := [Range 0 (f_size demo_data)]\<rparr>
    = demo_remuxed\<lparr>l_size := 0, l_offsets := []\<rparr>"
    by (simp add: new_layout_def demo_remuxed_def demo_clip_def FormatVersion_def demo_data_def)
  have run: "remux_run demo_lib demo_build c i tmp fs = (fs(tmp \<mapsto> ([1, 2, 3], 0)), None)" for c i tmp fs
    by (simp add: remux_run_def demo_build_def remux_args_def)
  have env: "be_rename demo_build = None" "be_os_after demo_build = demo_after"
    "be_remove demo_build = None" "be_os demo_build = demo_os" "be_now demo_build = 9"
    "be_open demo_build i = Inr (\<lambda>_ _. ([], None))" for i
    by (simp_all add: demo_build_def)
  have r: "remux demo_lib opt demo_build Map.empty demo_clip ''/m/F - [720p].ts'' ''000000'' ?l =
    ([''/c/remux/000000.mkv'' \<mapsto> ([1, 2, 3], 0), ''/c/index/000000.json'' \<mapsto> ([7], 0x1A4)],
     Inr demo_remuxed)"
    by (simp add: remux_def run env st l demo_save [OF assms] demo_cache_paths [OF assms] fun_eq_iff)
  show ?thesis by (simp add: build_def env demo_input demo_key ext r del: fun_upd_apply)
qed

inductive_cases work_idleE: "work lb ops (E, []) y"

definition demo_started :: "'s \<Rightarrow> 's engine" where
  "demo_started s = (demo_queued s)\<lparr>e_started := True\<rparr>"

definition demo_done :: "'s sink_ops \<Rightarrow> 's \<Rightarrow> 's engine" where
  "demo_done ops s = finish_build demo_lib ops ''G/A'' ''000000'' (Inr demo_remuxed)
     ((demo_started s)\<lparr>e_queue := [], e_queued := {}, e_building := 1\<rparr>)"

lemma demo_opt:
  "e_opt (demo_started s) = demo_options\<lparr>o_FFmpeg := ''ffmpeg'', o_RemuxTimeout := 1800000000000\<rparr>"
  by (simp add: demo_started_def demo_queued_def engine_New_def demo_options_def)

lemma demo_steps:
  "work demo_lib ops (demo_started s, []) ((demo_started s)\<lparr>e_queue := []\<rparr>, [Received ''G/A''])"
  "work demo_lib ops ((demo_started s)\<lparr>e_queue := []\<rparr>, [Received ''G/A''])
    ((demo_started s)\<lparr>e_queue := [], e_queued := {}, e_building := 1\<rparr>,
     [Building ''G/A'' demo_clip ''/m/F - [720p].ts'' ''000000''])"
  "work demo_lib ops ((demo_started s)\<lparr>e_queue := [], e_queued := {}, e_building := 1\<rparr>,
     [Building ''G/A'' demo_clip ''/m/F - [720p].ts'' ''000000'']) (demo_done ops s, [])"
proof -
  let ?E0 = "demo_started s" and ?E1 = "(demo_started s)\<lparr>e_queue := []\<rparr>"
    and ?E2 = "(demo_started s)\<lparr>e_queue := [], e_queued := {}, e_building := 1\<rparr>"
  have c: "e_clips ?E0 = [(''G/A'', demo_pending)]" "e_queue ?E0 = [''G/A'']" "e_queued ?E0 = {''G/A''}"
    "e_building ?E0 = 0" "e_stuck ?E0 = None" "e_started ?E0"
    by (simp_all add: demo_started_def demo_queued_def engine_New_def)
  have "receive ?E0 = Some (''G/A'', ?E1)" using c by (simp add: receive_def)
  then show "work demo_lib ops (?E0, []) (?E1, [Received ''G/A''])"
    using c by (intro work.receive) (simp_all add: demo_opt demo_options_def)
  have "begin_build ''G/A'' ?E1 = (?E2, Some (demo_clip, ''/m/F - [720p].ts'', ''000000''))"
    using c by (simp add: begin_build_def demo_pending_def)
  from work.begin_build [OF _ _ this, of "[Received ''G/A'']"] c
  show "work demo_lib ops (?E1, [Received ''G/A''])
    (?E2, [Building ''G/A'' demo_clip ''/m/F - [720p].ts'' ''000000''])" by simp
  have "o_CacheDir (e_opt ?E2) = ''/c''" by (simp add: demo_opt)
  from work.finish [OF _ _ demo_build [OF this],
      of "''G/A''" "[Building ''G/A'' demo_clip ''/m/F - [720p].ts'' ''000000'']"] c
  show "work demo_lib ops (?E2, [Building ''G/A'' demo_clip ''/m/F - [720p].ts'' ''000000''])
    (demo_done ops s, [])" by (simp add: demo_done_def)
qed

lemma demo_reachable:
  "reachable demo_lib ops demo_options s (engine_New demo_options s, [])"
  "reachable demo_lib ops demo_options s (demo_started s, [])"
  "reachable demo_lib ops demo_options s (demo_done ops s, [])"
proof -
  let ?R = "reachable demo_lib ops demo_options s"
  show r0: "?R (engine_New demo_options s, [])" by (rule reachable.init)
  have n: "e_stuck (engine_New demo_options s) = None" "e_stuck (demo_queued s) = None"
    by (simp_all add: engine_New_def demo_queued_def)
  have "is_order (\<lambda>_ xs. xs)" by (simp add: is_order_def)
  from engine_step.apply_file [OF n(1) this, of demo_lib "\<lambda>_. demo_os" ops "[]" demo_os demo_file]
  have "engine_step demo_lib ops (engine_New demo_options s, []) (demo_queued s, [])"
    unfolding demo_Apply using demo_index_law .
  with r0 have r1: "?R (demo_queued s, [])" by (rule reachable.step)
  have "Start [] (\<lambda>_. None) Map.empty (demo_queued s) = (Map.empty, demo_started s)"
    by (simp add: Start_def demo_started_def)
  from engine_step.start [OF n(2) this] r1 show r2: "?R (demo_started s, [])"
    by (rule_tac reachable.step)
  show "?R (demo_done ops s, [])"
    by (rule reachable.step [OF reachable.step [OF reachable.step [OF r2
        engine_step.work [OF demo_steps(1)]] engine_step.work [OF demo_steps(2)]]
        engine_step.work [OF demo_steps(3)]])
qed

lemma demo_sink: "root_clips (New 1 1 False 0 empty_heap) = Map.empty"
  by (simp add: root_clips_def New_def fun_eq_iff)

lemma demo_done_clips:
  "map_of (e_clips (demo_done ops s)) ''G/A'' = Some (demo_pending
     \<lparr>k_ready := Some demo_remuxed, k_status := statusOf (e_opt (demo_started s)) demo_remuxed\<rparr>)"
  "e_stuck (demo_done ops s) = None" "e_queue (demo_done ops s) = []"
  by (simp_all add: demo_done_def finish_build_def demo_started_def demo_queued_def Let_def
      publish_def demo_pending_def put_clip_def engine_New_def)

text \<open>The same run on a mount, from the start of the program on.\<close>

definition demo_mounted :: "heap root" where
  "demo_mounted = OnAdd heap_ops [] (New 1 1 False 0 empty_heap)"

lemma demo_conflict: "conflict_free {''G/A''}"
  by (simp add: conflict_free_def clip_path_def elements_def dirs_of_def mkv_of_def nfo_of_def
      name_of_def is_plain_def is_name_def)

lemma demo_library:
  "library demo_lib heap_ops demo_options empty_heap {''G/A''} (demo_started demo_mounted, [])"
  "library demo_lib heap_ops demo_options empty_heap {''G/A''}
     (demo_done (mount_ops heap_ops) demo_mounted, [])"
proof -
  let ?s = "New 1 1 False 0 empty_heap" and ?L = "library demo_lib heap_ops demo_options empty_heap {''G/A''}"
  have l0: "?L (engine_New demo_options ?s, [])" by (rule library.new)
  have "is_order (\<lambda>_ xs. xs)" by (simp add: is_order_def)
  moreover have "names_in demo_lib (e_opt (engine_New demo_options ?s)) {''G/A''} demo_os demo_file"
    by (simp add: names_in_def valid_clips_def demo_file_def demo_Validate engine_New_def demo_Path)
  ultimately have "?L (Apply demo_lib (mount_ops heap_ops) demo_os (\<lambda>_. demo_os) (\<lambda>_ xs. xs) demo_file
      (engine_New demo_options ?s), [])"
    by (intro library.apply_file [OF l0 _ _ demo_index_law]) (simp_all add: engine_New_def)
  then have "?L (demo_queued ?s, [])" by (simp only: demo_Apply)
  then have "?L ((demo_queued ?s)\<lparr>e_sink := OnAdd heap_ops [] (e_sink (demo_queued ?s))\<rparr>, [])"
    by (rule library.mount) (simp_all add: demo_queued_def engine_New_def New_def)
  then have l2: "?L (demo_queued demo_mounted, [])"
    by (simp add: demo_queued_def engine_New_def demo_mounted_def)
  have "Start [] (\<lambda>_. None) Map.empty (demo_queued demo_mounted) = (Map.empty, demo_started demo_mounted)"
    by (simp add: Start_def demo_started_def)
  from library.start [OF l2 _ this] show l3: "?L (demo_started demo_mounted, [])"
    by (simp add: demo_queued_def engine_New_def)
  show "?L (demo_done (mount_ops heap_ops) demo_mounted, [])"
    by (rule library.work [OF library.work [OF library.work [OF l3 demo_steps(1)] demo_steps(2)] demo_steps(3)])
qed

lemma demo_mkv: "mkv_of ''G/A'' = [''G'', ''A.mkv'']"
  by (simp add: mkv_of_def dirs_of_def name_of_def elements_def)

lemma demo_is_mounted: "r_mounted (e_sink (demo_started demo_mounted))"
  "r_mounted (e_sink (demo_done (mount_ops heap_ops) demo_mounted))"
  by (simp_all add: demo_done_def finish_build_def demo_started_def demo_queued_def Let_def
      publish_def demo_pending_def put_clip_def engine_New_def demo_mounted_def OnAdd_def mount_ops_def
      SetClip_entries demo_file_def)

theorem engine_shows_ready_clips_witness:
  "view heap_ops (r_tree (e_sink (demo_done (mount_ops heap_ops) demo_mounted))) [''G'', ''A.mkv''] =
     Some (ClipNode ''G/A'' demo_remuxed)"
proof -
  have t: "inode_tree heap_ops heap_wf" by unfold_locales
  note e = engine_shows_ready_clips [OF t empty_heap_fresh demo_conflict demo_lib_ok demo_library(2),
      of "''G/A''" "[''G'', ''A.mkv'']" demo_remuxed]
  show ?thesis using e demo_is_mounted(2) unfolding demo_done_clips by (simp add: demo_mkv)
qed

theorem engine_settles_witness:
  "view heap_ops (r_tree (e_sink (demo_done (mount_ops heap_ops) demo_mounted))) (mkv_of ''G/A'') =
     Some (ClipNode ''G/A'' demo_remuxed)"
proof -
  let ?ops = "mount_ops heap_ops"
  let ?W = "work demo_lib ?ops"
  have t: "inode_tree heap_ops heap_wf" by unfold_locales
  have "(?W ^^ 3) (demo_started demo_mounted, []) (demo_done ?ops demo_mounted, [])"
    using demo_steps [of ?ops demo_mounted] by (auto simp: numeral_3_eq_3)
  from engine_settles [OF t empty_heap_fresh demo_conflict demo_lib_ok demo_library(1) _ _ demo_is_mounted(1)
      this, of "''G/A''"]
  moreover have "\<not> ?W (demo_done ?ops demo_mounted, []) y" for y
    by (auto simp: receive_def demo_done_clips elim: work_idleE)
  ultimately show ?thesis
    by (auto simp: demo_started_def demo_queued_def engine_New_def demo_done_clips)
qed

theorem build_survives_restart_witness:
  "applyClip demo_lib (mount_ops heap_ops) demo_after ''G/A'' demo_clip
      ((engine_New demo_options (New 1 1 False 0 empty_heap))\<lparr>e_file := Some demo_file\<rparr>) =
    (engine_New demo_options (SetClip heap_ops ''G/A'' demo_remuxed (clip_nfo demo_lib demo_clip) 8
      (New 1 1 False 0 empty_heap)))\<lparr>e_file := Some demo_file,
      e_clips := [(''G/A'', \<lparr>k_clip = demo_clip, k_input = ''/m/F - [720p].ts'', k_key = ''000000'',
        k_status = statusOf (e_opt (demo_started ())) demo_remuxed, k_ready = Some demo_remuxed\<rparr>)]\<rparr>"
proof -
  let ?opt = "e_opt (demo_started ())" and ?s = "New 1 1 False 0 empty_heap"
  let ?E = "(engine_New demo_options ?s)\<lparr>e_file := Some demo_file\<rparr>"
  have c: "o_CacheDir ?opt = ''/c''" "o_MediaRoot ?opt = ''/m''" by (simp_all add: demo_opt)
  have o: "f_path (l_origin demo_remuxed) = ''/m/F - [720p].ts''" "l_origin demo_remuxed = demo_origin"
    "f_path demo_origin = ''/m/F - [720p].ts''" "l_data demo_remuxed = demo_data"
    by (simp_all add: demo_remuxed_def demo_origin_def)
  have input: "ResolveInput id demo_after ''/m'' (c_input demo_clip) = Inr ''/m/F - [720p].ts''"
    by code_simp
  have st: "Stat (stat_text demo_lib demo_after) ''/m/F - [720p].ts'' = Inr demo_origin" by code_simp
  have dv: "dataValid demo_lib demo_after demo_remuxed"
    by (simp add: dataValid_def o Stat_def stat_text_def demo_after_def demo_data_def)
  have rd: "os_ReadFile demo_after ''/c/index/000000.json'' = Inr [7]" by (simp add: demo_after_def)
  have e: "e_opt ?E = ?opt" "map_of (e_clips ?E) ''G/A'' = None"
    by (simp_all add: engine_New_def demo_opt demo_options_def)
  have "applyClip demo_lib (mount_ops heap_ops) demo_after ''G/A'' demo_clip ?E = ?E\<lparr>
      e_sink := SetClip heap_ops ''G/A'' demo_remuxed (clip_nfo demo_lib demo_clip)
        (case fl_mtime demo_file of Some t \<Rightarrow> t | None \<Rightarrow> l_built demo_remuxed) (e_sink ?E),
      e_clips := AList.update ''G/A'' \<lparr>k_clip = demo_clip, k_input = f_path (l_origin demo_remuxed),
        k_key = ''000000'', k_status = statusOf ?opt demo_remuxed, k_ready = Some demo_remuxed\<rparr> (e_clips ?E)\<rparr>"
  proof (rule build_survives_restart [THEN conjunct2, THEN conjunct2, OF demo_build [OF c(1)] demo_lib_ok])
    show "w_create (be_save demo_build) = Inr tmp \<Longrightarrow> tmp \<noteq> indexPath ?opt ''000000''" for tmp
      by (auto simp: demo_build_def demo_env_def demo_cache_paths [OF c(1)])
    show "lb_unmarshal demo_lib b = Inr (demo_remuxed\<lparr>l_offsets := []\<rparr>)" for b
      by (simp add: demo_lib_def)
  qed (use input st dv e rd in \<open>simp_all add: o c demo_cache_paths [OF c(1)]\<close>)
  then show ?thesis by (simp add: o engine_New_def demo_file_def demo_origin_def)
qed

theorem Apply_follows_file_witness:
  "\<exists>st. map_of (e_clips (demo_queued (New 1 1 False 0 empty_heap :: heap root))) ''G/A'' = Some st
     \<and> k_clip st = demo_clip"
proof -
  let ?s = "New 1 1 False 0 empty_heap" and ?ops = "mount_ops heap_ops"
  let ?E = "engine_New demo_options ?s"
  have "is_order (\<lambda>_ xs. xs)" by (simp add: is_order_def)
  moreover have "e_stuck (Apply demo_lib ?ops demo_os (\<lambda>_. demo_os) (\<lambda>_ xs. xs) demo_file ?E) = None"
    unfolding demo_Apply by (simp add: demo_queued_def engine_New_def)
  moreover have "[] = Validate (lb_ul demo_lib) demo_os (fl_clips demo_file) (o_MediaRoot (e_opt ?E))"
    by (simp add: demo_file_def engine_New_def demo_Validate)
  ultimately show ?thesis
    using Apply_follows_file [OF demo_reachable(1) demo_lib_ok demo_sink, where ord = "\<lambda>_ xs. xs"
        and os = demo_os and os_at = "\<lambda>_. demo_os" and fl = demo_file and vs = "[]" and p = "''G/A''"]
    unfolding demo_Apply by (simp add: demo_file_def demo_Path problems_of_def)
qed

section \<open>A message that is lost\<close>

text \<open>When a clip becomes invalid while its path waits in the queue, a worker builds the empty
  clip in its place, and the reason why the clip is invalid is replaced by the failure to open
  the empty path.\<close>

lemma invalid_message_lost:
  assumes "map_of (e_clips E) p = Some (zero_state\<lparr>k_status := error_status (ErrInvalid msgs)\<rparr>)"
    and "e_queue E = p # q" "e_started E" "e_stuck E = None" "0 < o_Workers (e_opt E)"
    and "be_open (be :: build_env) [] = Inl e"
  shows "\<exists>E'. (work lb ops ^^ 3) (E, []) (E', [])
    \<and> map_of (e_clips E') p = Some (zero_state\<lparr>k_status := error_status (ErrOs e)\<rparr>)"
proof -
  let ?E1 = "E\<lparr>e_queue := q\<rparr>"
  let ?E2 = "?E1\<lparr>e_queued := e_queued E - {p}, e_building := e_building E + 1\<rparr>"
  let ?E3 = "finish_build lb ops p [] (Inl (ErrOs e)) ?E2"
  have "receive E = Some (p, ?E1)" using assms(2) by (simp add: receive_def)
  from work.receive [OF assms(4,3) _ this, of "[]" lb ops] assms(5)
  have 1: "work lb ops (E, []) (?E1, [Received p])" by simp
  have "begin_build p ?E1 = (?E2, Some (zero_clip, [], []))"
    using assms(1) by (simp add: begin_build_def zero_state_def)
  from work.begin_build [OF _ _ this, of "[Received p]" lb ops] assms(4)
  have 2: "work lb ops (?E1, [Received p]) (?E2, [Building p zero_clip [] []])" by simp
  have "build lb (e_opt ?E2) be fs zero_clip [] [] = (fs, Inl (ErrOs e))" for fs
    using assms(6) by (simp add: build_def)
  from work.finish [OF _ _ this, of p "[Building p zero_clip [] []]" ops] assms(4)
  have 3: "work lb ops (?E2, [Building p zero_clip [] []]) (?E3, [])" by simp
  have "map_of (e_clips ?E3) p = Some (zero_state\<lparr>k_status := error_status (ErrOs e)\<rparr>)"
    using assms(1) by (simp add: finish_build_def zero_state_def)
  with 1 2 3 show ?thesis by (intro exI [of _ ?E3]) (auto simp: numeral_3_eq_3)
qed

section \<open>What housekeeping deletes\<close>

text \<open>What happens to a file that the other goroutines leave alone meanwhile.\<close>

definition untouched :: "(string \<Rightarrow> fs \<Rightarrow> fs) \<Rightarrow> string \<Rightarrow> bool" where
  "untouched others p \<longleftrightarrow> (\<forall>q fs. others q fs p = fs p)"

lemma clean_entries_at:
  assumes "untouched others p"
  shows "clean_entries others rm keep cache dir names fs p =
     (if \<exists>name \<in> set names. p = path_Join [cache, dir, name] \<and> \<not> kept_entry keep name \<and> rm p = None
      then None else fs p)"
  using assms by (induction names arbitrary: fs) (auto simp: Let_def untouched_def)

lemma cleanCache_at:
  assumes "untouched others p"
  shows "cleanCache os_at others rm E fs p =
     (if rm p = None \<and> (\<exists>dir \<in> {''index'', ''remux''}. \<exists>es name.
        os_ReadDir (os_at dir) (path_Join [o_CacheDir (e_opt E), dir]) = Inr es
        \<and> name \<in> d_name ` set es \<and> p = path_Join [o_CacheDir (e_opt E), dir, name]
        \<and> \<not> kept_entry (map (\<lambda>(_, st). k_key st) (e_clips E)) name)
      then None else fs p)"
proof -
  let ?cache = "o_CacheDir (e_opt E)" and ?keep = "map (\<lambda>(_, st). k_key st) (e_clips E)"
  define hit where "hit dir \<longleftrightarrow> (\<exists>es name. os_ReadDir (os_at dir) (path_Join [?cache, dir]) = Inr es
      \<and> name \<in> d_name ` set es \<and> p = path_Join [?cache, dir, name] \<and> \<not> kept_entry ?keep name)" for dir
  have one: "(case os_ReadDir (os_at dir) (path_Join [?cache, dir]) of Inl _ \<Rightarrow> s
      | Inr es \<Rightarrow> clean_entries others rm ?keep ?cache dir (map d_name es) s) p
    = (if rm p = None \<and> hit dir then None else s p)" for dir s
    by (auto simp: clean_entries_at [OF assms] hit_def split: sum.split)
  have "cleanCache os_at others rm E fs p = (if rm p = None \<and> (hit ''index'' \<or> hit ''remux'') then None else fs p)"
    unfolding cleanCache_def Let_def foldl_Cons foldl_Nil one by auto
  then show ?thesis by (simp add: hit_def)
qed

lemma entry_key_index:
  assumes "CHR ''.'' \<notin> set key"
  shows "entry_key (key @ ''.json'') = key" "entry_key (key @ ''.mkv'') = key"
proof -
  have no: "TrimSuffix s suf = s" if "\<not> HasSuffix s suf" for s suf using that by (simp add: TrimSuffix_def)
  have "\<not> HasSuffix key ''.mkv''" 
    using assms in_set_dropD [of "CHR ''.''" "length key - 4" key]
    by (auto simp: HasSuffix_def numeral_eq_Suc)
  moreover have "\<not> HasSuffix (key @ ''.mkv'') ''.json''"
    by (cases key rule: rev_cases) (auto simp: HasSuffix_def)
  moreover have "TrimSuffix (key @ suf) suf = key" for suf
    by (simp add: TrimSuffix_def HasSuffix_def)
  ultimately show "entry_key (key @ ''.json'') = key" "entry_key (key @ ''.mkv'') = key"
    by (simp_all add: entry_key_def no)
qed

lemma clipKey_chars:
  "CHR ''.'' \<notin> set (clipKey lb c origin)" "slash \<notin> set (clipKey lb c origin)"
  using hex_chars [of "CHR ''.''"] hex_no_slash by (auto simp: clipKey_def)

lemma cache_names:
  assumes "slash \<notin> set key"
  shows "snd (path_Split (indexPath opt key)) = key @ ''.json''"
    "snd (path_Split (remuxPath opt key)) = key @ ''.mkv''"
  unfolding indexPath_def remuxPath_def
  using Join_last [of "key @ ''.json''" "[o_CacheDir opt, ''index'']"]
    Join_last [of "key @ ''.mkv''" "[o_CacheDir opt, ''remux'']"] assms
  by (auto simp: is_plain_def is_name_def append_eq_Cons_conv)

text \<open>C17: \<open>cleanCache\<close> deletes only entries of the two cache directories whose name is a key of 32
  characters that no clip had at the moment when it read the keys.  The index entry and the
  remuxed file of a clip stay when the clip, or one with the same key, was there at that
  moment, whatever the other goroutines do to the engine and to other files while the
  directories are read and the entries removed without the mutex; temporary files stay, too.
  Directory entries are names, as the system promises.  A clip that becomes current only
  after that moment is not protected.\<close>

theorem cleanCache_keeps_current:
  assumes "\<And>dir. os_ok (os_at dir)" "(q, st) \<in> set (e_clips E)" "k_key st = clipKey lb c origin"
    and "p = indexPath opt (clipKey lb c origin) \<or> p = remuxPath opt (clipKey lb c origin)"
    and "\<And>q fs. others q fs p = fs p" "\<And>q fs. others q fs p' = fs p'"
  shows "cleanCache os_at others rm E fs p = fs p
    \<and> (cleanCache os_at others rm E fs p' = fs p' \<or> cleanCache os_at others rm E fs p' = None
       \<and> rm p' = None \<and> (\<exists>sub \<in> {''index'', ''remux''}. \<exists>name.
            p' = path_Join [o_CacheDir (e_opt E), sub, name]
            \<and> \<not> HasPrefix name ''.'' \<and> length (entry_key name) = 32
            \<and> entry_key name \<notin> (\<lambda>(_, st). k_key st) ` set (e_clips E)))"
proof -
  let ?key = "clipKey lb c origin" and ?keep = "map (\<lambda>(_, st). k_key st) (e_clips E)"
  have cur: "kept_entry ?keep name" if "entry_key name = ?key" for name
    using assms(2,3) that by (force simp: kept_entry_def)
  have stays: False if "name \<in> d_name ` set es" "os_ReadDir (os_at dir) dir' = Inr es"
    "p = path_Join [cache, dir, name]" "\<not> kept_entry ?keep name" for name es cache dir dir'
  proof -
    have "is_name name" using that(1,2) assms(1) by (fastforce simp: os_ok_def)
    moreover have "\<not> HasPrefix name ''.''" using that(4) by (simp add: kept_entry_def)
    ultimately have "is_plain name" by (auto simp: is_plain_def HasPrefix_def)
    then have "snd (path_Split p) = name" using Join_last [of name "[cache, dir]"] unfolding that(3) by simp
    then have "name = ?key @ ''.json'' \<or> name = ?key @ ''.mkv''"
      using cache_names [OF clipKey_chars(2)] assms(4) by metis
    with cur that(4) entry_key_index [OF clipKey_chars(1)] show False by metis
  qed
  have "\<not> (\<exists>dir \<in> {''index'', ''remux''}. \<exists>es name.
        os_ReadDir (os_at dir) (path_Join [o_CacheDir (e_opt E), dir]) = Inr es
        \<and> name \<in> d_name ` set es \<and> p = path_Join [o_CacheDir (e_opt E), dir, name]
        \<and> \<not> kept_entry ?keep name)"
    using stays by blast
  then have "cleanCache os_at others rm E fs p = fs p"
    by (simp only: cleanCache_at [of others p, unfolded untouched_def, OF allI [OF allI [OF assms(5)]]]
        simp_thms if_False)
  moreover have "untouched others p'" by (simp add: untouched_def assms(6))
  ultimately show ?thesis by (auto simp: cleanCache_at kept_entry_def)
qed

theorem cleanCache_keeps_current_witness:
  "cleanCache (\<lambda>_. demo_os) (\<lambda>_ fs. fs) (\<lambda>_. None)
      (demo_done (mount_ops heap_ops) (New 1 1 False 0 empty_heap))
     [''/c/remux/000000.mkv'' \<mapsto> ([1], 0)] ''/c/remux/000000.mkv'' = Some ([1], 0)"
proof -
  let ?E = "demo_done (mount_ops heap_ops) (New 1 1 False 0 empty_heap)"
  let ?st = "demo_pending\<lparr>k_ready := Some demo_remuxed,
    k_status := statusOf (e_opt (demo_started (New 1 1 False 0 empty_heap))) demo_remuxed\<rparr>"
  have "(''G/A'', ?st) \<in> set (e_clips ?E)" by (rule map_of_SomeD [OF demo_done_clips(1)])
  moreover have "k_key ?st = clipKey demo_lib demo_clip demo_origin"
    by (simp add: demo_pending_def demo_key)
  moreover have "''/c/remux/000000.mkv'' = remuxPath demo_options (clipKey demo_lib demo_clip demo_origin)"
    by (simp add: demo_key demo_cache_paths)
  ultimately show ?thesis
    using cleanCache_keeps_current [OF demo_os_ok, of "''G/A''" ?st ?E demo_lib demo_clip demo_origin
        "''/c/remux/000000.mkv''" demo_options "\<lambda>_ fs. fs" "''/c/remux/000000.mkv''" "\<lambda>_. None"
        "[''/c/remux/000000.mkv'' \<mapsto> ([1], 0)]"]
    by simp
qed

text \<open>The gap between reading the keys and removing the entries: a clip whose layout is found in
  the index right after \<open>cleanCache\<close> released the mutex is published, and then its index entry
  and its remuxed file are removed.  The mount serves a clip whose data file is gone, until
  its next open or recheck notices and queues it again.\<close>

lemma cleanCache_races:
  assumes "key = clipKey lb c origin" "length key = 32"
    and "\<And>q st. (q, st) \<in> set (e_clips E0) \<Longrightarrow> k_key st \<noteq> key"
    and "os_ReadDir (os_at ''remux'') (path_Join [o_CacheDir (e_opt E0), ''remux'']) = Inr es"
    and "key @ ''.mkv'' \<in> d_name ` set es" "rm (remuxPath (e_opt E0) key) = None"
    and "untouched others (remuxPath (e_opt E0) key)"
  shows "cleanCache os_at others rm E0 fs (remuxPath (e_opt E0) key) = None"
proof -
  let ?name = "key @ ''.mkv''"
  have k: "entry_key ?name = key" using entry_key_index(2) clipKey_chars(1) assms(1) by simp
  have "key \<noteq> []" using assms(2) by auto
  then have "\<not> HasPrefix ?name ''.''"
    using clipKey_chars(1) [of lb c origin] unfolding assms(1) [symmetric]
    by (cases key) (auto simp: HasPrefix_def)
  with k assms(2,3) have "\<not> kept_entry (map (\<lambda>(_, st). k_key st) (e_clips E0)) ?name"
    by (auto simp: kept_entry_def)
  then show ?thesis
    using assms(4-6) unfolding cleanCache_at [OF assms(7)] by (auto simp: remuxPath_def)
qed

end
