(* ===== verification/Ui.thy ===== *)
theory Ui
  imports Mkv Config Backup "HOL-Library.AList"
begin

text \<open>
  \<^verbatim>\<open>internal/ui/server.go\<close>: the API of the clip manager.  A handler is a function of the files
  and of the request that returns the files after it and the response; \<open>uenv\<close> holds what it
  uses of the system and of libraries for this request.  Error texts are constructors.
\<close>

section \<open>Requests and responses\<close>

record ui_options =
  uo_ConfigPath :: string
  uo_MediaRoot :: string
  uo_StatusPath :: string
  uo_FFmpeg :: string
  uo_FFprobe :: string
  uo_Backup :: "backup option"

definition ui_New :: "ui_options \<Rightarrow> ui_options" where
  "ui_New opt =
     opt\<lparr>uo_FFmpeg := (if uo_FFmpeg opt = [] then ''ffmpeg'' else uo_FFmpeg opt),
         uo_FFprobe := (if uo_FFprobe opt = [] then ''ffprobe'' else uo_FFprobe opt)\<rparr>"

text \<open>A header or query parameter that is absent is empty.\<close>

record request =
  q_method :: string
  q_path :: string
  q_site :: string
  q_ctype :: string
  q_query :: "string \<Rightarrow> string"
  q_body :: "byte list"

record clips_response =
  cr_clips :: "clip_def list"
  cr_version :: string
  cr_status :: "byte list"
  cr_nfo_types :: "string list"
  cr_backup :: "backup_status option"

record put_request =
  pr_clips :: "clip_def list"
  pr_version :: string

record browse_entry =
  be_name :: string
  be_dir :: bool
  be_size :: int

datatype probe_note = NoNote | NoteErr mkv_err | NoteCopied

record probe_response =
  pb_duration :: f64
  pb_keyframes :: "f64 list"
  pb_byte_range :: bool
  pb_note :: probe_note
  pb_resolved :: string

datatype msg =
    Msg string
  | MsgDecode string
  | MsgLoad load_err
  | MsgSave string
  | MsgInput input_err
  | MsgTime string
  | MsgTemp string

datatype body =
    BText string
  | BError msg
  | BProblems "(nat \<times> problem) list"
  | BClips clips_response
  | BVersion string
  | BEntries string "browse_entry list"
  | BProbe probe_response
  | BBytes "byte list"

record response =
  rs_code :: nat
  rs_headers :: "(string \<times> string) list"
  rs_body :: body

text \<open>The system and the libraries: \<open>u_os fs\<close> is the system with the files \<open>fs\<close>; \<open>u_request\<close>
  decodes the body of a request, at most 8 MiB, without unknown fields; \<open>u_float\<close> gives the
  number and whether it was malformed or out of range; \<open>u_sort less\<close> is \<open>sort.Slice\<close>;
  \<open>u_slot\<close> tells whether one of the two slots for ffmpeg is free before the request ends;
  \<open>u_meanwhile\<close> is what other processes write between the load and the save of a PUT, and
  \<open>u_remove\<close> the outcome of removing the temporary file of a preview, which is ignored.\<close>

record uenv =
  u_os :: "fs \<Rightarrow> os"
  u_bo :: backup_os
  u_ul :: "string \<Rightarrow> string"
  u_sha256 :: "byte list \<Rightarrow> byte list"
  u_decode :: "byte list \<Rightarrow> string + clip_def list"
  u_marshal :: "clip_def list \<Rightarrow> string + byte list"
  u_request :: "byte list \<Rightarrow> string + put_request"
  u_media_type :: "string \<Rightarrow> string"
  u_json_valid :: "byte list \<Rightarrow> bool"
  u_write :: write_env
  u_sort :: "(browse_entry \<Rightarrow> browse_entry \<Rightarrow> bool) \<Rightarrow> browse_entry list \<Rightarrow> browse_entry list"
  u_cues :: "cue_point list \<Rightarrow> cue_point list"
  u_open :: "string \<Rightarrow> os_err + (reader \<times> int)"
  u_probe :: "string \<Rightarrow> string list \<Rightarrow> string + string"
  u_ffmpeg :: "string \<Rightarrow> string list \<Rightarrow> fs \<Rightarrow> fs \<times> (string + byte list)"
  u_slot :: bool
  u_float :: "string \<Rightarrow> f64 \<times> bool"
  u_fmt3 :: "f64 \<Rightarrow> string"
  u_temp :: "string + string"
  u_remove :: "string option"
  u_meanwhile :: "fs \<Rightarrow> fs"
  u_static :: "request \<Rightarrow> response"

definition writeJSON :: "nat \<Rightarrow> body \<Rightarrow> response" where
  "writeJSON code v =
     \<lparr>rs_code = code, rs_headers = [(''Content-Type'', ''application/json''),
        (''Cache-Control'', ''no-store'')], rs_body = v\<rparr>"

definition writeError :: "nat \<Rightarrow> msg \<Rightarrow> response" where
  "writeError code m = writeJSON code (BError m)"

section \<open>The clips\<close>

definition getClips :: "uenv \<Rightarrow> ui_options \<Rightarrow> fs \<Rightarrow> response" where
  "getClips u opt fs =
     (case config_Load (u_os u fs) (u_sha256 u) (u_decode u) (uo_ConfigPath opt) of
        Inl e \<Rightarrow> writeError 500 (MsgLoad e)
      | Inr f \<Rightarrow>
          let status = (case os_ReadFile (u_os u fs) (uo_StatusPath opt) of
                  Inr b \<Rightarrow> if u_json_valid u b then b else [0x7B, 0x7D]
                | Inl _ \<Rightarrow> [0x7B, 0x7D])
          in writeJSON 200 (BClips \<lparr>cr_clips = fl_clips f, cr_version = fl_version f,
               cr_status = status, cr_nfo_types = NfoTypes,
               cr_backup = (case uo_Backup opt of None \<Rightarrow> None
                 | Some b \<Rightarrow> Some (backup_Status (u_bo u) fs b))\<rparr>))"

text \<open>The part of \<open>putClips\<close> that runs under the mutex.  The mutex holds off the other requests of
  this server, but no other process: the clips file may change between the load and the save.\<close>

definition put_locked :: "uenv \<Rightarrow> ui_options \<Rightarrow> put_request \<Rightarrow> fs \<Rightarrow> fs \<times> response" where
  "put_locked u opt req fs =
     (case config_Load (u_os u fs) (u_sha256 u) (u_decode u) (uo_ConfigPath opt) of
        Inl e \<Rightarrow> (fs, writeError 500 (MsgLoad e))
      | Inr cur \<Rightarrow>
          if pr_version req \<noteq> fl_version cur
          then (fs, writeError 409 (Msg ''the clips were changed elsewhere; reload and reapply your edits''))
          else (case config_Save (u_marshal u) (u_sha256 u) (u_write u) (u_meanwhile u fs)
                      (uo_ConfigPath opt) (pr_clips req) of
              (states, Inl e) \<Rightarrow> (last states, writeError 500 (MsgSave e))
            | (states, Inr v) \<Rightarrow> (last states, writeJSON 200 (BVersion v))))"

text \<open>Decoding and validation come first and change nothing; \<open>fs\<close> are the files then.\<close>

definition put_checked :: "uenv \<Rightarrow> ui_options \<Rightarrow> request \<Rightarrow> fs \<Rightarrow> response + put_request" where
  "put_checked u opt r fs =
     (case u_request u (q_body r) of
        Inl e \<Rightarrow> Inl (writeError 400 (MsgDecode e))
      | Inr req \<Rightarrow>
          let ps = Validate (u_ul u) (u_os u fs) (pr_clips req) (uo_MediaRoot opt)
          in if ps \<noteq> [] then Inl (writeJSON 422 (BProblems ps)) else Inr req)"

definition putClips :: "uenv \<Rightarrow> ui_options \<Rightarrow> request \<Rightarrow> fs \<Rightarrow> fs \<times> response" where
  "putClips u opt r fs =
     (case put_checked u opt r fs of
        Inl resp \<Rightarrow> (fs, resp)
      | Inr req \<Rightarrow> put_locked u opt req fs)"

section \<open>Browsing\<close>

text \<open>\<open>mediaDir\<close> returns \<open>None\<close> for its errors, which the caller does not tell apart.\<close>

definition mediaDir :: "os \<Rightarrow> string \<Rightarrow> string \<Rightarrow> string option" where
  "mediaDir os mediaRoot rel =
     (case os_EvalSymlinks os mediaRoot of
        Inl _ \<Rightarrow> None
      | Inr mroot \<Rightarrow>
          (case os_EvalSymlinks os (path_Join [mroot, Clean (''/'' @ rel)]) of
             Inl _ \<Rightarrow> None
           | Inr resolved \<Rightarrow>
               (case path_Rel mroot resolved of
                  None \<Rightarrow> None
                | Some r \<Rightarrow> if r = ''..'' \<or> HasPrefix r ''../'' then None else Some resolved)))"

text \<open>The body of the loop over the folder's entries.\<close>

definition browse_one :: "uenv \<Rightarrow> os \<Rightarrow> string \<Rightarrow> string \<Rightarrow> browse_entry list" where
  "browse_one u os dir name =
     (if HasPrefix name ''.'' then []
      else (case os_Stat os (path_Join [dir, name]) of
          Inl _ \<Rightarrow> []
        | Inr info \<Rightarrow>
            if fi_dir info then [\<lparr>be_name = name, be_dir = True, be_size = 0\<rparr>]
            else if ToLower (u_ul u) (path_Ext name) \<in> set VideoExts
            then [\<lparr>be_name = name, be_dir = False, be_size = fi_size info\<rparr>]
            else []))"

definition browse_less :: "(string \<Rightarrow> string) \<Rightarrow> browse_entry \<Rightarrow> browse_entry \<Rightarrow> bool" where
  "browse_less ul a b =
     (if be_dir a \<noteq> be_dir b then be_dir a
      else ToLower ul (be_name a) < ToLower ul (be_name b))"

definition browse :: "uenv \<Rightarrow> ui_options \<Rightarrow> request \<Rightarrow> fs \<Rightarrow> response" where
  "browse u opt r fs =
     (let os = u_os u fs;
          rel = trim_char slash (Clean (''/'' @ q_query r ''path''))
      in case mediaDir os (uo_MediaRoot opt) rel of
           None \<Rightarrow> writeError 404 (Msg ''folder not found'')
         | Some dir \<Rightarrow>
             (case os_ReadDir os dir of
                Inl _ \<Rightarrow> writeError 404 (Msg ''folder not readable'')
              | Inr ents \<Rightarrow>
                  let out = concat (map (\<lambda>e. browse_one u os dir (d_name e)) ents)
                  in writeJSON 200 (BEntries rel (u_sort u (browse_less (u_ul u)) out))))"

section \<open>Media\<close>

definition parseSeconds :: "uenv \<Rightarrow> string \<Rightarrow> f64 \<Rightarrow> msg + f64" where
  "parseSeconds u v limit =
     (case u_float u v of (f, bad) \<Rightarrow>
        if bad \<or> f = NaN \<or> f64_less f (Fin 0) \<or> f64_less limit f then Inl (MsgTime v) else Inr f)"

text \<open>\<open>run\<close>: ffmpeg in one of the two slots; \<open>None\<close> is an error.\<close>

definition run_ffmpeg :: "uenv \<Rightarrow> ui_options \<Rightarrow> string list \<Rightarrow> fs \<Rightarrow> fs \<times> byte list option" where
  "run_ffmpeg u opt args fs =
     (if \<not> u_slot u then (fs, None)
      else (case u_ffmpeg u (uo_FFmpeg opt)
                 ([''-nostdin'', ''-hide_banner'', ''-loglevel'', ''error''] @ args) fs of
          (fs', Inl _) \<Rightarrow> (fs', None)
        | (fs', Inr out) \<Rightarrow> (fs', Some out)))"

definition matroska_ext :: "string \<Rightarrow> bool" where
  "matroska_ext ext \<longleftrightarrow> ext = ''.mkv'' \<or> ext = ''.webm'' \<or> ext = ''.mk3d''"

text \<open>What \<open>probe\<close> learns from the file itself.\<close>

definition probe_file :: "uenv \<Rightarrow> string \<Rightarrow> probe_response \<Rightarrow> probe_response" where
  "probe_file u p resp =
     (if matroska_ext (ToLower (u_ul u) (path_Ext p))
      then (case u_open u p of
          Inl _ \<Rightarrow> resp
        | Inr (f, sz) \<Rightarrow>
            (case Open (u_cues u) f sz of
               Inr src \<Rightarrow> resp\<lparr>pb_duration := DurationSeconds src, pb_keyframes := Keyframes src,
                   pb_byte_range := True\<rparr>
             | Inl e \<Rightarrow> resp\<lparr>pb_note := NoteErr e\<rparr>))
      else resp)"

definition probe :: "uenv \<Rightarrow> ui_options \<Rightarrow> request \<Rightarrow> fs \<Rightarrow> response" where
  "probe u opt r fs =
     (let input = q_query r ''path''
      in case ResolveInput (u_ul u) (u_os u fs) (uo_MediaRoot opt) input of
           Inl e \<Rightarrow> writeError 400 (MsgInput e)
         | Inr p \<Rightarrow>
             let resp0 = \<lparr>pb_duration = Fin 0, pb_keyframes = [], pb_byte_range = False,
                   pb_note = NoNote,
                   pb_resolved = (if path_Base p \<noteq> path_Base input
                     then Relative (uo_MediaRoot opt) p else [])\<rparr>;
                 resp = probe_file u p resp0
             in if pb_duration resp = Fin 0
                then (case u_probe u (uo_FFprobe opt) [''-v'', ''error'', ''-show_entries'',
                         ''format=duration'', ''-of'', ''default=nw=1:nk=1'', p] of
                    Inl _ \<Rightarrow> writeError 400 (Msg ''can't read this file as video'')
                  | Inr out \<Rightarrow>
                      writeJSON 200 (BProbe (resp\<lparr>pb_duration := fst (u_float u (TrimSpace out)),
                        pb_note := (if pb_note resp = NoNote then NoteCopied else pb_note resp)\<rparr>)))
                else writeJSON 200 (BProbe resp))"

definition frame_args :: "uenv \<Rightarrow> f64 \<Rightarrow> string \<Rightarrow> string list" where
  "frame_args u t p =
     [''-ss'', u_fmt3 u t, ''-i'', p, ''-frames:v'', ''1'',
      ''-vf'', ''scale=640:-2:out_range=full,format=yuvj420p'',
      ''-f'', ''image2'', ''-c:v'', ''mjpeg'', ''-q:v'', ''5'', ''pipe:1'']"

definition media_response :: "string \<Rightarrow> byte list \<Rightarrow> response" where
  "media_response ctype b =
     \<lparr>rs_code = 200, rs_headers = [(''Content-Type'', ctype),
        (''Cache-Control'', ''private, max-age=3600'')], rs_body = BBytes b\<rparr>"

definition frame :: "uenv \<Rightarrow> ui_options \<Rightarrow> request \<Rightarrow> fs \<Rightarrow> fs \<times> response" where
  "frame u opt r fs =
     (case ResolveInput (u_ul u) (u_os u fs) (uo_MediaRoot opt) (q_query r ''path'') of
        Inl e \<Rightarrow> (fs, writeError 400 (MsgInput e))
      | Inr p \<Rightarrow>
          (case parseSeconds u (q_query r ''t'') (Fin (48 * 3600)) of
             Inl e \<Rightarrow> (fs, writeError 400 e)
           | Inr t \<Rightarrow>
               (case run_ffmpeg u opt (frame_args u t p) fs of
                  (fs', Some []) \<Rightarrow>
                    (fs', writeError 422 (Msg ''no frame at this time (is it past the end of the video?)''))
                | (fs', None) \<Rightarrow> (fs', writeError 500 (Msg ''couldn't extract a frame''))
                | (fs', Some img) \<Rightarrow> (fs', media_response ''image/jpeg'' img))))"

definition preview_args :: "uenv \<Rightarrow> f64 \<Rightarrow> f64 \<Rightarrow> string \<Rightarrow> string \<Rightarrow> string list" where
  "preview_args u start dur p tmp =
     [''-ss'', u_fmt3 u start, ''-i'', p, ''-t'', u_fmt3 u dur, ''-map'', ''0:v:0'',
      ''-map'', ''0:a:0?'', ''-vf'', ''scale=-2:480'', ''-c:v'', ''libx264'', ''-preset'',
      ''veryfast'', ''-crf'', ''28'', ''-pix_fmt'', ''yuv420p'', ''-c:a'', ''aac'', ''-ac'', ''2'',
      ''-b:a'', ''128k'', ''-movflags'', ''+faststart'', ''-f'', ''mp4'', ''-y'', tmp]"

text \<open>The whole video is the body; \<open>http.ServeContent\<close> may send a part of it.\<close>

definition preview :: "uenv \<Rightarrow> ui_options \<Rightarrow> request \<Rightarrow> fs \<Rightarrow> fs \<times> response" where
  "preview u opt r fs =
     (case ResolveInput (u_ul u) (u_os u fs) (uo_MediaRoot opt) (q_query r ''path'') of
        Inl e \<Rightarrow> (fs, writeError 400 (MsgInput e))
      | Inr p \<Rightarrow>
          (case parseSeconds u (q_query r ''start'') (Fin (48 * 3600)) of
             Inl e \<Rightarrow> (fs, writeError 400 e)
           | Inr start \<Rightarrow>
               (case parseSeconds u (q_query r ''dur'') (Fin 30) of
                  Inl _ \<Rightarrow> (fs, writeError 400 (Msg ''dur must be 1-30 seconds''))
                | Inr dur \<Rightarrow>
                    if f64_less dur (Fin 1)
                    then (fs, writeError 400 (Msg ''dur must be 1-30 seconds''))
                    else (case u_temp u of
                        Inl e \<Rightarrow> (fs, writeError 500 (MsgTemp e))
                      | Inr tmp \<Rightarrow>
                          (case run_ffmpeg u opt (preview_args u start dur p tmp)
                                 (fs(tmp \<mapsto> ([], 0x180))) of
                             (fs1, ok) \<Rightarrow>
                               (if u_remove u = None then fs1(tmp := None) else fs1,
                                (case (if ok = None then None else fs1 tmp) of
                                   None \<Rightarrow> writeError 500 (Msg ''couldn't build a preview'')
                                 | Some (video, _) \<Rightarrow> media_response ''video/mp4'' video)))))))"

section \<open>The server\<close>

datatype handler = HStatic | HHealth | HGetClips | HPutClips | HBrowse | HProbe | HFrame | HPreview

text \<open>The patterns of \<open>New\<close>: a GET pattern also serves HEAD, and \<open>GET /\<close> every other path.
  \<open>None\<close> is a method that no pattern for the path allows.\<close>

definition route :: "string \<Rightarrow> string \<Rightarrow> handler option" where
  "route meth path =
     (if meth = ''GET'' \<or> meth = ''HEAD''
      then Some (if path = ''/healthz'' then HHealth
        else if path = ''/api/clips'' then HGetClips
        else if path = ''/api/browse'' then HBrowse
        else if path = ''/api/probe'' then HProbe
        else if path = ''/api/frame'' then HFrame
        else if path = ''/api/preview'' then HPreview
        else HStatic)
      else if meth = ''PUT'' \<and> path = ''/api/clips'' then Some HPutClips
      else None)"

definition handle :: "uenv \<Rightarrow> ui_options \<Rightarrow> request \<Rightarrow> fs \<Rightarrow> fs \<times> response" where
  "handle u opt r fs =
     (case route (q_method r) (q_path r) of
        None \<Rightarrow> (fs, \<lparr>rs_code = 405, rs_headers = [], rs_body = BText ''Method Not Allowed''\<rparr>)
      | Some HStatic \<Rightarrow> (fs, u_static u r)
      | Some HHealth \<Rightarrow> (fs, \<lparr>rs_code = 200, rs_headers = [], rs_body = BText (''ok'' @ [CHR 0x0A])\<rparr>)
      | Some HGetClips \<Rightarrow> (fs, getClips u opt fs)
      | Some HPutClips \<Rightarrow> putClips u opt r fs
      | Some HBrowse \<Rightarrow> (fs, browse u opt r fs)
      | Some HProbe \<Rightarrow> (fs, probe u opt r fs)
      | Some HFrame \<Rightarrow> frame u opt r fs
      | Some HPreview \<Rightarrow> preview u opt r fs)"

definition security_headers :: "(string \<times> string) list" where
  "security_headers =
     [(''Content-Security-Policy'',
       ''default-src 'self'; img-src 'self' blob:; media-src 'self' blob:; ''
       @ ''style-src 'self'; script-src 'self'; object-src 'none'; frame-ancestors 'none'; ''
       @ ''base-uri 'none'; form-action 'self'' @ [CHR 0x27]),
      (''X-Content-Type-Options'', ''nosniff''),
      (''Referrer-Policy'', ''same-origin''),
      (''X-Frame-Options'', ''DENY'')]"

definition ServeHTTP :: "uenv \<Rightarrow> ui_options \<Rightarrow> request \<Rightarrow> fs \<Rightarrow> fs \<times> response" where
  "ServeHTTP u opt r fs =
     (let serve = (\<lambda>(fs', resp). (fs', resp\<lparr>rs_headers := security_headers @ rs_headers resp\<rparr>))
      in serve
        (if q_method r \<noteq> ''GET'' \<and> q_method r \<noteq> ''HEAD'' then
           (if q_site r \<noteq> [] \<and> q_site r \<noteq> ''same-origin''
            then (fs, writeError 403 (Msg ''cross-site request refused''))
            else if u_media_type u (q_ctype r) \<noteq> ''application/json''
            then (fs, writeError 415 (Msg ''content type must be application/json''))
            else handle u opt r fs)
         else handle u opt r fs))"

section \<open>Properties\<close>

text \<open>What the file system gives for the clips file.\<close>

definition clips_view :: "uenv \<Rightarrow> string \<Rightarrow> bool" where
  "clips_view u path \<longleftrightarrow>
     (\<forall>fs. case fs path of
        None \<Rightarrow> os_ReadFile (u_os u fs) path = Inl NotExist
      | Some (b, _) \<Rightarrow> os_ReadFile (u_os u fs) path = Inr b
          \<and> (\<exists>info. os_Stat (u_os u fs) path = Inr info))"

lemma config_Save_cases:
  assumes "config_Save m sha env fs path cs = (states, r)"
    and "\<And>tmp. w_create env = Inr tmp \<Longrightarrow> fs tmp = None \<and> tmp \<noteq> path"
  shows "case r of
      Inl e \<Rightarrow> \<forall>q. w_remove env = None \<or> w_create env \<noteq> Inr q \<longrightarrow> last states q = fs q
    | Inr v \<Rightarrow> \<exists>b. m cs = Inr b \<and> v = Version sha (b @ [0x0A])
        \<and> last states = fs(path \<mapsto> (b @ [0x0A], 0x1B4))"
proof (cases "Encode m cs")
  case (Inl e)
  with assms(1) show ?thesis by (auto simp: config_Save_def)
next
  case (Inr b)
  obtain st err where w: "WriteFileAtomic env fs path b 0x1B4 = (st, err)" by fastforce
  note W = WriteFileAtomic_states(3,4) [OF assms(2) w]
  from Inr obtain b' where b: "m cs = Inr b'" "b = b' @ [0x0A]"
    by (auto simp: Encode_def split: sum.splits)
  show ?thesis
  proof (cases err)
    case None
    with assms(1) Inr w b W(1) show ?thesis by (auto simp: config_Save_def)
  next
    case (Some e)
    with W(2) have "\<forall>q. w_remove env = None \<or> w_create env \<noteq> Inr q \<longrightarrow> last st q = fs q" by auto
    with Some assms(1) Inr w show ?thesis by (auto simp: config_Save_def)
  qed
qed

lemma put_locked_cases:
  assumes "put_locked u opt req fs = (fs', resp)"
    and "\<And>tmp. w_create (u_write u) = Inr tmp \<Longrightarrow> u_meanwhile u fs tmp = None \<and> tmp \<noteq> uo_ConfigPath opt"
  shows "rs_code resp \<noteq> 200 \<and> (fs' = fs \<or> (\<forall>q. w_remove (u_write u) = None \<or> w_create (u_write u) \<noteq> Inr q
        \<longrightarrow> fs' q = u_meanwhile u fs q))
    \<or> rs_code resp = 200 \<and> (\<exists>cur b.
        config_Load (u_os u fs) (u_sha256 u) (u_decode u) (uo_ConfigPath opt) = Inr cur
        \<and> fl_version cur = pr_version req \<and> u_marshal u (pr_clips req) = Inr b
        \<and> fs' = (u_meanwhile u fs)(uo_ConfigPath opt \<mapsto> (b @ [0x0A], 0x1B4))
        \<and> rs_body resp = BVersion (Version (u_sha256 u) (b @ [0x0A])))"
proof (cases "config_Load (u_os u fs) (u_sha256 u) (u_decode u) (uo_ConfigPath opt)")
  case (Inl e)
  with assms(1) show ?thesis by (auto simp: put_locked_def writeError_def writeJSON_def)
next
  case (Inr cur)
  obtain states r where s: "config_Save (u_marshal u) (u_sha256 u) (u_write u) (u_meanwhile u fs)
      (uo_ConfigPath opt) (pr_clips req) = (states, r)" by fastforce
  note c = config_Save_cases [OF s assms(2)]
  show ?thesis
  proof (cases r)
    case (Inl e)
    with c Inr s assms(1) show ?thesis
      by (auto simp: put_locked_def writeError_def writeJSON_def split: if_splits)
  next
    case (Inr v)
    with c \<open>config_Load _ _ _ _ = Inr cur\<close> s assms(1) show ?thesis
      by (auto simp: put_locked_def writeError_def writeJSON_def split: if_splits)
  qed
qed

lemma Load_version:
  assumes "clips_view u path" "fs1 path = fs path"
    and "config_Load (u_os u fs) sha dec path = Inr cur"
  shows "\<exists>c. config_Load (u_os u fs1) sha dec path = Inr c \<and> fl_version c = fl_version cur"
proof (cases "fs path")
  case None
  then have "os_ReadFile (u_os u fs) path = Inl NotExist" "os_ReadFile (u_os u fs1) path = Inl NotExist"
    using assms(1) [unfolded clips_view_def, rule_format, of fs]
      assms(1) [unfolded clips_view_def, rule_format, of fs1] assms(2) by simp_all
  with assms(3) show ?thesis by (simp add: config_Load_def)
next
  case (Some x)
  then obtain b m where x: "fs path = Some (b, m)" by (cases x) auto
  then obtain i j where "os_ReadFile (u_os u fs) path = Inr b" "os_Stat (u_os u fs) path = Inr i"
    "os_ReadFile (u_os u fs1) path = Inr b" "os_Stat (u_os u fs1) path = Inr j"
    using assms(1) [unfolded clips_view_def, rule_format, of fs]
      assms(1) [unfolded clips_view_def, rule_format, of fs1] assms(2) by auto
  with assms(3) show ?thesis by (auto simp: config_Load_def split: sum.splits)
qed

text \<open>C34: Saving the clips does not lose an update of another request.  A request is answered with
  200 only when its clips are valid and the version it is based on is that of the file which the
  server loads under its mutex, whatever was saved between the check and the load; as long as
  no other process writes the clips file between this load and the rename, that is the version
  of the file that is replaced.  The file then holds its clips, as \<open>encoding/json\<close> writes and
  reads them, under the version in the answer, and the request changed nothing else.  With any
  other answer the request changes no file; only its temporary file stays when its removal
  fails, too.  A second request based on the same version is refused with 409 once the version
  changed.  A change that another process makes by hand between the load and the rename is
  overwritten.\<close>

theorem putClips_no_lost_update:
  assumes "put_checked u opt r fs0 = Inr req" "put_locked u opt req fs = (fs', resp)"
    and "\<And>tmp. w_create (u_write u) = Inr tmp \<Longrightarrow> u_meanwhile u fs tmp = None \<and> tmp \<noteq> uo_ConfigPath opt"
    and "clips_view u (uo_ConfigPath opt)"
    and "\<And>b. u_marshal u (pr_clips req) = Inr b \<Longrightarrow> Parse (u_decode u) (b @ [0x0A]) = Inr saved"
  shows "Validate (u_ul u) (u_os u fs0) (pr_clips req) (uo_MediaRoot opt) = []
    \<and> (fs = fs0 \<longrightarrow> putClips u opt r fs = (fs', resp))
    \<and> (if rs_code resp = 200
       then \<exists>cur new.
           config_Load (u_os u fs) (u_sha256 u) (u_decode u) (uo_ConfigPath opt) = Inr cur
         \<and> fl_version cur = pr_version req
         \<and> (u_meanwhile u fs (uo_ConfigPath opt) = fs (uo_ConfigPath opt) \<longrightarrow>
            (\<exists>c. config_Load (u_os u (u_meanwhile u fs)) (u_sha256 u) (u_decode u) (uo_ConfigPath opt) = Inr c
               \<and> fl_version c = pr_version req))
         \<and> config_Load (u_os u fs') (u_sha256 u) (u_decode u) (uo_ConfigPath opt) = Inr new
         \<and> fl_clips new = saved \<and> rs_body resp = BVersion (fl_version new)
         \<and> (p \<noteq> uo_ConfigPath opt \<longrightarrow> fs' p = u_meanwhile u fs p)
         \<and> (pr_version req2 = pr_version req \<and> fl_version new \<noteq> fl_version cur
            \<longrightarrow> fst (put_locked u opt req2 fs') = fs' \<and> rs_code (snd (put_locked u opt req2 fs')) = 409)
       else fs' = fs \<or> (\<forall>q. w_remove (u_write u) = None \<or> w_create (u_write u) \<noteq> Inr q
         \<longrightarrow> fs' q = u_meanwhile u fs q))"
proof -
  have "Validate (u_ul u) (u_os u fs0) (pr_clips req) (uo_MediaRoot opt) = []"
    using assms(1) by (auto simp: put_checked_def Let_def split: sum.splits if_splits)
  moreover have "fs = fs0 \<longrightarrow> putClips u opt r fs = (fs', resp)"
    using assms(1,2) by (auto simp: putClips_def)
  moreover have "\<exists>cur new.
           config_Load (u_os u fs) (u_sha256 u) (u_decode u) (uo_ConfigPath opt) = Inr cur
         \<and> fl_version cur = pr_version req
         \<and> (u_meanwhile u fs (uo_ConfigPath opt) = fs (uo_ConfigPath opt) \<longrightarrow>
            (\<exists>c. config_Load (u_os u (u_meanwhile u fs)) (u_sha256 u) (u_decode u) (uo_ConfigPath opt) = Inr c
               \<and> fl_version c = pr_version req))
         \<and> config_Load (u_os u fs') (u_sha256 u) (u_decode u) (uo_ConfigPath opt) = Inr new
         \<and> fl_clips new = saved \<and> rs_body resp = BVersion (fl_version new)
         \<and> (p \<noteq> uo_ConfigPath opt \<longrightarrow> fs' p = u_meanwhile u fs p)
         \<and> (pr_version req2 = pr_version req \<and> fl_version new \<noteq> fl_version cur
            \<longrightarrow> fst (put_locked u opt req2 fs') = fs' \<and> rs_code (snd (put_locked u opt req2 fs')) = 409)"
    if ok: "rs_code resp = 200"
  proof -
    obtain cur b where c: "config_Load (u_os u fs) (u_sha256 u) (u_decode u) (uo_ConfigPath opt) = Inr cur"
      "fl_version cur = pr_version req" "u_marshal u (pr_clips req) = Inr b"
      "fs' = (u_meanwhile u fs)(uo_ConfigPath opt \<mapsto> (b @ [0x0A], 0x1B4))"
      "rs_body resp = BVersion (Version (u_sha256 u) (b @ [0x0A]))"
      using put_locked_cases [OF assms(2,3)] ok by auto
    obtain info where "os_ReadFile (u_os u fs') (uo_ConfigPath opt) = Inr (b @ [0x0A])"
      "os_Stat (u_os u fs') (uo_ConfigPath opt) = Inr info"
      using assms(4) [unfolded clips_view_def, rule_format, of fs'] by (auto simp: c(4))
    then have n: "config_Load (u_os u fs') (u_sha256 u) (u_decode u) (uo_ConfigPath opt) =
        Inr \<lparr>fl_clips = saved, fl_mtime = Some (fi_mtime info),
          fl_version = Version (u_sha256 u) (b @ [0x0A])\<rparr>"
      by (simp add: config_Load_def assms(5) [OF c(3)])
    then have "pr_version req2 = pr_version req \<and> Version (u_sha256 u) (b @ [0x0A]) \<noteq> fl_version cur
        \<longrightarrow> fst (put_locked u opt req2 fs') = fs' \<and> rs_code (snd (put_locked u opt req2 fs')) = 409"
      using c(2) by (auto simp: put_locked_def writeError_def writeJSON_def)
    with c n Load_version [OF assms(4) _ c(1), of "u_meanwhile u fs"] show ?thesis by auto
  qed
  ultimately show ?thesis using put_locked_cases [OF assms(2,3)] by auto
qed

lemma browse_one_mem:
  "x \<in> set (browse_one u os dir name) \<longleftrightarrow> be_name x = name \<and> \<not> HasPrefix name ''.''
     \<and> (\<exists>info. os_Stat os (path_Join [dir, name]) = Inr info
         \<and> (if fi_dir info then be_dir x \<and> be_size x = 0
            else \<not> be_dir x \<and> be_size x = fi_size info \<and> ToLower (u_ul u) (path_Ext name) \<in> set VideoExts))"
  by (cases "os_Stat os (path_Join [dir, name])"; cases x) (auto simp: browse_one_def)

text \<open>Resolving the links of an absolute path gives a clean absolute path.\<close>

definition links_resolve :: "os \<Rightarrow> bool" where
  "links_resolve os \<longleftrightarrow>
     (\<forall>p q. IsAbs p \<and> os_EvalSymlinks os p = Inr q \<longrightarrow> (\<exists>qs. list_all is_plain qs \<and> q = abs_of qs))"

text \<open>C37: Browsing stays in the media folder.  The folder that is listed is the resolved media
  folder or below it, by plain names; the entries are exactly its directories and video files
  whose names do not start with a dot, each under its own name.  Anything else is answered with
  404.\<close>

theorem browse_confined:
  assumes "links_resolve (u_os u fs)"
    and "IsAbs (uo_MediaRoot opt)" "\<And>less xs. set (u_sort u less xs) = set xs"
  shows "rs_code (browse u opt r fs) = 404 \<or>
    (\<exists>rs ds es rel out. rs_body (browse u opt r fs) = BEntries rel out
      \<and> os_EvalSymlinks (u_os u fs) (uo_MediaRoot opt) = Inr (abs_of rs)
      \<and> list_all is_plain (rs @ ds) \<and> os_ReadDir (u_os u fs) (abs_of (rs @ ds)) = Inr es
      \<and> (x \<in> set out \<longleftrightarrow> be_name x \<in> d_name ` set es \<and> \<not> HasPrefix (be_name x) ''.''
          \<and> (\<exists>info. os_Stat (u_os u fs) (path_Join [abs_of (rs @ ds), be_name x]) = Inr info
              \<and> (if fi_dir info then be_dir x \<and> be_size x = 0
                 else \<not> be_dir x \<and> be_size x = fi_size info
                   \<and> ToLower (u_ul u) (path_Ext (be_name x)) \<in> set VideoExts))))"
proof -
  let ?os = "u_os u fs" and ?rel = "trim_char slash (Clean (''/'' @ q_query r ''path''))"
  show ?thesis
  proof (cases "mediaDir ?os (uo_MediaRoot opt) ?rel")
    case None
    then show ?thesis by (simp add: browse_def Let_def writeError_def writeJSON_def)
  next
    case (Some dir)
    then obtain mr rl where m: "os_EvalSymlinks ?os (uo_MediaRoot opt) = Inr mr"
      "os_EvalSymlinks ?os (path_Join [mr, Clean (''/'' @ ?rel)]) = Inr dir"
      "path_Rel mr dir = Some rl" "rl \<noteq> ''..''" "\<not> HasPrefix rl ''../''"
      by (auto simp: mediaDir_def split: sum.splits option.splits if_splits)
    obtain rs where rs: "list_all is_plain rs" "mr = abs_of rs" 
      using assms(1,2) m(1) by (auto simp: links_resolve_def)
    have "IsAbs (path_Join [mr, Clean (''/'' @ ?rel)])"
      by (auto simp: path_Join_def rs(2) abs_of_def Clean_def Let_def)
    with assms(1) m(2) obtain ts where ts: "list_all is_plain ts" "dir = abs_of ts"
      unfolding links_resolve_def by blast
    have "IsAbs dir" using ts(2) by simp
    from path_Rel_abs [OF rs(1) this m(3) [unfolded rs(2)]] obtain k us where r: "list_all is_plain us" "rl = rel_of k us" "k = 0 \<Longrightarrow> Clean dir = abs_of (rs @ us)"
      by metis
    have "k = 0" using m(4,5) r(2) rel_of_up by (cases k) auto
    moreover have "Clean dir = dir"
      using Clean_abs_of [OF ts(1)] ts(2) by simp
    ultimately have d: "dir = abs_of (rs @ us)" using r(3) by simp
    show ?thesis
    proof (cases "os_ReadDir ?os dir")
      case (Inl e)
      with Some show ?thesis by (simp add: browse_def Let_def writeError_def writeJSON_def)
    next
      case (Inr es)
      let ?out = "concat (map (\<lambda>e. browse_one u ?os dir (d_name e)) es)"
      have "rs_body (browse u opt r fs) = BEntries ?rel (u_sort u (browse_less (u_ul u)) ?out)"
        using Some Inr by (simp add: browse_def Let_def writeJSON_def)
      moreover have "x \<in> set ?out \<longleftrightarrow> be_name x \<in> d_name ` set es \<and> \<not> HasPrefix (be_name x) ''.''
          \<and> (\<exists>info. os_Stat ?os (path_Join [dir, be_name x]) = Inr info
              \<and> (if fi_dir info then be_dir x \<and> be_size x = 0
                 else \<not> be_dir x \<and> be_size x = fi_size info
                   \<and> ToLower (u_ul u) (path_Ext (be_name x)) \<in> set VideoExts))"
      proof -
        have "x \<in> set ?out \<longleftrightarrow> (\<exists>e \<in> set es. x \<in> set (browse_one u ?os dir (d_name e)))" by auto
        also have "\<dots> \<longleftrightarrow> be_name x \<in> d_name ` set es \<and> x \<in> set (browse_one u ?os dir (be_name x))"
          using browse_one_mem [of x u ?os dir] by (metis (no_types, lifting) image_iff)
        finally show ?thesis unfolding browse_one_mem by simp
      qed
      ultimately have "rs_body (browse u opt r fs) =
          BEntries ?rel (u_sort u (browse_less (u_ul u)) ?out)
        \<and> os_EvalSymlinks ?os (uo_MediaRoot opt) = Inr (abs_of rs)
        \<and> list_all is_plain (rs @ us) \<and> os_ReadDir ?os (abs_of (rs @ us)) = Inr es
        \<and> (x \<in> set (u_sort u (browse_less (u_ul u)) ?out)
          \<longleftrightarrow> be_name x \<in> d_name ` set es \<and> \<not> HasPrefix (be_name x) ''.''
          \<and> (\<exists>info. os_Stat ?os (path_Join [abs_of (rs @ us), be_name x]) = Inr info
              \<and> (if fi_dir info then be_dir x \<and> be_size x = 0
                 else \<not> be_dir x \<and> be_size x = fi_size info
                   \<and> ToLower (u_ul u) (path_Ext (be_name x)) \<in> set VideoExts)))"
        using m(1) rs r(1) Inr assms(3) d by simp
      then show ?thesis by (intro disjI2 exI)
    qed
  qed
qed

text \<open>ffmpeg writes only the file that its last argument names.\<close>

definition writes_output :: "uenv \<Rightarrow> ui_options \<Rightarrow> bool" where
  "writes_output u opt \<longleftrightarrow>
     (\<forall>a fs p. p \<noteq> last a \<longrightarrow> fst (u_ffmpeg u (uo_FFmpeg opt) a fs) p = fs p)"

lemma run_ffmpeg_keeps:
  assumes "run_ffmpeg u opt args fs = (fs', out)"
    and "writes_output u opt"
    and "args \<noteq> []" "p \<noteq> last args"
  shows "fs' p = fs p"
proof (cases "u_slot u")
  case True
  let ?a = "[''-nostdin'', ''-hide_banner'', ''-loglevel'', ''error''] @ args"
  obtain f' o' where f: "u_ffmpeg u (uo_FFmpeg opt) ?a fs = (f', o')" by fastforce
  with assms(1) True have "fs' = f'" by (simp add: run_ffmpeg_def split: sum.splits)
  with f assms(2) [unfolded writes_output_def, rule_format, of p ?a fs] assms(3,4) show ?thesis by simp
qed (use assms(1) in \<open>simp add: run_ffmpeg_def\<close>)

lemma frame_keeps:
  assumes "frame u opt r fs = (fs', resp)" "IsAbs p"
    and "writes_output u opt"
  shows "fs' p = fs p"
proof -
  have "p \<noteq> last (frame_args u t q)" "frame_args u t q \<noteq> []" for t q
    using assms(2) by (auto simp: frame_args_def IsAbs_def HasPrefix_def)
  with assms(1) run_ffmpeg_keeps [OF _ assms(3)]
  show ?thesis by (auto simp: frame_def split: sum.splits prod.splits option.splits list.splits)
qed

lemma preview_keeps:
  assumes "preview u opt r fs = (fs', resp)" "\<And>tmp. u_temp u = Inr tmp \<Longrightarrow> fs tmp = None"
    and "writes_output u opt"
  shows "fs' p = fs p \<or> u_remove u \<noteq> None \<and> u_temp u = Inr p"
proof -
  have k: "f1 p = fs p" if "tmp \<noteq> p"
    "run_ffmpeg u opt (preview_args u s d q tmp) (fs(tmp \<mapsto> ([], 0x180))) = (f1, ok)" for tmp s d q f1 ok
    using run_ffmpeg_keeps [OF that(2) assms(3)] that(1) by (auto simp: preview_args_def)
  from assms(1,2) show ?thesis
    by (auto simp: preview_def split: sum.splits prod.splits if_splits intro: k)
qed

lemma writeError_code [simp]: "rs_code (writeError c m) = c" "rs_code (writeJSON c b) = c"
  by (simp_all add: writeError_def writeJSON_def)

lemma putClips_keeps:
  assumes "putClips u opt r fs = (fs', resp)" "fs' p \<noteq> fs p" "fs' p \<noteq> u_meanwhile u fs p"
    and "\<And>tmp. w_create (u_write u) = Inr tmp \<Longrightarrow> u_meanwhile u fs tmp = None \<and> tmp \<noteq> uo_ConfigPath opt"
  shows "p = uo_ConfigPath opt \<and> rs_code resp = 200
    \<or> w_remove (u_write u) \<noteq> None \<and> w_create (u_write u) = Inr p"
proof -
  obtain req where "put_locked u opt req fs = (fs', resp)"
    using assms(1,2) by (auto simp: putClips_def split: sum.splits)
  from put_locked_cases [OF this assms(4)] assms(2,3) show ?thesis
    by (auto split: if_splits)
qed

text \<open>C38: Only one request changes a file: a PUT of clips with a JSON content type that the
  browser does not report as cross-site, and only the clips file, and only with the answer 200;
  otherwise only a temporary file can stay behind, when its removal failed.  Whatever the
  request, the answer carries the security headers.  It is assumed that ffmpeg writes nothing
  but its output and that temporary names are unused; what other processes write meanwhile is
  set apart.\<close>

theorem only_PUT_changes_files:
  assumes "ServeHTTP u opt r fs = (fs', resp)"
    and "\<And>tmp. w_create (u_write u) = Inr tmp \<Longrightarrow> u_meanwhile u fs tmp = None \<and> tmp \<noteq> uo_ConfigPath opt"
    and "\<And>tmp. u_temp u = Inr tmp \<Longrightarrow> fs tmp = None"
    and "writes_output u opt"
    and "IsAbs p"
  shows "set security_headers \<subseteq> set (rs_headers resp)
    \<and> (fs' p = fs p
      \<or> fs' p = u_meanwhile u fs p \<and> q_method r = ''PUT''
      \<or> u_remove u \<noteq> None \<and> u_temp u = Inr p
      \<or> w_remove (u_write u) \<noteq> None \<and> w_create (u_write u) = Inr p
      \<or> p = uo_ConfigPath opt \<and> q_method r = ''PUT'' \<and> q_path r = ''/api/clips''
        \<and> (q_site r = [] \<or> q_site r = ''same-origin'')
        \<and> u_media_type u (q_ctype r) = ''application/json'' \<and> rs_code resp = 200)"
proof -
  have "set security_headers \<subseteq> set (rs_headers resp)"
    using assms(1) by (auto simp: ServeHTTP_def Let_def split: prod.splits)
  moreover have "p = uo_ConfigPath opt \<and> q_method r = ''PUT'' \<and> q_path r = ''/api/clips''
        \<and> (q_site r = [] \<or> q_site r = ''same-origin'')
        \<and> u_media_type u (q_ctype r) = ''application/json'' \<and> rs_code resp = 200"
    if c: "fs' p \<noteq> fs p" "\<not> (fs' p = u_meanwhile u fs p \<and> q_method r = ''PUT'')"
      "\<not> (u_remove u \<noteq> None \<and> u_temp u = Inr p)"
      "\<not> (w_remove (u_write u) \<noteq> None \<and> w_create (u_write u) = Inr p)"
  proof -
    obtain resp' where h: "handle u opt r fs = (fs', resp')" "rs_code resp = rs_code resp'"
      and g: "q_method r = ''GET'' \<or> q_method r = ''HEAD''
        \<or> (q_site r = [] \<or> q_site r = ''same-origin'')
          \<and> u_media_type u (q_ctype r) = ''application/json''"
      using assms(1) c(1) by (auto simp: ServeHTTP_def Let_def split: prod.splits if_splits)
    have put: "route (q_method r) (q_path r) = Some HPutClips" "putClips u opt r fs = (fs', resp')"
      using h(1) c frame_keeps [OF _ assms(5,4)] preview_keeps [where fs = fs and p = p, OF _ assms(3,4)]
      by (auto simp: handle_def split: option.splits handler.splits)
    then have m: "q_method r = ''PUT''" "q_path r = ''/api/clips''"
      by (auto simp: route_def split: if_splits)
    with putClips_keeps [OF put(2) c(1) _ assms(2)] c h(2) g show ?thesis by auto
  qed
  ultimately show ?thesis by blast
qed

text \<open>A Matroska file without a duration is clipped without a copy, and yet the note of its
  probe says that it will be copied.\<close>

lemma probe_without_duration:
  assumes "ResolveInput (u_ul u) (u_os u fs) (uo_MediaRoot opt) (q_query r ''path'') = Inr p"
    and "matroska_ext (ToLower (u_ul u) (path_Ext p))" "u_open u p = Inr (f, sz)"
    and "Open (u_cues u) f sz = Inr src" "DurationSeconds src = Fin 0"
    and "\<And>args. u_probe u (uo_FFprobe opt) args = Inr out"
  shows "\<exists>resp. rs_body (probe u opt r fs) = BProbe resp
    \<and> pb_byte_range resp \<and> pb_note resp = NoteCopied"
  using assms by (simp add: probe_def probe_file_def Let_def writeJSON_def)

section \<open>A concrete server\<close>

text \<open>The media folder of \<open>Config\<close>, and the clips file \<open>/c\<close>; the encoder knows one list of
  clips, and the digest of a file is its content.\<close>

definition ui_os :: "fs \<Rightarrow> os" where
  "ui_os fs = demo_os
     \<lparr>os_Stat := (\<lambda>p. case fs p of None \<Rightarrow> os_Stat demo_os p
        | Some (b, _) \<Rightarrow> Inr \<lparr>fi_regular = True, fi_dir = False, fi_size = int (length b), fi_mtime = 5\<rparr>),
      os_ReadFile := (\<lambda>p. case fs p of None \<Rightarrow> Inl NotExist | Some (b, _) \<Rightarrow> Inr b)\<rparr>"

definition demo_opt :: ui_options where
  "demo_opt = ui_New \<lparr>uo_ConfigPath = ''/c'', uo_MediaRoot = ''/m'', uo_StatusPath = ''/s'',
     uo_FFmpeg = [], uo_FFprobe = [], uo_Backup = None\<rparr>"

definition demo_put :: put_request where
  "demo_put = \<lparr>pr_clips = [demo_clip], pr_version = []\<rparr>"

definition demo_uenv :: uenv where
  "demo_uenv =
     \<lparr>u_os = ui_os, u_bo = demo_bo, u_ul = id, u_sha256 = id,
      u_decode = (\<lambda>b. if b = [0x31, 0x0A] then Inr [demo_clip] else Inl ''?''),
      u_marshal = (\<lambda>cs. if cs = [demo_clip] then Inr [0x31] else Inl ''?''),
      u_request = (\<lambda>b. if b = [7] then Inr demo_put else Inl ''?''),
      u_media_type = id, u_json_valid = (\<lambda>b. False),
      u_write = \<lparr>w_create = Inr ''/.t'', w_wrote = 0, w_write = None, w_chmod = None,
        w_sync = None, w_close = None, w_rename = None, w_remove = None\<rparr>,
      u_sort = (\<lambda>less xs. xs), u_cues = id, u_open = (\<lambda>p. Inl NotExist),
      u_probe = (\<lambda>p a. Inl ''?''), u_ffmpeg = (\<lambda>f a fs. (fs, Inr [])), u_slot = True,
      u_float = (\<lambda>s. (Fin 0, True)), u_fmt3 = (\<lambda>f. ''0''), u_temp = Inl ''?'',
      u_remove = None, u_meanwhile = id,
      u_static = (\<lambda>r. \<lparr>rs_code = 200, rs_headers = [], rs_body = BText []\<rparr>)\<rparr>"

definition demo_request :: request where
  "demo_request = \<lparr>q_method = ''PUT'', q_path = ''/api/clips'', q_site = ''same-origin'',
     q_ctype = ''application/json'', q_query = (\<lambda>k. []), q_body = [7]\<rparr>"

definition demo_saved :: fs where
  "demo_saved = [''/c'' \<mapsto> ([0x31, 0x0A], 0x1B4)]"

lemma ui_os_empty: "ui_os Map.empty = demo_os"
  by (simp add: ui_os_def demo_os_def)

lemmas demo_ui_defs = demo_uenv_def demo_opt_def ui_New_def demo_put_def demo_request_def

lemma demo_checked: "put_checked demo_uenv demo_opt demo_request Map.empty = Inr demo_put"
  using demo_Validate by (simp add: put_checked_def demo_ui_defs ui_os_empty)

lemma demo_view: "clips_view demo_uenv (uo_ConfigPath demo_opt)"
  by (auto simp: clips_view_def demo_uenv_def ui_os_def demo_os_def split: option.splits)

lemma demo_locked:
  "put_locked demo_uenv demo_opt demo_put Map.empty
     = (demo_saved, writeJSON 200 (BVersion (Version id [0x31, 0x0A])))"
proof -
  have "config_Load (ui_os Map.empty) id d ''/c'' =
      Inr \<lparr>fl_clips = [], fl_mtime = None, fl_version = []\<rparr>" for d
    by (simp add: config_Load_def ui_os_def Version_def hex_string_def)
  moreover have "Map.empty(''/.t'' := None, ''/c'' \<mapsto> x, ''/.t'' := None) = [''/c'' \<mapsto> x]" for x :: "byte list \<times> nat"
    by (rule ext) simp
  ultimately show ?thesis
    by (simp add: put_locked_def demo_ui_defs demo_saved_def config_Save_def Encode_def WriteFileAtomic_def
        Let_def)
qed

lemma demo_parse:
  assumes "u_marshal demo_uenv cs = Inr b"
  shows "Parse (u_decode demo_uenv) (b @ [0x0A]) = Inr cs"
proof -
  have "TrimSpace (text_of [0x31, 0x0A]) \<noteq> []" by code_simp
  with assms show ?thesis by (auto simp: demo_uenv_def Parse_def split: if_splits)
qed

theorem putClips_no_lost_update_witness:
  "\<exists>new. config_Load (ui_os demo_saved) id (u_decode demo_uenv) ''/c'' = Inr new
     \<and> fl_clips new = [demo_clip] \<and> fl_version new = ''310a''
     \<and> rs_code (snd (put_locked demo_uenv demo_opt demo_put demo_saved)) = 409"
proof -
  have v: "Version id [0x31, 0x0A] = ''310a''" by code_simp
  have tmp: "u_meanwhile demo_uenv Map.empty tmp = None \<and> tmp \<noteq> uo_ConfigPath demo_opt"
    if "w_create (u_write demo_uenv) = Inr tmp" for tmp
    using that by (auto simp: demo_ui_defs)
  note S = putClips_no_lost_update [OF demo_checked demo_locked tmp demo_view demo_parse [of "pr_clips demo_put"],
      where p = "''/x''" and ?req2.0 = demo_put, THEN conjunct2, THEN conjunct2]
  have d: "u_os demo_uenv = ui_os" "u_sha256 demo_uenv = id" "uo_ConfigPath demo_opt = ''/c''"
    "pr_clips demo_put = [demo_clip]" "rs_code (writeJSON 200 b) = 200" "rs_body (writeJSON 200 b) = b" for b
    by (simp_all add: demo_ui_defs writeJSON_def)
  obtain cur new where "config_Load (ui_os Map.empty) id (u_decode demo_uenv) ''/c'' = Inr cur"
    "config_Load (ui_os demo_saved) id (u_decode demo_uenv) ''/c'' = Inr new"
    "fl_clips new = [demo_clip]" "fl_version new = ''310a''"
    "fl_version new \<noteq> fl_version cur \<Longrightarrow>
      rs_code (snd (put_locked demo_uenv demo_opt demo_put demo_saved)) = 409"
    using S by (simp add: d v) metis
  moreover from this(1) have "fl_version cur = []"
    by (auto simp: config_Load_def ui_os_def Version_def hex_string_def)
  ultimately show ?thesis by auto
qed

text \<open>The mutex does not hold off an editor: a file that appears between the load and the rename
  is replaced, and the answer is 200.\<close>

lemma hand_edit_lost:
  "put_locked (demo_uenv\<lparr>u_meanwhile := \<lambda>fs. fs(''/c'' \<mapsto> ([0x5B, 0x5D], 0x1A4))\<rparr>) demo_opt demo_put Map.empty
     = (demo_saved, writeJSON 200 (BVersion (Version id [0x31, 0x0A])))"
proof -
  have "config_Load (ui_os Map.empty) id d ''/c'' =
      Inr \<lparr>fl_clips = [], fl_mtime = None, fl_version = []\<rparr>" for d
    by (simp add: config_Load_def ui_os_def Version_def hex_string_def)
  moreover have "Map.empty(''/c'' \<mapsto> y, ''/.t'' := None, ''/c'' \<mapsto> x, ''/.t'' := None) = [''/c'' \<mapsto> x]"
    for x y :: "byte list \<times> nat"
    by (rule ext) simp
  ultimately show ?thesis
    by (simp add: put_locked_def demo_ui_defs demo_saved_def config_Save_def Encode_def WriteFileAtomic_def
        Let_def)
qed

lemma demo_links: "links_resolve demo_os"
proof -
  have "list_all is_plain [''m'', demo_name ''720p''] \<and> list_all is_plain [''m'', demo_name ''900p'']"
    "''/m/'' @ demo_name x = abs_of [''m'', demo_name x]" "''/m'' = abs_of [''m'']" for x
    by (simp_all add: is_plain_def is_name_def demo_name_def abs_of_def)
  then show ?thesis
    by (auto simp: links_resolve_def demo_os_def split: if_splits
        intro: exI [of _ "[''m'', demo_name ''720p'']"] exI [of _ "[''m'', demo_name ''900p'']"]
          exI [of _ "[''m'']"])
qed

theorem browse_confined_witness:
  "\<exists>rel out. rs_body (browse demo_uenv demo_opt demo_request Map.empty) = BEntries rel out
     \<and> \<lparr>be_name = demo_name ''720p'', be_dir = False, be_size = 4\<rparr> \<in> set out"
proof -
  let ?x = "\<lparr>be_name = demo_name ''720p'', be_dir = False, be_size = 4\<rparr>"
  have "mediaDir demo_os ''/m'' (trim_char slash (Clean ''/'')) = Some ''/m''"
    "path_Join [''/m'', demo_name ''720p''] = ''/m/'' @ demo_name ''720p''"
    "ToLower id (path_Ext (demo_name ''720p'')) \<in> set VideoExts"
    "\<not> HasPrefix (demo_name ''720p'') ''.''"
    by code_simp+
  note p = this
  have "rs_code (browse demo_uenv demo_opt demo_request Map.empty) \<noteq> 404"
    using p(1) by (simp add: browse_def Let_def demo_ui_defs ui_os_empty) (simp add: demo_os_def)
  moreover have u: "u_os demo_uenv Map.empty = demo_os" "u_ul demo_uenv = id"
    "uo_MediaRoot demo_opt = ''/m''" by (simp_all add: demo_ui_defs ui_os_empty)
  have "IsAbs (uo_MediaRoot demo_opt)" "set (u_sort demo_uenv less xs) = set xs" for less xs
    by (simp_all add: demo_ui_defs IsAbs_def HasPrefix_def)
  note browse_confined [of demo_uenv Map.empty demo_opt demo_request ?x, unfolded u,
      OF demo_links this [unfolded u], unfolded browse_entry.select_convs]
  ultimately obtain rs ds es rel out where b: "rs_body (browse demo_uenv demo_opt demo_request Map.empty) = BEntries rel out"
    "os_ReadDir demo_os (abs_of (rs @ ds)) = Inr es"
    "?x \<in> set out \<longleftrightarrow> demo_name ''720p'' \<in> d_name ` set es \<and> \<not> HasPrefix (demo_name ''720p'') ''.''
       \<and> (\<exists>info. os_Stat demo_os (path_Join [abs_of (rs @ ds), demo_name ''720p'']) = Inr info
          \<and> (if fi_dir info then False \<and> (4::int) = 0 else \<not> False \<and> (4::int) = fi_size info
             \<and> ToLower id (path_Ext (demo_name ''720p'')) \<in> set VideoExts))"
    by blast
  then have d: "abs_of (rs @ ds) = ''/m''" "demo_name ''720p'' \<in> d_name ` set es"
    by (auto simp: demo_os_def split: if_splits)
  have "os_Stat demo_os (''/m/'' @ demo_name ''720p'') =
      Inr \<lparr>fi_regular = True, fi_dir = False, fi_size = 4, fi_mtime = 0\<rparr>" by (simp add: demo_os_def)
  then have "?x \<in> set out" unfolding b(3) d(1) p(2) using d(2) p(3,4) by simp
  with b(1) show ?thesis by blast
qed

theorem only_PUT_changes_files_witness:
  "fst (ServeHTTP demo_uenv demo_opt demo_request Map.empty) = demo_saved
     \<and> fst (ServeHTTP demo_uenv demo_opt (demo_request\<lparr>q_site := ''cross-site''\<rparr>) Map.empty) ''/c'' = None"
proof
  have "putClips demo_uenv demo_opt demo_request Map.empty =
      (demo_saved, writeJSON 200 (BVersion (Version id [0x31, 0x0A])))"
    by (simp add: putClips_def demo_checked demo_locked)
  then have "handle demo_uenv demo_opt demo_request Map.empty =
      (demo_saved, writeJSON 200 (BVersion (Version id [0x31, 0x0A])))"
    by (simp add: handle_def route_def demo_request_def)
  then show "fst (ServeHTTP demo_uenv demo_opt demo_request Map.empty) = demo_saved"
    by (simp add: ServeHTTP_def) (simp add: demo_request_def demo_uenv_def)
next
  let ?r = "demo_request\<lparr>q_site := ''cross-site''\<rparr>"
  have "u_meanwhile demo_uenv Map.empty tmp = None \<and> tmp \<noteq> uo_ConfigPath demo_opt"
    if "w_create (u_write demo_uenv) = Inr tmp" for tmp
    using that by (auto simp: demo_ui_defs)
  note tmp = this
  have t: "Map.empty tmp = None" if "u_temp demo_uenv = Inr tmp" for tmp
    using that by (simp add: demo_ui_defs)
  have o: "writes_output demo_uenv demo_opt" "IsAbs ''/c''"
    by (simp_all add: writes_output_def demo_ui_defs IsAbs_def HasPrefix_def)
  note h = only_PUT_changes_files [where r = ?r and p = "''/c''", OF prod.collapse [symmetric] tmp t o,
      THEN conjunct2]
  have "fst (ServeHTTP demo_uenv demo_opt ?r Map.empty) ''/c'' = Map.empty ''/c''"
    using h by (auto simp: demo_uenv_def demo_request_def)
  then show "fst (ServeHTTP demo_uenv demo_opt ?r Map.empty) ''/c'' = None" by simp
qed

end
