(* ===== verification/Command.thy ===== *)
theory Command
  imports EngineMount Privs Backup Ui
begin

text \<open>
  \<^verbatim>\<open>cmd/smartclips/main.go\<close>: the start of the mount and of the web interface, the reload loop
  and the health check.  The environment, the kernel and go-fuse are parameters; what a
  function does to the process is a change of \<open>process\<close>, whose log tells with which effective
  user each thing was done.
\<close>

section \<open>Settings\<close>

datatype main_err =
    NotNumber string string
  | NeedsIds
  | InvalidUser int int
  | LoadFailed load_err
  | DirFailed string
  | AsFailed priv_err
  | MountFailed string
  | DropFailed priv_err
  | KeepTooSmall
  | BadInterval
  | ServeFailed string

text \<open>A variable that is not set is empty.\<close>

definition env :: "(string \<Rightarrow> string) \<Rightarrow> string \<Rightarrow> string \<Rightarrow> string" where
  "env getenv k d = (if getenv k \<noteq> [] then getenv k else d)"

text \<open>\<open>strconv.Atoi\<close>: an optional sign and decimal digits, in the range of \<open>int\<close>.\<close>

definition is_digit :: "char \<Rightarrow> bool" where
  "is_digit c \<longleftrightarrow> 48 \<le> (of_char c :: nat) \<and> (of_char c :: nat) \<le> 57"

definition digits_value :: "string \<Rightarrow> int" where
  "digits_value s = foldl (\<lambda>n c. 10 * n + (of_char c - 48)) 0 s"

definition Atoi :: "string \<Rightarrow> int option" where
  "Atoi s =
     (let neg = HasPrefix s ''-'';
          ds = (if neg \<or> HasPrefix s ''+'' then tl s else s);
          n = (if neg then - digits_value ds else digits_value ds)
      in if ds = [] \<or> \<not> list_all is_digit ds \<or> n < - (2 ^ 63) \<or> 2 ^ 63 \<le> n then None else Some n)"

definition envInt :: "(string \<Rightarrow> string) \<Rightarrow> string \<Rightarrow> int \<Rightarrow> main_err + int" where
  "envInt getenv k d =
     (if getenv k = [] then Inr d
      else (case Atoi (getenv k) of
          None \<Rightarrow> Inl (NotNumber k (getenv k))
        | Some n \<Rightarrow> Inr n))"

text \<open>\<open>time.Duration(n) * time.Minute\<close>, which wraps.\<close>

definition minutes :: "int \<Rightarrow> int" where
  "minutes n = sint (of_int n * 60000000000 :: i64)"

definition checked_ids :: "bool \<Rightarrow> int \<Rightarrow> int \<Rightarrow> main_err + (bool \<times> int \<times> int)" where
  "checked_ids asRoot uid gid =
     (if uid < 0 \<or> gid < 0 \<or> 4294967295 < uid \<or> 4294967295 < gid then Inl (InvalidUser uid gid)
      else Inr (asRoot, uid, gid))"

text \<open>Whether the process runs as root, and the user and group that it serves as.\<close>

definition mount_ids :: "(string \<Rightarrow> string) \<Rightarrow> creds \<Rightarrow> main_err + (bool \<times> int \<times> int)" where
  "mount_ids getenv c =
     (if euid c = 0
      then (case envInt getenv ''PUID'' (-1) of
          Inl e \<Rightarrow> Inl e
        | Inr uid \<Rightarrow>
            (case envInt getenv ''PGID'' (-1) of
               Inl e \<Rightarrow> Inl e
             | Inr gid \<Rightarrow>
                 if uid \<le> 0 \<or> gid \<le> 0 then Inl NeedsIds else checked_ids True uid gid))
      else checked_ids False (ruid c) (rgid c))"

section \<open>What the kernel tells about a path\<close>

datatype statfs_result = FsType int | FsNotConnected | FsError string | FsHangs

definition fuseSuperMagic :: int where "fuseSuperMagic = 0x65735546"

definition staleFUSE :: "(string \<Rightarrow> statfs_result) \<Rightarrow> string \<Rightarrow> bool" where
  "staleFUSE statfs path \<longleftrightarrow>
     statfs path = FsNotConnected \<or> statfs path = FsType fuseSuperMagic"

text \<open>\<open>dev\<close> is the device of a path, if \<open>stat\<close> works on it.\<close>

definition isMountPoint :: "(string \<Rightarrow> int option) \<Rightarrow> string \<Rightarrow> bool" where
  "isMountPoint dev path =
     (case (dev path, dev (path_Dir path)) of
        (Some self, Some parent) \<Rightarrow> self \<noteq> parent
      | _ \<Rightarrow> False)"

section \<open>The mount\<close>

record mount_options =
  mo_direct :: bool
  mo_entry_timeout :: int
  mo_negative_timeout :: int
  mo_options :: "string list"

datatype event =
    Loaded clips_file
  | Applied
  | DetachTried string
  | MadeDir string
  | NestedMount
  | Mounted string mount_options
  | Unmounted
  | UnmountFailed string
  | Started
  | Watching int

text \<open>\<open>p_log\<close> holds the events, oldest first, with the effective user at the time.  \<open>DetachTried\<close> is
  the call of \<open>syscall.Unmount\<close>, whose result the code ignores, so the event says nothing of it;
  \<open>Unmounted\<close> and \<open>UnmountFailed\<close> are the two results of \<open>server.Unmount\<close>.\<close>

record 'f process =
  p_creds :: creds
  p_fs :: fs
  p_engine :: "'f root engine option"
  p_mounted :: bool
  p_log :: "(event \<times> int) list"

datatype outcome = Failed main_err | Blocked | Running

text \<open>The environment, the kernel and go-fuse.  \<open>m_decode\<close> is the JSON decoder of the clips
  file, \<open>m_mkdir\<close>, \<open>m_mount\<close> and \<open>m_unmount\<close> the errors of these calls, and \<open>m_tmps\<close> and \<open>m_rm\<close> what
  \<open>Start\<close> finds to remove.\<close>

record 'f machine =
  m_getenv :: "string \<Rightarrow> string"
  m_lib :: lib
  m_decode :: "byte list \<Rightarrow> string + clip_def list"
  m_os :: os
  m_os_at :: "string \<Rightarrow> os"
  m_ord :: "nat \<Rightarrow> string list \<Rightarrow> string list"
  m_now :: int
  m_calls :: syscalls
  m_statfs :: "string \<Rightarrow> statfs_result"
  m_dev :: "string \<Rightarrow> int option"
  m_mkdir :: "creds \<Rightarrow> string \<Rightarrow> string option"
  m_mount :: "creds \<Rightarrow> string \<Rightarrow> string option"
  m_unmount :: "creds \<Rightarrow> string option"
  m_iops :: "'f inode_ops"
  m_tree :: 'f
  m_add_order :: "(string \<times> entry) list \<Rightarrow> (string \<times> entry) list"
  m_tmps :: "string list"
  m_rm :: "string \<Rightarrow> os_err option"

definition logged :: "event \<Rightarrow> 'f process \<Rightarrow> 'f process" where
  "logged ev P = P\<lparr>p_log := p_log P @ [(ev, euid (p_creds P))]\<rparr>"

definition mountPoint_of :: "(string \<Rightarrow> string) \<Rightarrow> string" where
  "mountPoint_of getenv = env getenv ''SMARTCLIPS_MOUNT'' ''/mnt/smartclips/library''"

definition cfgPath_of :: "(string \<Rightarrow> string) \<Rightarrow> string" where
  "cfgPath_of getenv = env getenv ''SMARTCLIPS_CONFIG'' ''/data/clips.json''"

definition engine_options :: "(string \<Rightarrow> string) \<Rightarrow> int \<Rightarrow> int \<Rightarrow> options" where
  "engine_options getenv workers recheck =
     \<lparr>o_MediaRoot = env getenv ''SMARTCLIPS_MEDIA'' ''/media'',
      o_CacheDir = env getenv ''SMARTCLIPS_CACHE_DIR'' ''/cache'', o_FFmpeg = [],
      o_Workers = workers, o_RemuxTimeout = 0, o_RecheckPeriod = minutes recheck\<rparr>"

text \<open>The engine on a new root, with the clips of the file applied.\<close>

definition first_engine ::
  "'f machine \<Rightarrow> int \<Rightarrow> int \<Rightarrow> int \<Rightarrow> int \<Rightarrow> clips_file \<Rightarrow> 'f root engine" where
  "first_engine m workers recheck uid gid fl =
     Apply (m_lib m) (mount_ops (m_iops m)) (m_os m) (m_os_at m) (m_ord m) fl
       (engine_New (engine_options (m_getenv m) workers recheck)
         (New (of_int uid) (of_int gid) True (m_now m) (m_tree m)))"

definition mount_opts :: "bool \<Rightarrow> mount_options" where
  "mount_opts asRoot =
     \<lparr>mo_direct = asRoot, mo_entry_timeout = 3600 * 1000000000,
      mo_negative_timeout = 10 * 1000000000, mo_options = [''ro'']\<rparr>"

text \<open>The code tries to detach a stale mount and goes on whatever that returns.\<close>

definition detach_stale :: "'f machine \<Rightarrow> bool \<Rightarrow> 'f process \<Rightarrow> 'f process" where
  "detach_stale m asRoot P =
     (let mp = mountPoint_of (m_getenv m)
      in if asRoot \<and> staleFUSE (m_statfs m) mp then logged (DetachTried mp) P else P)"

definition make_dir ::
  "'f machine \<Rightarrow> bool \<Rightarrow> int \<Rightarrow> int \<Rightarrow> 'f process \<Rightarrow> 'f process \<times> main_err option" where
  "make_dir m asRoot uid gid P =
     (let mp = mountPoint_of (m_getenv m);
          mkdir = (\<lambda>c evs. (evs @ [(MadeDir mp, euid c)], m_mkdir m c mp))
      in if asRoot
         then (case As (m_calls m) uid gid mkdir (p_creds P) (p_log P) of
             (evs, c, err) \<Rightarrow> (P\<lparr>p_creds := c, p_log := evs\<rparr>, map_option AsFailed err))
         else (case mkdir (p_creds P) (p_log P) of
             (evs, err) \<Rightarrow> (P\<lparr>p_log := evs\<rparr>, map_option DirFailed err)))"

text \<open>\<open>fs.Mount\<close> calls \<open>OnAdd\<close> of the root.\<close>

definition mount_root ::
  "'f machine \<Rightarrow> bool \<Rightarrow> 'f root engine \<Rightarrow> 'f process \<Rightarrow> 'f process \<times> main_err option" where
  "mount_root m asRoot E P =
     (let mp = mountPoint_of (m_getenv m);
          R = e_sink E;
          E1 = E\<lparr>e_sink := OnAdd (m_iops m) (m_add_order m (r_entries R)) R\<rparr>;
          P1 = (if isMountPoint (m_dev m) mp then logged NestedMount P else P)
      in (case m_mount m (p_creds P1) mp of
            Some e \<Rightarrow> (P1\<lparr>p_engine := Some E1\<rparr>, Some (MountFailed e))
          | None \<Rightarrow>
              (logged (Mounted mp (mount_opts asRoot)) (P1\<lparr>p_engine := Some E1, p_mounted := True\<rparr>),
               None)))"

text \<open>\<open>server.Unmount\<close> with the credentials that the process has by then; the result says whether
  it failed.\<close>

definition server_Unmount :: "'f machine \<Rightarrow> 'f process \<Rightarrow> 'f process \<times> string option" where
  "server_Unmount m P =
     (case m_unmount m (p_creds P) of
        None \<Rightarrow> (logged Unmounted (P\<lparr>p_mounted := False\<rparr>), None)
      | Some e \<Rightarrow> (logged (UnmountFailed e) P, Some e))"

text \<open>When the privileges cannot be dropped, the mount is undone, as far as the kernel lets the
  process, which may have lost root by then.\<close>

definition drop_privileges ::
  "'f machine \<Rightarrow> bool \<Rightarrow> int \<Rightarrow> int \<Rightarrow> 'f process \<Rightarrow> 'f process \<times> main_err option" where
  "drop_privileges m asRoot uid gid P =
     (if \<not> asRoot then (P, None)
      else (case Drop (m_calls m) uid gid (p_creds P) of
          (c, None) \<Rightarrow> (P\<lparr>p_creds := c\<rparr>, None)
        | (c, Some e) \<Rightarrow> (fst (server_Unmount m (P\<lparr>p_creds := c\<rparr>)), Some (DropFailed e))))"

text \<open>The loop of \<open>watchConfig\<close> runs every \<open>watch_period\<close> at least.\<close>

definition watch_period :: "int \<Rightarrow> int" where
  "watch_period every = (if every \<le> 0 then 15 * 60 * 1000000000 else every)"

definition start_serving :: "'f machine \<Rightarrow> int \<Rightarrow> 'f process \<Rightarrow> 'f process" where
  "start_serving m recheck P =
     (case p_engine P of None \<Rightarrow> P
      | Some E \<Rightarrow>
          (case Start (m_tmps m) (m_rm m) (p_fs P) E of
             (fs', E') \<Rightarrow>
               logged (Watching (watch_period (minutes recheck)))
                 (logged Started (P\<lparr>p_fs := fs', p_engine := Some E'\<rparr>))))"

text \<open>The part of \<open>runMount\<close> after the first \<open>Apply\<close>.\<close>

definition go_live ::
  "'f machine \<Rightarrow> bool \<Rightarrow> int \<Rightarrow> int \<Rightarrow> int \<Rightarrow> 'f root engine \<Rightarrow> 'f process \<Rightarrow> 'f process \<times> outcome" where
  "go_live m asRoot uid gid recheck E P =
     (case make_dir m asRoot uid gid (detach_stale m asRoot P) of
        (P1, Some e) \<Rightarrow> (P1, Failed e)
      | (P1, None) \<Rightarrow>
          (case mount_root m asRoot E P1 of
             (P2, Some e) \<Rightarrow> (P2, Failed e)
           | (P2, None) \<Rightarrow>
               (case drop_privileges m asRoot uid gid P2 of
                  (P3, Some e) \<Rightarrow> (P3, Failed e)
                | (P3, None) \<Rightarrow> (start_serving m recheck P3, Running))))"

text \<open>\<open>Running\<close> is the call of \<open>server.Wait\<close>; \<open>Blocked\<close> is an \<open>Apply\<close> that never returns.\<close>

definition runMount :: "'f machine \<Rightarrow> 'f process \<Rightarrow> 'f process \<times> outcome" where
  "runMount m P =
     (case envInt (m_getenv m) ''SMARTCLIPS_WORKERS'' 2 of
        Inl e \<Rightarrow> (P, Failed e)
      | Inr workers \<Rightarrow>
          (case envInt (m_getenv m) ''SMARTCLIPS_RECHECK_MINUTES'' 15 of
             Inl e \<Rightarrow> (P, Failed e)
           | Inr recheck \<Rightarrow>
               (case mount_ids (m_getenv m) (p_creds P) of
                  Inl e \<Rightarrow> (P, Failed e)
                | Inr (asRoot, uid, gid) \<Rightarrow>
                    (case config_Load (m_os m) (lb_sha256 (m_lib m)) (m_decode m)
                            (cfgPath_of (m_getenv m)) of
                       Inl e \<Rightarrow> (P, Failed (LoadFailed e))
                     | Inr fl \<Rightarrow>
                         let P1 = logged (Loaded fl) P;
                             E = first_engine m workers recheck uid gid fl
                         in if e_stuck E \<noteq> None then (P1\<lparr>p_engine := Some E\<rparr>, Blocked)
                            else go_live m asRoot uid gid recheck E
                              (logged Applied (P1\<lparr>p_engine := Some E\<rparr>))))))"

text \<open>After a signal; the error of \<open>Elevate\<close> is logged only.\<close>

definition shutdown :: "'f machine \<Rightarrow> bool \<Rightarrow> 'f process \<Rightarrow> 'f process" where
  "shutdown m asRoot P =
     (let P1 = (if asRoot then P\<lparr>p_creds := fst (Elevate (m_calls m) (p_creds P))\<rparr> else P)
      in case server_Unmount m P1 of
           (P2, None) \<Rightarrow> P2
         | (P2, Some _) \<Rightarrow> logged (DetachTried (mountPoint_of (m_getenv m))) P2)"

section \<open>The reload loop\<close>

text \<open>The system at the moment of a reload.\<close>

record snapshot =
  sn_os :: os
  sn_os_at :: "string \<Rightarrow> os"
  sn_ord :: "nat \<Rightarrow> string list \<Rightarrow> string list"

definition reload ::
  "lib \<Rightarrow> (byte list \<Rightarrow> string + clip_def list) \<Rightarrow> 's sink_ops \<Rightarrow> string \<Rightarrow> snapshot \<Rightarrow>
   's engine \<Rightarrow> 's engine" where
  "reload lb decode ops path sn E =
     (case config_Load (sn_os sn) (lb_sha256 lb) decode path of
        Inl _ \<Rightarrow> E
      | Inr f \<Rightarrow> Apply lb ops (sn_os sn) (sn_os_at sn) (sn_ord sn) f E)"

text \<open>\<open>w_running\<close> is false once the context was done and the loop returned, \<open>w_debounce\<close> is the
  instant at which the timer fires, if it is set, and \<open>w_open\<close> tells whether there are events to
  receive.\<close>

record watch =
  w_running :: bool
  w_open :: bool
  w_debounce :: "int option"

text \<open>\<open>ok\<close> is whether the watcher could be made and the directory added to it.  The watcher is
  fsnotify's; what it does not report is not known to the loop, and that is not a part of the
  model: changes before \<open>w.Add\<close>, and events after an error, which it sends on \<open>w.Errors\<close>, a
  channel that the code never reads.\<close>

definition watch_start :: "bool \<Rightarrow> watch" where
  "watch_start ok = \<lparr>w_running = True, w_open = ok, w_debounce = None\<rparr>"

datatype signal = Done | FsEvent string | EventsClosed | Debounced | Ticked

text \<open>One turn of the loop at the instant \<open>now\<close>; \<open>None\<close> is a case that \<open>select\<close> cannot take, or
  an \<open>Apply\<close> that waits for the engine's mutex for ever.  The ticker may fire at any time.\<close>

fun watch_step ::
  "lib \<Rightarrow> (byte list \<Rightarrow> string + clip_def list) \<Rightarrow> 's sink_ops \<Rightarrow> string \<Rightarrow> int \<times> signal \<times> snapshot \<Rightarrow>
   watch \<times> 's engine \<Rightarrow> (watch \<times> 's engine) option" where
  "watch_step lb decode ops path (now, Done, sn) (w, E) =
     (if \<not> w_running w then None else Some (w\<lparr>w_running := False\<rparr>, E))"
| "watch_step lb decode ops path (now, FsEvent name, sn) (w, E) =
     (if \<not> w_running w \<or> \<not> w_open w then None
      else Some (if path_Base name = path_Base path
        then w\<lparr>w_debounce := Some (now + 500 * 1000000)\<rparr> else w, E))"
| "watch_step lb decode ops path (now, EventsClosed, sn) (w, E) =
     (if \<not> w_running w \<or> \<not> w_open w then None else Some (w\<lparr>w_open := False\<rparr>, E))"
| "watch_step lb decode ops path (now, Debounced, sn) (w, E) =
     (case w_debounce w of None \<Rightarrow> None
      | Some d \<Rightarrow>
          if \<not> w_running w \<or> now < d \<or> e_stuck E \<noteq> None then None
          else Some (w\<lparr>w_debounce := None\<rparr>, reload lb decode ops path sn E))"
| "watch_step lb decode ops path (now, Ticked, sn) (w, E) =
     (if \<not> w_running w \<or> e_stuck E \<noteq> None then None
      else Some (w, reload lb decode ops path sn E))"

text \<open>A run of the loop beside the engine's other goroutines: each turn comes with what these did
  to the engine since the last one, \<open>others\<close>.\<close>

fun watch_run ::
  "lib \<Rightarrow> (byte list \<Rightarrow> string + clip_def list) \<Rightarrow> 's sink_ops \<Rightarrow> string \<Rightarrow>
   (('s engine \<Rightarrow> 's engine) \<times> int \<times> signal \<times> snapshot) list \<Rightarrow>
   watch \<times> 's engine \<Rightarrow> (watch \<times> 's engine) option" where
  "watch_run lb decode ops path [] s = Some s"
| "watch_run lb decode ops path ((others, x) # xs) (w, E) =
     (case watch_step lb decode ops path x (w, others E) of None \<Rightarrow> None
      | Some s' \<Rightarrow> watch_run lb decode ops path xs s')"

section \<open>The web interface\<close>

text \<open>\<open>parse\<close> is \<open>time.ParseDuration\<close>; the interval is kept beside the backup.\<close>

definition backupFromEnv ::
  "(string \<Rightarrow> string) \<Rightarrow> (string \<Rightarrow> int option) \<Rightarrow> string \<Rightarrow> main_err + (backup \<times> int) option" where
  "backupFromEnv getenv parse cfgPath =
     (let dir = getenv ''SMARTCLIPS_BACKUP_DIR''
      in if dir = [] then Inr None
         else (case envInt getenv ''SMARTCLIPS_BACKUP_KEEP'' 30 of
             Inl e \<Rightarrow> Inl e
           | Inr keep \<Rightarrow>
               if keep < 1 then Inl KeepTooSmall
               else (case parse (env getenv ''SMARTCLIPS_BACKUP_INTERVAL'' ''1h'') of
                   None \<Rightarrow> Inl BadInterval
                 | Some interval \<Rightarrow>
                     if interval < 60 * 1000000000 then Inl BadInterval
                     else Inr (Some (\<lparr>b_src = cfgPath, b_dir = dir, b_keep = keep,
                            b_last_run = None, b_last_err = None\<rparr>, interval)))))"

definition ui_setup ::
  "(string \<Rightarrow> string) \<Rightarrow> (string \<Rightarrow> int option) \<Rightarrow> main_err + (string \<times> ui_options \<times> int option)" where
  "ui_setup getenv parse =
     (case backupFromEnv getenv parse (cfgPath_of getenv) of
        Inl e \<Rightarrow> Inl e
      | Inr bk \<Rightarrow>
          Inr (env getenv ''SMARTCLIPS_UI_LISTEN'' '':8080'',
            ui_New \<lparr>uo_ConfigPath = cfgPath_of getenv,
              uo_MediaRoot = env getenv ''SMARTCLIPS_MEDIA'' ''/media'',
              uo_StatusPath = path_Join [env getenv ''SMARTCLIPS_CACHE_DIR'' ''/cache'', ''status.json''],
              uo_FFmpeg = [], uo_FFprobe = [], uo_Backup = map_option fst bk\<rparr>,
            map_option snd bk))"

text \<open>\<open>serve\<close> is what \<open>ListenAndServe\<close> ends with, \<open>None\<close> after a shutdown.\<close>

definition runUI ::
  "(string \<Rightarrow> string) \<Rightarrow> (string \<Rightarrow> int option) \<Rightarrow> (string \<Rightarrow> ui_options \<Rightarrow> string option) \<Rightarrow>
   main_err option" where
  "runUI getenv parse serve =
     (case ui_setup getenv parse of
        Inl e \<Rightarrow> Some e
      | Inr (listen, opt, _) \<Rightarrow> map_option ServeFailed (serve listen opt))"

section \<open>The health check\<close>

text \<open>The port of \<open>net.SplitHostPort\<close>.\<close>

fun last_colon :: "string \<Rightarrow> nat option" where
  "last_colon [] = None"
| "last_colon (c # cs) =
     (case last_colon cs of Some i \<Rightarrow> Some (Suc i)
      | None \<Rightarrow> if c = CHR '':'' then Some 0 else None)"

definition port_of :: "string \<Rightarrow> string option" where
  "port_of s =
     (case last_colon s of None \<Rightarrow> None
      | Some i \<Rightarrow>
          if HasPrefix s ''[''
          then (let e = length (takeWhile (\<lambda>c. c \<noteq> CHR '']'') s)
                in if e < length s \<and> Suc e = i \<and> CHR ''['' \<notin> set (tl s)
                      \<and> CHR '']'' \<notin> set (drop (Suc e) s)
                   then Some (drop (Suc i) s) else None)
          else if CHR '':'' \<in> set (take i s) \<or> CHR ''['' \<in> set s \<or> CHR '']'' \<in> set s then None
          else Some (drop (Suc i) s))"

datatype health = Healthy | BadAddress string | GetFailed string | BadStatus int | NotMounted
  | StatfsFailed string | NotResponding

definition service_args :: "byte list \<Rightarrow> string list" where
  "service_args cmdline =
     split_on (CHR 0x00) (rev (dropWhile (\<lambda>c. c = CHR 0x00) (rev (text_of cmdline))))"

text \<open>\<open>get\<close> is the GET of a URL, with the status of the response.\<close>

definition healthcheck ::
  "(string \<Rightarrow> string) \<Rightarrow> byte list \<Rightarrow> (string \<Rightarrow> string + int) \<Rightarrow> (string \<Rightarrow> statfs_result) \<Rightarrow> health" where
  "healthcheck getenv cmdline get statfs =
     (let args = service_args cmdline
      in if 1 < length args \<and> args ! 1 = ''ui''
         then (let addr = env getenv ''SMARTCLIPS_UI_LISTEN'' '':8080''
               in case port_of addr of
                    None \<Rightarrow> BadAddress addr
                  | Some port \<Rightarrow>
                      (case get (''http://127.0.0.1:'' @ port @ ''/healthz'') of
                         Inl e \<Rightarrow> GetFailed e
                       | Inr code \<Rightarrow> if code \<noteq> 200 then BadStatus code else Healthy))
         else (case statfs (mountPoint_of getenv) of
             FsHangs \<Rightarrow> NotResponding
           | FsNotConnected \<Rightarrow> StatfsFailed ''transport endpoint is not connected''
           | FsError e \<Rightarrow> StatfsFailed e
           | FsType t \<Rightarrow> if t \<noteq> fuseSuperMagic then NotMounted else Healthy))"

text \<open>The exit status; each command is whether it failed.\<close>

definition main_exit :: "string list \<Rightarrow> bool \<Rightarrow> bool \<Rightarrow> bool \<Rightarrow> nat" where
  "main_exit args mountFails uiFails healthFails =
     (let cmd = (if 1 < length args then args ! 1 else ''mount'');
          exit_code = (\<lambda>fails. if fails then 1 else 0)
      in if cmd = ''mount'' then exit_code mountFails
         else if cmd = ''ui'' then exit_code uiFails
         else if cmd = ''healthcheck'' then exit_code healthFails
         else if cmd = ''version'' then 0
         else 2)"

end
