(* ===== verification/Startup.thy ===== *)
theory Startup
  imports Command
begin

text \<open>
  What the start of \<^verbatim>\<open>cmd/smartclips/main.go\<close> and its reload loop promise: that the library is
  complete when it is mounted, the order of the start, with which user each step is done and
  what a failure leaves, and that no event of the clips file is missed.
\<close>

section \<open>The first Apply\<close>

text \<open>The layout of a clip that the index holds: its input resolves, the entry for its key is
  readable, and the data file is still the one the layout was made for.\<close>

definition indexed :: "lib \<Rightarrow> os \<Rightarrow> options \<Rightarrow> clip_def \<Rightarrow> layout option" where
  "indexed lb os opt c =
     (case ResolveInput (lb_ul lb) os (o_MediaRoot opt) (c_input c) of
        Inl _ \<Rightarrow> None
      | Inr input \<Rightarrow>
          (case Stat (stat_text lb os) input of
             Inl _ \<Rightarrow> None
           | Inr origin \<Rightarrow>
               (case Load (read_text lb os) (lb_unmarshal lb) (indexPath opt (clipKey lb c origin)) of
                  Inl _ \<Rightarrow> None
                | Inr l \<Rightarrow> if dataValid lb os l then Some l else None)))"

definition file_time :: "clips_file \<Rightarrow> layout \<Rightarrow> int" where
  "file_time fl l = (case fl_mtime fl of Some t \<Rightarrow> t | None \<Rightarrow> l_built l)"

lemma split_clips_distinct:
  "split_clips vs i cs (w, v) = (want, invalid) \<Longrightarrow> distinct (map fst w) \<Longrightarrow> distinct (map fst want)"
  by (induction vs i cs "(w, v)" arbitrary: w v rule: split_clips.induct)
    (auto simp: AList.distinct_update split: if_splits)

context engine_sink
begin

lemma applyClip_fresh:
  assumes "map_of (e_clips E) p = None" "clips (e_sink E) p = None" "lib_ok lb" "e_file E = Some fl"
  shows "clips (e_sink (applyClip lb ops os p c E)) p =
    map_option (\<lambda>l. (l, clip_nfo lb c, file_time fl l)) (indexed lb os (e_opt E) c)"
proof -
  have "[] \<noteq> clipKey lb c origin" for origin using clipKey_nonempty [OF assms(3)] by metis
  with assms show ?thesis
    by (simp add: applyClip_def zero_state_def fail_clip_def renew_clip_def Let_def indexed_def
        publish_def file_time_def clips_set split: sum.splits)
qed

lemma want_loop_not:
  assumes "p \<notin> set ps"
  shows "clips (e_sink (foldl (\<lambda>E p. want_clip lb ops os_at want p E) E ps)) p = clips (e_sink E) p"
  using assms
proof (induction ps arbitrary: E)
  case (Cons q ps)
  then have "clips (e_sink (want_clip lb ops os_at want q E)) p = clips (e_sink E) p"
    using applyClip_other [of q p] by (auto simp: want_clip_def split: option.split)
  with Cons show ?case by simp
qed simp

lemma want_loop_fresh:
  assumes "e_stuck (foldl (\<lambda>E p. want_clip lb ops os_at want p E) E ps) = None"
    and "distinct ps" "p \<in> set ps" "map_of want p = Some c" "lib_ok lb"
    and "map_of (e_clips E) p = None" "clips (e_sink E) p = None" "e_file E = Some fl"
  shows "clips (e_sink (foldl (\<lambda>E p. want_clip lb ops os_at want p E) E ps)) p =
    map_option (\<lambda>l. (l, clip_nfo lb c, file_time fl l)) (indexed lb (os_at p) (e_opt E) c)"
  using assms(1-3,6-)
proof (induction ps arbitrary: E)
  case (Cons q ps)
  let ?E = "want_clip lb ops os_at want q E"
  have s: "e_stuck E = None"
    using Cons.prems(1) want_loop_stuck [of E] want_clip_simps(2) [of E] by (cases "e_stuck E") auto
  show ?case
  proof (cases "q = p")
    case True
    with Cons.prems(2) have "p \<notin> set ps" by simp
    from want_loop_not [OF this] True show ?thesis
      using applyClip_fresh [OF Cons.prems(4,5) assms(5) Cons.prems(6)]
      by (simp add: want_clip_simps(3) [OF assms(4) s])
  next
    case False
    have k: "e_file ?E = e_file E \<and> e_opt ?E = e_opt E \<and> map_of (e_clips ?E) p = map_of (e_clips E) p
        \<and> clips (e_sink ?E) p = clips (e_sink E) p"
      using applyClip_keeps applyClip_other [OF False] by (simp add: want_clip_def split: option.split)
    with Cons.IH [of ?E] Cons.prems False show ?thesis by simp
  qed
qed simp

lemma Apply_wants:
  assumes "e_clips E = []" "\<And>p. clips (e_sink E) p = None" "is_order ord"
    and "e_stuck (Apply lb ops os os_at ord fl E) = None"
    and "c \<in> set (valid_clips lb os (o_MediaRoot (e_opt E)) fl)"
  obtains want E2 ps where "map_of want (Path c) = Some c" "e_opt E2 = e_opt E" "e_file E2 = Some fl"
    "map_of (e_clips E2) (Path c) = None" "clips (e_sink E2) (Path c) = None"
    "distinct ps" "Path c \<in> set ps"
    "e_stuck (foldl (\<lambda>E p. want_clip lb ops os_at want p E) E2 ps) = None"
    "Apply lb ops os os_at ord fl E
      = (foldl (\<lambda>E p. want_clip lb ops os_at want p E) E2 ps)\<lparr>e_dirty := True\<rparr>"
proof -
  let ?vs = "Validate (lb_ul lb) os (fl_clips fl) (o_MediaRoot (e_opt E))"
  obtain want invalid where s: "split_clips ?vs 0 (fl_clips fl) ([], []) = (want, invalid)" by fastforce
  obtain i where i: "i < length (fl_clips fl)" "c = fl_clips fl ! i" "problems_of ?vs i = []"
    using assms(5) by (auto simp: valid_clips_def)
  have w: "map_of want (Path c) \<noteq> None" "distinct (map fst want)"
    using split_clips_want [OF s] i split_clips_distinct [OF s] by simp_all
  then obtain d where d: "map_of want (Path c) = Some d" by blast
  then obtain j where j: "j < length (fl_clips fl)" "fl_clips fl ! j = d" "Path d = Path c"
    "problems_of ?vs j = []"
    using split_clips_want [OF s, THEN conjunct1, rule_format, OF d] by auto
  have "d = c"
    using valid_paths_differ [OF j(4) i(3) j(1) i(1)] j(2,3) i(2) by simp
  have g: "good_at lb clips (busy E []) E q" for q
    by (simp add: good_at_def assms(1,2))
  obtain E2 where E2: "cleared want invalid E E2" "e_opt E2 = e_opt E" "e_file E2 = Some fl"
    "Apply lb ops os os_at ord fl E =
      (let E3 = foldl (\<lambda>E p. want_clip lb ops os_at want p E) E2 (ord 2 (map fst want))
       in if e_stuck E3 \<noteq> None then E3 else E3\<lparr>e_dirty := True\<rparr>)"
    by (rule Apply_parts [OF s assms(3) g])
  have m: "mset (ord 2 (map fst want)) = mset (map fst want)" using assms(3) by (simp add: is_order_def)
  show thesis
  proof (rule that)
    show "map_of want (Path c) = Some c" using d \<open>d = c\<close> by simp
    show "map_of (e_clips E2) (Path c) = None" "clips (e_sink E2) (Path c) = None"
      using E2(1) [unfolded cleared_def, rule_format, of "Path c"] d assms(1,2) by simp_all
    show "distinct (ord 2 (map fst want))" using w(2) mset_eq_imp_distinct_iff [OF m] by simp
    show "Path c \<in> set (ord 2 (map fst want))"
      using mset_eq_setD [OF m] w(1) by (auto simp: map_of_eq_None_iff)
  qed (use assms(4) E2 in \<open>auto simp: Let_def split: if_splits\<close>)
qed

lemma Apply_fresh:
  assumes "e_clips E = []" "\<And>p. clips (e_sink E) p = None" "lib_ok lb" "is_order ord"
    and "e_stuck (Apply lb ops os os_at ord fl E) = None"
    and "c \<in> set (valid_clips lb os (o_MediaRoot (e_opt E)) fl)"
  shows "clips (e_sink (Apply lb ops os os_at ord fl E)) (Path c) =
    map_option (\<lambda>l. (l, clip_nfo lb c, file_time fl l)) (indexed lb (os_at (Path c)) (e_opt E) c)"
proof -
  from Apply_wants [OF assms(1,2,4-6)] obtain want E2 ps where
    W: "map_of want (Path c) = Some c" "e_opt E2 = e_opt E" "e_file E2 = Some fl"
    "map_of (e_clips E2) (Path c) = None" "clips (e_sink E2) (Path c) = None"
    "distinct ps" "Path c \<in> set ps"
    "e_stuck (foldl (\<lambda>E p. want_clip lb ops os_at want p E) E2 ps) = None"
    "Apply lb ops os os_at ord fl E
      = (foldl (\<lambda>E p. want_clip lb ops os_at want p E) E2 ps)\<lparr>e_dirty := True\<rparr>" by metis
  show ?thesis
    unfolding W(9) using want_loop_fresh [OF W(8,6,7,1) assms(3) W(4,5,3)] W(2) by simp
qed

lemma Apply_invalid:
  assumes "e_clips E = []" "\<And>p. clips (e_sink E) p = None" "is_order ord"
    and "e_stuck (Apply lb ops os os_at ord fl E) = None" "queue_ok E []"
    and "p \<notin> Path ` set (valid_clips lb os (o_MediaRoot (e_opt E)) fl)"
  shows "clips (e_sink (Apply lb ops os os_at ord fl E)) p = None"
proof -
  let ?vs = "Validate (lb_ul lb) os (fl_clips fl) (o_MediaRoot (e_opt E))"
  obtain want invalid where s: "split_clips ?vs 0 (fl_clips fl) ([], []) = (want, invalid)" by fastforce
  have "engine_inv lb clips E []"
    using assms(1,2,5) by (simp add: engine_inv_def good_at_def)
  note r = Apply_result [OF this assms(3) s assms(4), of p]
  have "map_of want p = None"
  proof (rule ccontr)
    assume "map_of want p \<noteq> None"
    then obtain c where "map_of want p = Some c" by blast
    from split_clips_want [OF s, THEN conjunct1, rule_format, OF this] assms(6) show False
      by (auto simp: valid_clips_def)
  qed
  with r show ?thesis by simp
qed

end

section \<open>The stages of the start\<close>

lemma go_live_Running:
  assumes "go_live m asRoot uid gid recheck E P = (P', Running)"
  obtains P1 P2 P3 where "make_dir m asRoot uid gid (detach_stale m asRoot P) = (P1, None)"
    "mount_root m asRoot E P1 = (P2, None)" "drop_privileges m asRoot uid gid P2 = (P3, None)"
    "P' = start_serving m recheck P3"
proof -
  obtain P1 r1 where 1: "make_dir m asRoot uid gid (detach_stale m asRoot P) = (P1, r1)" by fastforce
  obtain P2 r2 where 2: "mount_root m asRoot E P1 = (P2, r2)" by fastforce
  obtain P3 r3 where 3: "drop_privileges m asRoot uid gid P2 = (P3, r3)" by fastforce
  have "r1 = None" using assms 1 by (cases r1) (simp_all add: go_live_def)
  moreover have "r2 = None" using assms 1 2 calculation by (cases r2) (simp_all add: go_live_def)
  moreover have "r3 = None" using assms 1 2 3 calculation by (cases r3) (simp_all add: go_live_def)
  ultimately show thesis using assms 1 2 3 by (intro that) (auto simp: go_live_def)
qed

lemma runMount_Running:
  assumes "runMount m P = (P', Running)"
  obtains workers recheck asRoot uid gid fl E where
    "mount_ids (m_getenv m) (p_creds P) = Inr (asRoot, uid, gid)"
    "config_Load (m_os m) (lb_sha256 (m_lib m)) (m_decode m) (cfgPath_of (m_getenv m)) = Inr fl"
    "E = first_engine m workers recheck uid gid fl" "e_stuck E = None"
    "go_live m asRoot uid gid recheck E (logged Applied ((logged (Loaded fl) P)\<lparr>p_engine := Some E\<rparr>))
      = (P', Running)"
  using assms
  by (auto simp: runMount_def Let_def split: sum.splits prod.splits if_splits)

lemma logged_simps [simp]:
  "p_creds (logged ev P) = p_creds P" "p_fs (logged ev P) = p_fs P"
  "p_engine (logged ev P) = p_engine P" "p_mounted (logged ev P) = p_mounted P"
  "p_log (logged ev P) = p_log P @ [(ev, euid (p_creds P))]"
  by (simp_all add: logged_def)

lemma go_live_engine:
  assumes "go_live m asRoot uid gid recheck E P = (P', Running)"
  shows "p_engine P' = Some (E\<lparr>e_sink := OnAdd (m_iops m) (m_add_order m (r_entries (e_sink E))) (e_sink E),
      e_started := True\<rparr>) \<and> p_mounted P'"
  using assms
proof (rule go_live_Running)
  fix P1 P2 P3
  assume p: "mount_root m asRoot E P1 = (P2, None)" "drop_privileges m asRoot uid gid P2 = (P3, None)"
    "P' = start_serving m recheck P3"
  have "p_engine P2 = Some (E\<lparr>e_sink := OnAdd (m_iops m) (m_add_order m (r_entries (e_sink E))) (e_sink E)\<rparr>)
      \<and> p_mounted P2"
    using p(1) by (auto simp: mount_root_def Let_def split: option.splits)
  moreover have "p_engine P3 = p_engine P2 \<and> p_mounted P3 = p_mounted P2"
    using p(2) by (auto simp: drop_privileges_def split: if_splits prod.splits option.splits)
  ultimately show ?thesis
    by (simp add: p(3) start_serving_def Start_def)
qed

section \<open>The library at the mount\<close>

text \<open>C2: The library is complete from the first moment.  When the start gets as far as serving,
  the mounted tree shows exactly the engine's published clips with their folders; and a clip is
  published if and only if the file's validation accepts it and the index holds its layout,
  with that layout, the NFO of its metadata and the time of the file.  No clip that was built
  before is missing, and none that is not valid is there.  The names of the valid clips are
  assumed not to collide with folders of others.\<close>

theorem mounted_library_complete:
  assumes "runMount m P = (P', Running)"
    and "inode_tree (m_iops m) ok" "ok (m_tree m)" "fresh_tree (m_iops m) (m_tree m)"
    and "config_Load (m_os m) (lb_sha256 (m_lib m)) (m_decode m) (cfgPath_of (m_getenv m)) = Inr fl"
    and "valid = valid_clips (m_lib m) (m_os m) (env (m_getenv m) ''SMARTCLIPS_MEDIA'' ''/media'') fl"
    and "conflict_free (Path ` set valid)" "lib_ok (m_lib m)" "is_order (m_ord m)"
    and "\<And>xs. mset (m_add_order m xs) = mset xs"
  shows "\<exists>E. p_engine P' = Some E \<and> p_mounted P' \<and> e_started E
    \<and> o_MediaRoot (e_opt E) = env (m_getenv m) ''SMARTCLIPS_MEDIA'' ''/media''
    \<and> o_CacheDir (e_opt E) = env (m_getenv m) ''SMARTCLIPS_CACHE_DIR'' ''/cache''
    \<and> (view (m_iops m) (r_tree (e_sink E)) q = Some nd \<longleftrightarrow> served (map_of (r_entries (e_sink E))) q nd)
    \<and> (p \<notin> Path ` set valid \<longrightarrow> root_clips (e_sink E) p = None)
    \<and> (c \<in> set valid \<longrightarrow> root_clips (e_sink E) (Path c) =
        map_option (\<lambda>l. (l, clip_nfo (m_lib m) c, file_time fl l))
          (indexed (m_lib m) (m_os_at m (Path c)) (e_opt E) c))"
proof -
  let ?iops = "m_iops m" and ?D = "Path ` set valid" and ?lb = "m_lib m"
  from assms(1) obtain workers recheck asRoot uid gid E P1 where
    E: "E = first_engine m workers recheck uid gid fl" "e_stuck E = None"
      "go_live m asRoot uid gid recheck E P1 = (P', Running)"
    by (rule runMount_Running) (use assms(5) in auto)
  let ?new = "New (of_int uid) (of_int gid) True (m_now m) (m_tree m)"
  let ?E0 = "engine_New (engine_options (m_getenv m) workers recheck) ?new"
  let ?R = "e_sink E"
  let ?R' = "OnAdd ?iops (m_add_order m (r_entries ?R)) ?R"
  have E0: "e_clips ?E0 = []" "root_clips (e_sink ?E0) p = None" "queue_ok ?E0 []" "e_sink ?E0 = ?new"
    "o_MediaRoot (e_opt ?E0) = env (m_getenv m) ''SMARTCLIPS_MEDIA'' ''/media''"
    "o_CacheDir (e_opt ?E0) = env (m_getenv m) ''SMARTCLIPS_CACHE_DIR'' ''/cache''" for p
    by (simp_all add: engine_New_def root_clips_def New_def queue_ok_def queue_size_def engine_options_def
        received_def building_paths_def)
  have A: "E = Apply ?lb (mount_ops ?iops) (m_os m) (m_os_at m) (m_ord m) fl ?E0"
    using E(1) by (simp add: first_engine_def)
  have D: "Path ` set (valid_clips ?lb (m_os m) (o_MediaRoot (e_opt ?E0)) fl) \<subseteq> ?D"
    by (simp add: E0(5) assms(6))
  have "reach ?iops (m_tree m) ?D (e_sink ?E0) \<and> r_mounted (e_sink ?E0) = False"
    unfolding E0(4) by (intro conjI reach.new) (simp add: New_def)
  from mount.Apply_sink [OF mount_closed this D]
  have R: "reach ?iops (m_tree m) ?D ?R" "\<not> r_mounted ?R" unfolding A by auto
  have R': "reach ?iops (m_tree m) ?D ?R'" by (rule reach.on_add [OF R assms(10)])
  have "r_mounted ?R'" by (simp add: OnAdd_def)
  from mount_tree [OF assms(2-4,7) R' this]
  have v: "view ?iops (r_tree ?R') q = Some nd \<longleftrightarrow> served (map_of (r_entries ?R')) q nd" .
  have o: "e_opt E = e_opt ?E0" unfolding A by (rule mount.Apply_opt)
  have c: "root_clips ?R' = root_clips ?R" by (simp add: root_clips_def OnAdd_entries fun_eq_iff)
  note s = E(2) [unfolded A]
  have "root_clips ?R p = None" if "p \<notin> ?D"
    using mount.Apply_invalid [OF E0(1,2) assms(9) s E0(3)] that unfolding A E0(5) assms(6) by blast
  moreover have "root_clips ?R (Path c) = map_option (\<lambda>l. (l, clip_nfo ?lb c, file_time fl l))
      (indexed ?lb (m_os_at m (Path c)) (e_opt E) c)" if "c \<in> set valid"
    using mount.Apply_fresh [OF E0(1,2) assms(8,9) s, of c] that
    unfolding o by (simp add: A E0(5) assms(6))
  ultimately show ?thesis
    using go_live_engine [OF E(3)] v c E0(5,6) o by auto
qed

section \<open>Starting as root\<close>

definition root_now :: "creds \<Rightarrow> bool" where
  "root_now c \<longleftrightarrow> euid c = 0 \<and> ruid c = 0 \<and> egid c = 0"

definition user_creds :: "int \<Rightarrow> int \<Rightarrow> creds" where
  "user_creds uid gid =
     \<lparr>ruid = uid, euid = uid, suid = 0, rgid = gid, egid = gid, sgid = gid, groups = [gid]\<rparr>"

lemma root_make_dir:
  assumes "linux_effects (m_calls m)" "root_now (p_creds P)" "valid_id uid" "valid_id gid"
    and "make_dir m True uid gid P = (P1, err)"
  shows "p_mounted P1 = p_mounted P"
    and "p_log P1 = p_log P \<or> p_log P1 = p_log P @ [(MadeDir (mountPoint_of (m_getenv m)), uid)]"
    and "case err of
        None \<Rightarrow> p_creds P1 = p_creds P \<and> p_log P1 = p_log P @ [(MadeDir (mountPoint_of (m_getenv m)), uid)]
      | Some e \<Rightarrow> \<exists>x. e = AsFailed x \<and> (p_creds P1 = p_creds P \<or> (\<forall>y. x \<noteq> FnFailed y))"
proof -
  let ?mp = "mountPoint_of (m_getenv m)"
  let ?mkdir = "\<lambda>c evs. (evs @ [(MadeDir ?mp, euid c)], m_mkdir m c ?mp)"
  have c: "euid (p_creds P) = 0" "egid (p_creds P) = 0" using assms(2) by (simp_all add: root_now_def)
  obtain evs c' e where a: "As (m_calls m) uid gid ?mkdir (p_creds P) (p_log P) = (evs, c', e)"
    by (rule prod_cases3)
  from linux_effects.As_done [OF assms(1) a c assms(3,4)]
  have d: "evs = p_log P \<or> evs = p_log P @ [(MadeDir ?mp, uid)]"
    "e = None \<or> (\<exists>y. e = Some (FnFailed y)) \<Longrightarrow>
      c' = p_creds P \<and> evs = p_log P @ [(MadeDir ?mp, uid)]" by auto
  have P1: "P1 = P\<lparr>p_creds := c', p_log := evs\<rparr>" "err = map_option AsFailed e"
    using assms(5) a by (simp_all add: make_dir_def Let_def)
  show "p_mounted P1 = p_mounted P" "p_log P1 = p_log P \<or> p_log P1 = p_log P @ [(MadeDir ?mp, uid)]"
    using d(1) by (simp_all add: P1)
  show "case err of
        None \<Rightarrow> p_creds P1 = p_creds P \<and> p_log P1 = p_log P @ [(MadeDir ?mp, uid)]
      | Some e \<Rightarrow> \<exists>x. e = AsFailed x \<and> (p_creds P1 = p_creds P \<or> (\<forall>y. x \<noteq> FnFailed y))"
    using d(2) by (cases e) (auto simp: P1)
qed

text \<open>What \<open>server.Unmount\<close> returns to a process with these credentials.\<close>

definition unmount_event :: "'f machine \<Rightarrow> creds \<Rightarrow> event" where
  "unmount_event m c = (case m_unmount m c of None \<Rightarrow> Unmounted | Some e \<Rightarrow> UnmountFailed e)"

lemma root_drop:
  assumes "linux_effects (m_calls m)" "valid_id uid" "valid_id gid"
    and "drop_privileges m True uid gid P = (P1, err)"
  shows "case err of
      None \<Rightarrow> P1 = P\<lparr>p_creds := user_creds uid gid\<rparr>
    | Some e \<Rightarrow> \<exists>x. e = DropFailed x \<and> (p_mounted P1 \<longleftrightarrow> p_mounted P \<and> m_unmount m (p_creds P1) \<noteq> None)
        \<and> p_log P1 = p_log P @ [(unmount_event m (p_creds P1), euid (p_creds P1))]"
proof -
  obtain c e where d: "Drop (m_calls m) uid gid (p_creds P) = (c, e)" by fastforce
  show ?thesis
  proof (cases e)
    case None
    with linux_effects.Drop_done [OF assms(1) _ assms(2,3)] d assms(4) show ?thesis
      by (auto simp: drop_privileges_def user_creds_def)
  next
    case (Some x)
    with d assms(4) show ?thesis
      by (cases "m_unmount m c") (auto simp: drop_privileges_def server_Unmount_def unmount_event_def)
  qed
qed

text \<open>The events before the mount.\<close>

definition before_mount :: "'f machine \<Rightarrow> int \<Rightarrow> (event \<times> int) list" where
  "before_mount m uid =
     (let mp = mountPoint_of (m_getenv m)
      in (if staleFUSE (m_statfs m) mp then [(DetachTried mp, 0)] else []) @ [(MadeDir mp, uid)]
         @ (if isMountPoint (m_dev m) mp then [(NestedMount, 0)] else []))"

text \<open>What a failed start leaves.  If the privileges could not be dropped, the mount is gone unless
  \<open>server.Unmount\<close>, the last thing done, failed too.  Before that nothing is mounted, and the
  credentials are the old ones unless \<open>As\<close> could not switch to the user or back.\<close>

definition after_failure :: "'f machine \<Rightarrow> creds \<Rightarrow> main_err \<Rightarrow> 'f process \<Rightarrow> bool" where
  "after_failure m c err P \<longleftrightarrow>
     (case err of
        DropFailed _ \<Rightarrow> (p_mounted P \<longleftrightarrow> m_unmount m (p_creds P) \<noteq> None)
          \<and> p_log P \<noteq> [] \<and> last (p_log P) = (unmount_event m (p_creds P), euid (p_creds P))
      | AsFailed (FnFailed _) \<Rightarrow> \<not> p_mounted P \<and> p_creds P = c
      | AsFailed _ \<Rightarrow> \<not> p_mounted P
      | _ \<Rightarrow> \<not> p_mounted P \<and> p_creds P = c)"

lemma go_live_root:
  assumes "linux_effects (m_calls m)" "root_now (p_creds P)" "valid_id uid" "valid_id gid" "\<not> p_mounted P"
    and "go_live m True uid gid recheck E P = (P', out)"
  shows "case out of
      Running \<Rightarrow> p_mounted P' \<and> p_creds P' = user_creds uid gid
        \<and> p_log P' = p_log P @ before_mount m uid
          @ [(Mounted (mountPoint_of (m_getenv m)) (mount_opts True), 0), (Started, uid),
             (Watching (watch_period (minutes recheck)), uid)]
    | Failed err \<Rightarrow> after_failure m (p_creds P) err P'
        \<and> (\<exists>evs. p_log P' = p_log P @ evs \<and> Started \<notin> fst ` set evs)
    | Blocked \<Rightarrow> False"
proof -
  let ?mp = "mountPoint_of (m_getenv m)"
  let ?P0 = "detach_stale m True P"
  have e: "euid (p_creds P) = 0" using assms(2) by (simp add: root_now_def)
  have P0: "p_creds ?P0 = p_creds P" "\<not> p_mounted ?P0"
    "p_log ?P0 = p_log P @ (if staleFUSE (m_statfs m) ?mp then [(DetachTried ?mp, 0)] else [])"
    using assms(5) e by (simp_all add: detach_stale_def Let_def)
  obtain P1 err where 1: "make_dir m True uid gid ?P0 = (P1, err)" by fastforce
  note l1 = root_make_dir [OF assms(1) _ assms(3,4) 1, unfolded P0(1), OF assms(2)]
  obtain P2 err2 where 2: "mount_root m True E P1 = (P2, err2)" by fastforce
  have l2: "p_creds P2 = p_creds P \<and> (case err2 of
      None \<Rightarrow> p_mounted P2 \<and> p_log P2 = p_log P @ before_mount m uid @ [(Mounted ?mp (mount_opts True), 0)]
        \<and> p_engine P2 \<noteq> None
    | Some x \<Rightarrow> \<not> p_mounted P2 \<and> p_log P2 = p_log P @ before_mount m uid \<and> (\<exists>y. x = MountFailed y))"
    if "err = None"
    using 2 P0 e l1 that
    by (auto simp: mount_root_def Let_def before_mount_def split: option.splits if_splits)
  obtain P3 err3 where 3: "drop_privileges m True uid gid P2 = (P3, err3)" by fastforce
  note l3 = root_drop [OF assms(1,3,4) 3]
  have b: "Started \<notin> fst ` set (before_mount m uid)"
    by (auto simp: before_mount_def Let_def)
  have u: "Started \<noteq> unmount_event m c" for c by (simp add: unmount_event_def split: option.split)
  consider (made) x where "err = Some x" | (mounted) x where "err = None" "err2 = Some x"
    | (dropped) x where "err = None" "err2 = None" "err3 = Some x"
    | (running) "err = None" "err2 = None" "err3 = None"
    by (cases err; cases err2; cases err3) auto
  then show ?thesis
  proof cases
    case made
    then have "P' = P1" "out = Failed x" using assms(6) 1 by (simp_all add: go_live_def)
    with l1 P0 made show ?thesis by (auto simp: after_failure_def split: priv_err.split)
  next
    case mounted
    then have "P' = P2" "out = Failed x" using assms(6) 1 2 by (simp_all add: go_live_def)
    with l2 mounted b show ?thesis by (auto simp: after_failure_def)
  next
    case dropped
    then have "P' = P3" "out = Failed x" using assms(6) 1 2 3 by (simp_all add: go_live_def)
    with l2 l3 dropped b u show ?thesis by (auto simp: after_failure_def)
  next
    case running
    then have "P' = start_serving m recheck P3" "out = Running"
      using assms(6) 1 2 3 by (simp_all add: go_live_def)
    with l2 l3 running show ?thesis
      by (auto simp: start_serving_def user_creds_def split: prod.split)
  qed
qed

lemma mount_ids_root:
  "mount_ids getenv c = Inr (asRoot, uid, gid) \<Longrightarrow> asRoot \<longleftrightarrow> euid c = 0"
  by (auto simp: mount_ids_def checked_ids_def split: sum.splits if_splits)

lemma runMount_cases:
  assumes "runMount m P = (P', out)"
  obtains (early) err where "P' = P" "out = Failed err" "\<And>x. err \<noteq> DropFailed x"
  | (late) asRoot uid gid recheck fl E where "mount_ids (m_getenv m) (p_creds P) = Inr (asRoot, uid, gid)"
      "P' = (logged (Loaded fl) P)\<lparr>p_engine := Some E\<rparr> \<and> out = Blocked
       \<or> go_live m asRoot uid gid recheck E (logged Applied ((logged (Loaded fl) P)\<lparr>p_engine := Some E\<rparr>))
         = (P', out)"
proof (cases "envInt (m_getenv m) ''SMARTCLIPS_WORKERS'' 2")
  case (Inl e)
  with assms show thesis
    by (intro early [of e]) (auto simp: runMount_def envInt_def split: if_splits option.splits)
next
  case w: (Inr workers)
  show thesis
  proof (cases "envInt (m_getenv m) ''SMARTCLIPS_RECHECK_MINUTES'' 15")
    case (Inl e)
    with assms w show thesis
      by (intro early [of e]) (auto simp: runMount_def envInt_def split: if_splits option.splits)
  next
    case r: (Inr recheck)
    show thesis
    proof (cases "mount_ids (m_getenv m) (p_creds P)")
      case (Inl e)
      moreover from this have "e \<noteq> DropFailed x" for x
        by (auto simp: mount_ids_def checked_ids_def envInt_def split: sum.splits if_splits option.splits)
      ultimately show thesis using assms w r by (intro early [of e]) (auto simp: runMount_def)
    next
      case i: (Inr ids)
      obtain asRoot uid gid where ids: "ids = (asRoot, uid, gid)" by (cases ids)
      show thesis
      proof (cases "config_Load (m_os m) (lb_sha256 (m_lib m)) (m_decode m) (cfgPath_of (m_getenv m))")
        case (Inl e)
        with assms w r i ids show thesis by (intro early [of "LoadFailed e"]) (auto simp: runMount_def)
      next
        case (Inr fl)
        with assms w r i ids show thesis
          by (intro late [of asRoot uid gid "first_engine m workers recheck uid gid fl" fl recheck])
            (auto simp: runMount_def Let_def split: if_splits)
      qed
    qed
  qed
qed

text \<open>C35: The start as root, when any of its system calls may fail.  When it gets as far as
  serving, the clips were read and applied first, a stale mount was asked to go (what that
  returned is ignored), the directory was made as the user, and only then the mount was made, as
  root; the workers and the watcher were started after the privileges were dropped for good,
  with the user's ids everywhere but in the saved user id.  When it fails, no worker was started.
  If it was the dropping of privileges that failed, \<open>server.Unmount\<close> was called, with the
  credentials that were left, and the mount is gone unless that failed too.  After any other
  failure nothing is mounted, and the process has the privileges it began with unless \<open>As\<close>
  could not take the user's or give them back.  An \<open>Apply\<close> that never returns leaves nothing
  mounted.  The largest number of 32 bits, which the check of the ids lets through, is excluded:
  it is not an id.\<close>

theorem root_start_in_order:
  assumes "runMount m P = (P', out)" "linux_effects (m_calls m)" "root_now (p_creds P)"
    and "\<not> p_mounted P" "p_log P = []"
    and "Atoi (m_getenv m ''PUID'') \<noteq> Some 4294967295" "Atoi (m_getenv m ''PGID'') \<noteq> Some 4294967295"
  shows "case out of
      Running \<Rightarrow> p_mounted P' \<and> (\<exists>uid gid every fl. 0 < uid \<and> 0 < gid \<and> 0 < every
        \<and> mount_ids (m_getenv m) (p_creds P) = Inr (True, uid, gid) \<and> p_creds P' = user_creds uid gid
        \<and> p_log P' = [(Loaded fl, 0), (Applied, 0)] @ before_mount m uid
          @ [(Mounted (mountPoint_of (m_getenv m)) (mount_opts True), 0), (Started, uid),
             (Watching every, uid)])
    | Failed err \<Rightarrow> after_failure m (p_creds P) err P' \<and> Started \<notin> fst ` set (p_log P')
    | Blocked \<Rightarrow> \<not> p_mounted P' \<and> p_creds P' = p_creds P \<and> Started \<notin> fst ` set (p_log P')"
proof -
  have e: "euid (p_creds P) = 0" using assms(3) by (simp add: root_now_def)
  from assms(1) show ?thesis
  proof (cases rule: runMount_cases)
    case early
    with assms(4,5) show ?thesis by (auto simp: after_failure_def split: main_err.split priv_err.split)
  next
    case (late asRoot uid gid recheck fl E)
    let ?Q = "(logged (Loaded fl) P)\<lparr>p_engine := Some E\<rparr>"
    have "asRoot = True" using mount_ids_root [OF late(1)] e by simp
    note late = late [unfolded this]
    have ids: "0 < uid" "0 < gid" "valid_id uid" "valid_id gid"
      using late(1) assms(6,7) e
      by (auto simp: mount_ids_def checked_ids_def envInt_def valid_id_def split: sum.splits if_splits option.splits)
    have Q: "p_creds (logged Applied ?Q) = p_creds P" "\<not> p_mounted (logged Applied ?Q)"
      "p_log (logged Applied ?Q) = [(Loaded fl, 0), (Applied, 0)]"
      "\<not> p_mounted ?Q" "p_log ?Q = [(Loaded fl, 0)]" "p_creds ?Q = p_creds P"
      using assms(4,5) e by simp_all
    have w: "0 < watch_period n" for n by (simp add: watch_period_def)
    show ?thesis
    proof (cases "out = Blocked \<and> P' = ?Q")
      case True
      with Q show ?thesis by simp
    next
      case False
      with late(2) have "go_live m True uid gid recheck E (logged Applied ?Q) = (P', out)" by blast
      note g = go_live_root [OF assms(2) _ ids(3,4) Q(2) this, unfolded Q(1), OF assms(3)]
      show ?thesis
      proof (cases out)
        case Running
        with g Q(3) ids(1,2) w late(1) show ?thesis by (auto simp: \<open>asRoot = True\<close>)
      next
        case (Failed err)
        with g Q(3) show ?thesis by auto
      qed (use g in simp)
    qed
  qed
qed

text \<open>The check of the ids lets the largest number of 32 bits through; with it as the user, \<open>Drop\<close>
  succeeds and the process goes on as root.\<close>

lemma largest_id_stays_root:
  assumes "linux (m_calls m)" "root_now (p_creds P)" "valid_id gid" "0 < gid"
    and "Atoi (m_getenv m ''PUID'') = Some 4294967295" "Atoi (m_getenv m ''PGID'') = Some gid"
  shows "mount_ids (m_getenv m) (p_creds P) = Inr (True, 4294967295, gid)"
    and "\<exists>P3. drop_privileges m True 4294967295 gid P = (P3, None) \<and> euid (p_creds P3) = 0"
proof -
  have e: "euid (p_creds P) = 0" using assms(2) by (simp add: root_now_def)
  have "Atoi [] = None" by (simp add: Atoi_def HasPrefix_def)
  then have "m_getenv m ''PUID'' \<noteq> []" "m_getenv m ''PGID'' \<noteq> []" using assms(5,6) by auto
  with assms(3-6) e show "mount_ids (m_getenv m) (p_creds P) = Inr (True, 4294967295, gid)"
    by (simp add: mount_ids_def envInt_def checked_ids_def valid_id_def)
  show "\<exists>P3. drop_privileges m True 4294967295 gid P = (P3, None) \<and> euid (p_creds P3) = 0"
    using linux.Drop_keeps_root [OF assms(1) e assms(3)]
    by (cases "Drop (m_calls m) 4294967295 gid (p_creds P)") (simp add: drop_privileges_def)
qed

section \<open>A concrete start\<close>

text \<open>A process that starts as root, with one clip whose layout is in the index.\<close>

definition demo_getenv :: "string \<Rightarrow> string" where
  "demo_getenv k =
     (if k = ''SMARTCLIPS_MEDIA'' then ''/m'' else if k = ''SMARTCLIPS_CACHE_DIR'' then ''/c''
      else if k = ''PUID'' then ''1000'' else if k = ''PGID'' then ''1001'' else [])"

definition demo_start_os :: os where
  "demo_start_os = demo_after
     \<lparr>os_ReadFile := (\<lambda>p. if p = ''/data/clips.json'' then Inr [0x31] else os_ReadFile demo_after p),
      os_Stat := (\<lambda>p. if p = ''/data/clips.json''
        then Inr \<lparr>fi_regular = True, fi_dir = False, fi_size = 1, fi_mtime = 8\<rparr>
        else os_Stat demo_after p)\<rparr>"

definition demo_machine :: "heap machine" where
  "demo_machine =
     \<lparr>m_getenv = demo_getenv, m_lib = demo_lib, m_decode = (\<lambda>_. Inr [demo_clip]),
      m_os = demo_start_os, m_os_at = (\<lambda>_. demo_after), m_ord = (\<lambda>_ xs. xs), m_now = 3,
      m_calls = linux_calls, m_statfs = (\<lambda>_. FsNotConnected), m_dev = (\<lambda>_. None),
      m_mkdir = (\<lambda>_ _. None), m_mount = (\<lambda>_ _. None), m_unmount = (\<lambda>_. None), m_iops = heap_ops, m_tree = empty_heap,
      m_add_order = id, m_tmps = [], m_rm = (\<lambda>_. None)\<rparr>"

definition demo_process :: "heap process" where
  "demo_process = \<lparr>p_creds = root_creds, p_fs = Map.empty, p_engine = None, p_mounted = False, p_log = []\<rparr>"

definition demo_version :: string where
  "demo_version = Version (lb_sha256 demo_lib) [0x31]"

lemma demo_env:
  "env demo_getenv ''SMARTCLIPS_MEDIA'' ''/media'' = ''/m''"
  "env demo_getenv ''SMARTCLIPS_CACHE_DIR'' ''/cache'' = ''/c''"
  "mountPoint_of demo_getenv = ''/mnt/smartclips/library''"
  "cfgPath_of demo_getenv = ''/data/clips.json''"
  "envInt demo_getenv ''SMARTCLIPS_WORKERS'' 2 = Inr 2"
  "envInt demo_getenv ''SMARTCLIPS_RECHECK_MINUTES'' 15 = Inr 15"
  "mount_ids demo_getenv root_creds = Inr (True, 1000, 1001)"
  by code_simp+

lemma demo_load:
  "config_Load demo_start_os (lb_sha256 demo_lib) (\<lambda>_. Inr [demo_clip]) ''/data/clips.json'' =
     Inr \<lparr>fl_clips = [demo_clip], fl_mtime = Some 8, fl_version = demo_version\<rparr>"
proof -
  have "TrimSpace (text_of [0x31]) \<noteq> []" by code_simp
  then show ?thesis
    by (simp add: config_Load_def demo_start_os_def Parse_def demo_version_def)
qed

lemma demo_start_valid: "Validate id demo_start_os [demo_clip] ''/m'' = []"
  by code_simp

lemma demo_after_facts:
  "ResolveInput id demo_after ''/m'' (c_input demo_clip) = Inr ''/m/F - [720p].ts''"
  "Stat (stat_text demo_lib demo_after) ''/m/F - [720p].ts'' = Inr demo_origin"
  "dataValid demo_lib demo_after demo_remuxed"
  "Load (read_text demo_lib demo_after) (lb_unmarshal demo_lib) ''/c/index/000000.json'' = Inr demo_remuxed"
proof -
  have "Finalize (demo_remuxed\<lparr>l_offsets := []\<rparr>) = (demo_remuxed, None)"
    by (simp add: Finalize_def demo_remuxed_def demo_data_def Range_def wrap64_nonneg)
  moreover have "lb_unmarshal demo_lib b = Inr (demo_remuxed\<lparr>l_offsets := []\<rparr>)"
    "l_version demo_remuxed = 1" for b
    by (simp_all add: demo_lib_def demo_remuxed_def)
  moreover have "os_ReadFile demo_after ''/c/index/000000.json'' = Inr [7]" by (simp add: demo_after_def)
  ultimately show "Load (read_text demo_lib demo_after) (lb_unmarshal demo_lib) ''/c/index/000000.json''
      = Inr demo_remuxed"
    by (simp add: Load_def read_text_def FormatVersion_def)
qed (code_simp+)

lemma demo_indexed:
  assumes "o_MediaRoot opt = ''/m''" "o_CacheDir opt = ''/c''"
  shows "indexed demo_lib demo_after opt demo_clip = Some demo_remuxed"
  by (simp add: indexed_def assms demo_key demo_cache_paths demo_after_facts)

definition demo_clips :: clips_file where
  "demo_clips = \<lparr>fl_clips = [demo_clip], fl_mtime = Some 8, fl_version = demo_version\<rparr>"

lemma demo_first: "e_stuck (first_engine demo_machine 2 15 1000 1001 demo_clips) = None"
proof -
  have "e_stuck (applyClip demo_lib (mount_ops heap_ops) demo_after ''G/A'' demo_clip E) = None"
    if "e_stuck E = None" "e_file E \<noteq> None" "map_of (e_clips E) ''G/A'' = None"
      "o_MediaRoot (e_opt E) = ''/m''" "o_CacheDir (e_opt E) = ''/c''" for E :: "heap root engine"
    using that by (auto simp: applyClip_def renew_clip_def Let_def demo_after_facts demo_key
        demo_cache_paths zero_state_def publish_def)
  then show ?thesis
    by (simp add: first_engine_def demo_machine_def Apply_def demo_clips_def demo_start_valid
        problems_of_def demo_Path engine_New_def want_clip_def engine_options_def demo_env)
qed

text \<open>The start with the calls \<open>sys\<close>: as \<open>linux_calls\<close> or \<open>limited_calls\<close> it reaches the dropping of
  privileges, and that decides.\<close>

lemma limited_As: "As limited_calls = As linux_calls"
proof (intro ext)
  show "As limited_calls uid gid fn c w = As linux_calls uid gid fn c w" for uid gid fn c and w :: 'w
    by (simp add: As_def limited_calls_def split: sum.split prod.split)
qed

lemma demo_As:
  assumes "sys = linux_calls \<or> sys = limited_calls"
  shows "As sys 1000 1001 fn root_creds w = (case fn (root_creds\<lparr>egid := 1001, euid := 1000\<rparr>) w of
    (w', err) \<Rightarrow> (w', root_creds, map_option FnFailed err))"
proof -
  have "valid_id 1000" "valid_id 1001" by (simp_all add: valid_id_def)
  from linux_calls.As_root [OF _ _ _ this, of root_creds fn w] assms show ?thesis
    by (auto simp: root_creds_def limited_As)
qed

lemma demo_live:
  fixes E :: "heap root engine"
  assumes "sys = linux_calls \<or> sys = limited_calls" "p_creds P = root_creds"
  shows "snd (go_live (demo_machine\<lparr>m_calls := sys\<rparr>) True 1000 1001 15 E P) =
    (case snd (Drop sys 1000 1001 root_creds) of None \<Rightarrow> Running | Some e \<Rightarrow> Failed (DropFailed e))"
proof -
  let ?m = "demo_machine\<lparr>m_calls := sys\<rparr>"
  have m: "m_mkdir ?m = (\<lambda>_ _. None)" "m_mount ?m = (\<lambda>_ _. None)" by (simp_all add: demo_machine_def)
  have P0: "p_creds (detach_stale ?m True P) = root_creds"
    using assms(2) by (simp add: detach_stale_def Let_def)
  obtain P1 where 1: "make_dir ?m True 1000 1001 (detach_stale ?m True P) = (P1, None)"
    "p_creds P1 = root_creds"
    by (simp add: make_dir_def P0 m demo_As [OF assms(1)])
  obtain P2 where 2: "mount_root ?m True E P1 = (P2, None)" "p_creds P2 = root_creds"
    using 1(2) by (simp add: mount_root_def Let_def m)
  have "snd (drop_privileges ?m True 1000 1001 P2) = map_option DropFailed (snd (Drop sys 1000 1001 root_creds))"
    by (simp add: drop_privileges_def 2(2) split: prod.split option.split)
  with 1 2 show ?thesis by (auto simp: go_live_def split: prod.splits option.splits)
qed

lemma demo_run:
  assumes "sys = linux_calls \<or> sys = limited_calls"
  shows "snd (runMount (demo_machine\<lparr>m_calls := sys\<rparr>) demo_process) =
    (case snd (Drop sys 1000 1001 root_creds) of None \<Rightarrow> Running | Some e \<Rightarrow> Failed (DropFailed e))"
proof -
  have m: "m_getenv demo_machine = demo_getenv" "m_os demo_machine = demo_start_os"
    "m_lib demo_machine = demo_lib" "m_decode demo_machine = (\<lambda>_. Inr [demo_clip])"
    "p_creds demo_process = root_creds"
    by (simp_all add: demo_machine_def demo_process_def)
  have "first_engine (demo_machine\<lparr>m_calls := sys\<rparr>) = first_engine demo_machine"
    by (simp add: first_engine_def fun_eq_iff)
  then show ?thesis
    using demo_first [unfolded demo_clips_def]
    by (simp add: runMount_def m demo_env demo_load Let_def demo_live [OF assms])
qed

lemma demo_runs: "\<exists>P'. runMount demo_machine demo_process = (P', Running)"
proof -
  have "snd (Drop linux_calls 1000 1001 root_creds) = None" by code_simp
  moreover have "demo_machine\<lparr>m_calls := linux_calls\<rparr> = demo_machine" by (simp add: demo_machine_def)
  ultimately have "snd (runMount demo_machine demo_process) = Running"
    using demo_run [of linux_calls] by simp
  then show ?thesis by (metis prod.collapse)
qed

lemma demo_fails:
  "\<exists>P'. runMount (demo_machine\<lparr>m_calls := limited_calls\<rparr>) demo_process
    = (P', Failed (DropFailed (SetresuidFailed ''EAGAIN'')))"
proof -
  have "snd (Drop limited_calls 1000 1001 root_creds) = Some (SetresuidFailed ''EAGAIN'')" by code_simp
  with demo_run [of limited_calls]
  have "snd (runMount (demo_machine\<lparr>m_calls := limited_calls\<rparr>) demo_process)
    = Failed (DropFailed (SetresuidFailed ''EAGAIN''))" by simp
  then show ?thesis by (metis prod.collapse)
qed

theorem root_start_in_order_witness:
  "(\<exists>P' fl every. runMount demo_machine demo_process = (P', Running)
     \<and> p_creds P' = user_creds 1000 1001
     \<and> p_log P' = [(Loaded fl, 0), (Applied, 0), (DetachTried ''/mnt/smartclips/library'', 0),
         (MadeDir ''/mnt/smartclips/library'', 1000),
         (Mounted ''/mnt/smartclips/library'' (mount_opts True), 0), (Started, 1000), (Watching every, 1000)])
   \<and> (\<exists>P'. runMount (demo_machine\<lparr>m_calls := limited_calls\<rparr>) demo_process
         = (P', Failed (DropFailed (SetresuidFailed ''EAGAIN'')))
     \<and> \<not> p_mounted P' \<and> last (p_log P') = (Unmounted, euid (p_creds P'))
     \<and> Started \<notin> fst ` set (p_log P'))"
proof
  have r: "root_now (p_creds demo_process)" "\<not> p_mounted demo_process" "p_log demo_process = []"
    "p_creds demo_process = root_creds"
    by (simp_all add: demo_process_def root_now_def root_creds_def)
  have u: "Atoi (demo_getenv ''PUID'') \<noteq> Some 4294967295" "Atoi (demo_getenv ''PGID'') \<noteq> Some 4294967295"
    by code_simp+
  show "\<exists>P' fl every. runMount demo_machine demo_process = (P', Running)
     \<and> p_creds P' = user_creds 1000 1001
     \<and> p_log P' = [(Loaded fl, 0), (Applied, 0), (DetachTried ''/mnt/smartclips/library'', 0),
         (MadeDir ''/mnt/smartclips/library'', 1000),
         (Mounted ''/mnt/smartclips/library'' (mount_opts True), 0), (Started, 1000), (Watching every, 1000)]"
  proof -
    obtain P' where P': "runMount demo_machine demo_process = (P', Running)" using demo_runs by blast
    have m: "m_getenv demo_machine = demo_getenv" "m_statfs demo_machine p = FsNotConnected"
      "m_dev demo_machine p = None" for p
      by (simp_all add: demo_machine_def)
    have "linux_effects (m_calls demo_machine)" by (simp add: demo_machine_def linux_results.linux_effects_axioms)
    moreover have "before_mount demo_machine 1000 =
        [(DetachTried ''/mnt/smartclips/library'', 0), (MadeDir ''/mnt/smartclips/library'', 1000)]"
      by (simp add: before_mount_def Let_def m demo_env staleFUSE_def isMountPoint_def)
    ultimately show ?thesis
      using root_start_in_order [OF P' _ r(1-3)] P' u by (auto simp: m demo_env r(4))
  qed
  let ?m = "demo_machine\<lparr>m_calls := limited_calls\<rparr>"
  obtain P' where P': "runMount ?m demo_process = (P', Failed (DropFailed (SetresuidFailed ''EAGAIN'')))"
    using demo_fails by blast
  have m: "m_getenv ?m = demo_getenv" "m_unmount ?m = (\<lambda>_. None)" by (simp_all add: demo_machine_def)
  have "linux_effects (m_calls ?m)" by (simp add: limited_calls.linux_effects_axioms)
  from root_start_in_order [OF P' this r(1-3)] u
  show "\<exists>P'. runMount ?m demo_process = (P', Failed (DropFailed (SetresuidFailed ''EAGAIN'')))
     \<and> \<not> p_mounted P' \<and> last (p_log P') = (Unmounted, euid (p_creds P'))
     \<and> Started \<notin> fst ` set (p_log P')"
    using P' by (auto simp: m after_failure_def unmount_event_def)
qed

theorem mounted_library_complete_witness:
  "\<exists>P' E. runMount demo_machine demo_process = (P', Running) \<and> p_engine P' = Some E
     \<and> root_clips (e_sink E) ''G/A'' = Some (demo_remuxed, clip_nfo demo_lib demo_clip, 8)
     \<and> view heap_ops (r_tree (e_sink E)) [''G'', ''A.mkv''] = Some (ClipNode ''G/A'' demo_remuxed)"
proof -
  obtain P' where P': "runMount demo_machine demo_process = (P', Running)" using demo_runs by blast
  have m: "m_getenv demo_machine = demo_getenv" "m_os demo_machine = demo_start_os"
    "m_lib demo_machine = demo_lib" "m_decode demo_machine = (\<lambda>_. Inr [demo_clip])"
    "m_os_at demo_machine p = demo_after" "m_iops demo_machine = heap_ops"
    "m_tree demo_machine = empty_heap" for p
    by (simp_all add: demo_machine_def)
  have t: "inode_tree (m_iops demo_machine) heap_wf" unfolding m by unfold_locales
  have f: "heap_wf (m_tree demo_machine)" "fresh_tree (m_iops demo_machine) (m_tree demo_machine)"
    unfolding m by (rule empty_heap_fresh)+
  have l: "config_Load (m_os demo_machine) (lb_sha256 (m_lib demo_machine)) (m_decode demo_machine)
      (cfgPath_of (m_getenv demo_machine)) = Inr demo_clips"
    by (simp add: m demo_env demo_load demo_clips_def)
  have v: "[demo_clip] = valid_clips (m_lib demo_machine) (m_os demo_machine)
      (env (m_getenv demo_machine) ''SMARTCLIPS_MEDIA'' ''/media'') demo_clips"
    by (simp add: m demo_env valid_clips_def demo_clips_def demo_start_valid problems_of_def)
  have c: "conflict_free (Path ` set [demo_clip])"
    by (simp add: demo_Path conflict_free_def clip_path_def elements_def dirs_of_def mkv_of_def
        nfo_of_def name_of_def is_plain_def is_name_def)
  have o: "lib_ok (m_lib demo_machine)" "is_order (m_ord demo_machine)"
    "mset (m_add_order demo_machine xs) = mset xs" for xs
    by (simp_all add: m demo_lib_ok) (simp_all add: demo_machine_def is_order_def)
  note L = mounted_library_complete [OF P' t f l v c o]
  obtain E where E: "p_engine P' = Some E" using L by blast
  note L = L [unfolded E option.inject ex_simps(1) [symmetric]]
  have o: "o_MediaRoot (e_opt E) = ''/m''" "o_CacheDir (e_opt E) = ''/c''"
    using L by (simp_all add: m demo_env)
  have "root_clips (e_sink E) (Path demo_clip) = map_option
      (\<lambda>l. (l, clip_nfo demo_lib demo_clip, file_time demo_clips l)) (indexed demo_lib demo_after (e_opt E) demo_clip)"
    using L [of "[]" DirNode "[]" demo_clip] by (simp add: m)
  then have R: "root_clips (e_sink E) ''G/A'' = Some (demo_remuxed, clip_nfo demo_lib demo_clip, 8)"
    by (simp add: demo_Path demo_indexed [OF o] file_time_def demo_clips_def)
  then obtain e where e: "map_of (r_entries (e_sink E)) ''G/A'' = Some e" "e_layout e = demo_remuxed"
    by (auto simp: root_clips_def)
  have "served (map_of (r_entries (e_sink E))) [''G'', ''A.mkv''] (ClipNode ''G/A'' demo_remuxed)"
    using e by (auto simp: served_def mkv_of_def dirs_of_def name_of_def elements_def)
  then have "view heap_ops (r_tree (e_sink E)) [''G'', ''A.mkv''] = Some (ClipNode ''G/A'' demo_remuxed)"
    using L [of "[''G'', ''A.mkv'']" "ClipNode ''G/A'' demo_remuxed"] by (simp add: m)
  with P' E R show ?thesis by blast
qed

section \<open>The reload loop\<close>

context engine_sink
begin

lemma reload_file:
  "config_Load (sn_os sn) (lb_sha256 lb) decode path = Inr f
    \<Longrightarrow> e_file (reload lb decode ops path sn E) = Some f"
  by (simp add: reload_def Apply_keeps)

end

lemma watch_run_append:
  "watch_run lb decode ops path (xs @ ys) s =
    (case watch_run lb decode ops path xs s of None \<Rightarrow> None | Some s' \<Rightarrow> watch_run lb decode ops path ys s')"
  by (induction lb decode ops path xs s rule: watch_run.induct) (auto split: option.split)

text \<open>A turn of the loop leaves the engine as it is or is a step of the engine.\<close>

lemma watch_step_engine:
  assumes "watch_step lb decode ops path (now, sig, sn) (w, E) = Some (w', E')"
    and "is_order (sn_ord sn)" "\<And>p. index_law lb (e_opt E) (sn_os_at sn p)"
  shows "E' = E \<or> engine_step lb ops (E, J) (E', J)"
proof -
  have "E' = E \<or> e_stuck E = None \<and> E' = reload lb decode ops path sn E"
    using assms(1) by (cases sig) (auto split: if_splits option.splits)
  then show ?thesis
    using engine_step.apply_file [OF _ assms(2,3)] by (auto simp: reload_def split: sum.splits)
qed

definition other_signal :: "string \<Rightarrow> signal \<Rightarrow> bool" where
  "other_signal path sig \<longleftrightarrow> (\<forall>n. sig = FsEvent n \<longrightarrow> path_Base n \<noteq> path_Base path)"

lemma watch_running:
  "watch_run lb decode ops path xs (w, E) = Some (w', E') \<Longrightarrow>
    w_running w' \<longleftrightarrow> w_running w \<and> list_all (\<lambda>(_, _, sig, _). sig \<noteq> Done) xs"
proof (induction xs arbitrary: w E)
  case (Cons x xs)
  obtain g now sig sn where x: "x = (g, now, sig, sn)" by (metis prod_cases4)
  with Cons.prems obtain w1 E1 where s: "watch_step lb decode ops path (now, sig, sn) (w, g E) = Some (w1, E1)"
    "watch_run lb decode ops path xs (w1, E1) = Some (w', E')"
    by (auto split: option.splits)
  have "w_running w1 \<longleftrightarrow> w_running w \<and> sig \<noteq> Done"
    using s(1) by (cases sig) (auto split: if_splits option.splits)
  with Cons.IH [OF s(2)] show ?case by (auto simp: x)
qed simp

lemma armed_run:
  assumes "watch_run lb decode (mount_ops iops) path zs (w, E) = Some (w', E')"
    and "w_debounce w = Some d" "list_all (\<lambda>(_, _, sig, _). other_signal path sig) zs"
  shows "w_debounce w' = Some d
    \<or> (\<exists>as g now sn bs w1 E1. zs = as @ (g, now, Debounced, sn) # bs \<and> d \<le> now
        \<and> watch_run lb decode (mount_ops iops) path (as @ [(g, now, Debounced, sn)]) (w, E) = Some (w1, E1)
        \<and> (\<forall>f. config_Load (sn_os sn) (lb_sha256 lb) decode path = Inr f \<longrightarrow> e_file E1 = Some f))"
  using assms
proof (induction zs arbitrary: w E)
  case (Cons z zs)
  obtain g now sig sn where z: "z = (g, now, sig, sn)" by (metis prod_cases4)
  from Cons.prems(1) obtain w1 E1 where s: "watch_step lb decode (mount_ops iops) path (now, sig, sn) (w, g E) = Some (w1, E1)"
    "watch_run lb decode (mount_ops iops) path zs (w1, E1) = Some (w', E')"
    by (auto simp: z split: option.splits)
  show ?case
  proof (cases "sig = Debounced")
    case True
    then have "d \<le> now" "E1 = reload lb decode (mount_ops iops) path sn (g E)"
      using s(1) Cons.prems(2) by (auto split: if_splits)
    moreover have "watch_run lb decode (mount_ops iops) path ([] @ [(g, now, Debounced, sn)]) (w, E) = Some (w1, E1)"
      using True s(1) by simp
    moreover have "z # zs = [] @ (g, now, Debounced, sn) # zs" using True z by simp
    ultimately show ?thesis using mount.reload_file [of sn lb decode path] by blast
  next
    case False
    have "w_debounce w1 = Some d"
      using s(1) False Cons.prems(2,3) by (cases sig) (auto simp: z other_signal_def split: if_splits)
    have "list_all (\<lambda>(_, _, sig, _). other_signal path sig) zs" using Cons.prems(3) by simp
    from Cons.IH [OF s(2) \<open>w_debounce w1 = Some d\<close> this] show ?thesis
    proof (elim disjE exE conjE)
      fix as g' now' sn' bs w2 E2
      assume h: "zs = as @ (g', now', Debounced, sn') # bs" "d \<le> now'"
        "watch_run lb decode (mount_ops iops) path (as @ [(g', now', Debounced, sn')]) (w1, E1) = Some (w2, E2)"
        "\<forall>f. config_Load (sn_os sn') (lb_sha256 lb) decode path = Inr f \<longrightarrow> e_file E2 = Some f"
      moreover have "watch_run lb decode (mount_ops iops) path ((z # as) @ [(g', now', Debounced, sn')]) (w, E) = Some (w2, E2)"
        using h(3) s(1) by (simp add: z)
      moreover have "z # zs = (z # as) @ (g', now', Debounced, sn') # bs" using h(1) by simp
      ultimately show ?thesis by blast
    qed auto
  qed
qed simp

text \<open>The fallback: while the loop runs and the engine's mutex is free, a tick is always possible,
  and the engine then has what the file holds at that moment.\<close>

lemma tick_reloads:
  assumes "w_running w" "e_stuck E = None"
  shows "\<exists>E'. watch_step lb decode (mount_ops iops) path (now, Ticked, sn) (w, E) = Some (w, E')
    \<and> (\<forall>f. config_Load (sn_os sn) (lb_sha256 lb) decode path = Inr f \<longrightarrow> e_file E' = Some f)"
  using assms mount.reload_file [of sn lb decode path] by auto

text \<open>C36: The reload loop misses no event that it receives.  Take any run of the loop, with any
  changes of the engine by other goroutines between its turns, and in it the last event received
  for the clips file.  Then either the timer is set for half a second after that event, and from
  then on, while the context is not done and whatever the engine is by then, unless an \<open>Apply\<close>
  waits for ever with its mutex held, the timer's case can be taken and reloads the file; or the
  loop has reloaded the file at least half a second after the event, and right after that the
  engine had what the file held at that moment, if it could be read.  This says nothing of changes
  that the watcher does not report (those before the directory was added, or after an error of
  the watcher, which the loop never reads), and a recheck that began before the reload may put
  the older file back (\<open>Recheck_reverts\<close>); both wait for the next periodic reload.\<close>

theorem watch_misses_no_change:
  assumes "watch_run lb decode (mount_ops iops) path (ys @ (g, t, FsEvent n, sn) # zs) (watch_start ok, E)
      = Some (w, E')"
    and "path_Base n = path_Base path" "list_all (\<lambda>(_, _, sig, _). other_signal path sig) zs"
  shows "w_debounce w = Some (t + 500000000)
      \<and> (list_all (\<lambda>(_, _, sig, _). sig \<noteq> Done) zs \<and> t + 500000000 \<le> now \<and> e_stuck En = None \<longrightarrow>
          watch_step lb decode (mount_ops iops) path (now, Debounced, sn') (w, En)
            = Some (w\<lparr>w_debounce := None\<rparr>, reload lb decode (mount_ops iops) path sn' En))
    \<or> (\<exists>as h now sn1 bs w1 E1. zs = as @ (h, now, Debounced, sn1) # bs \<and> t + 500000000 \<le> now
        \<and> watch_run lb decode (mount_ops iops) path (ys @ (g, t, FsEvent n, sn) # as @ [(h, now, Debounced, sn1)])
            (watch_start ok, E) = Some (w1, E1)
        \<and> (\<forall>f. config_Load (sn_os sn1) (lb_sha256 lb) decode path = Inr f \<longrightarrow> e_file E1 = Some f))"
proof -
  let ?run = "watch_run lb decode (mount_ops iops) path"
  obtain w0 E0 where 0: "?run (ys @ [(g, t, FsEvent n, sn)]) (watch_start ok, E) = Some (w0, E0)"
    "?run zs (w0, E0) = Some (w, E')"
    using assms(1) watch_run_append [of lb decode "mount_ops iops" path "ys @ [(g, t, FsEvent n, sn)]" zs]
    by (auto split: option.splits)
  then have d: "w_debounce w0 = Some (t + 500000000)" "w_running w0"
    using assms(2) by (auto simp: watch_run_append split: option.splits if_splits)
  from armed_run [OF 0(2) d(1) assms(3)] show ?thesis
  proof (elim disjE exE conjE)
    fix as h now sn1 bs w1 E1
    assume r: "zs = as @ (h, now, Debounced, sn1) # bs" "t + 500000000 \<le> now"
      "?run (as @ [(h, now, Debounced, sn1)]) (w0, E0) = Some (w1, E1)"
      "\<forall>f. config_Load (sn_os sn1) (lb_sha256 lb) decode path = Inr f \<longrightarrow> e_file E1 = Some f"
    moreover have "?run (ys @ (g, t, FsEvent n, sn) # as @ [(h, now, Debounced, sn1)]) (watch_start ok, E) = Some (w1, E1)"
      using watch_run_append [of lb decode "mount_ops iops" path "ys @ [(g, t, FsEvent n, sn)]"
          "as @ [(h, now, Debounced, sn1)]" "(watch_start ok, E)"] 0(1) r(3) by simp
    ultimately show ?thesis by blast
  qed (use watch_running [OF 0(2)] d(2) in simp)
qed

definition demo_snapshot :: snapshot where
  "demo_snapshot = \<lparr>sn_os = demo_start_os, sn_os_at = (\<lambda>_. demo_after), sn_ord = (\<lambda>_ xs. xs)\<rparr>"

theorem watch_misses_no_change_witness:
  "\<exists>w E1. watch_run demo_lib (\<lambda>_. Inr [demo_clip]) (mount_ops heap_ops) ''/data/clips.json''
      [(id, 100, FsEvent ''/data/clips.json'', demo_snapshot),
       (\<lambda>E. E\<lparr>e_dirty := True\<rparr>, 500000200, Debounced, demo_snapshot)]
      (watch_start True, engine_New demo_options (New 1 1 False 0 empty_heap)) = Some (w, E1)
    \<and> e_file E1 = Some demo_clips"
proof -
  let ?E = "engine_New demo_options (New 1 1 False 0 empty_heap)" and ?sn = demo_snapshot
  let ?run = "watch_run demo_lib (\<lambda>_. Inr [demo_clip]) (mount_ops heap_ops) ''/data/clips.json''"
  let ?ev = "(id, 100, FsEvent ''/data/clips.json'', ?sn)"
  let ?g = "\<lambda>E :: heap root engine. E\<lparr>e_dirty := True\<rparr>"
  let ?E1 = "reload demo_lib (\<lambda>_. Inr [demo_clip]) (mount_ops heap_ops) ''/data/clips.json'' ?sn (?g ?E)"
  have r: "?run [?ev, (?g, 500000200, Debounced, ?sn)] (watch_start True, ?E)
      = Some (\<lparr>w_running = True, w_open = True, w_debounce = None\<rparr>, ?E1)"
    by (simp add: watch_start_def engine_New_def)
  have c: "config_Load (sn_os ?sn) (lb_sha256 demo_lib) (\<lambda>_. Inr [demo_clip]) ''/data/clips.json'' = Inr demo_clips"
    by (simp add: demo_snapshot_def demo_load demo_clips_def)
  have o: "list_all (\<lambda>(_, _, sig, _). other_signal ''/data/clips.json'' sig) [(?g, 500000200::int, Debounced, ?sn)]"
    by (simp add: other_signal_def)
  note W = watch_misses_no_change [where ys = "[]" and zs = "[(?g, 500000200, Debounced, ?sn)]"
      and now = 0 and sn' = ?sn and En = ?E,
      unfolded append_Nil, OF r refl o]
  show ?thesis
    using W
  proof (elim disjE exE conjE)
    fix as h now sn1 bs w1 E1
    assume z: "[(?g, 500000200::int, Debounced, ?sn)] = as @ (h, now, Debounced, sn1) # bs"
      and f: "?run (?ev # as @ [(h, now, Debounced, sn1)]) (watch_start True, ?E) = Some (w1, E1)"
      and e: "\<forall>f. config_Load (sn_os sn1) (lb_sha256 demo_lib) (\<lambda>_. Inr [demo_clip]) ''/data/clips.json''
        = Inr f \<longrightarrow> e_file E1 = Some f"
    from z have n: "as = []" "h = ?g" "now = 500000200" "sn1 = ?sn" by (simp_all add: Cons_eq_append_conv)
    have "e_file E1 = Some demo_clips" using e [rule_format, of demo_clips] c unfolding n(4) .
    then show ?thesis using f [unfolded n append_Nil] by blast
  qed simp
qed

section \<open>Limits\<close>

context engine_sink
begin

lemma applyClip_queues:
  assumes "map_of (e_clips E) p = None" "lib_ok lb"
    and "ResolveInput (lb_ul lb) os (o_MediaRoot (e_opt E)) (c_input c) = Inr input"
    and "Stat (stat_text lb os) input = Inr origin" "indexed lb os (e_opt E) c = None"
  shows "p \<in> e_queued (applyClip lb ops os p c E)"
proof -
  have "[] \<noteq> clipKey lb c origin" using clipKey_nonempty [OF assms(2)] by metis
  with assms show ?thesis
    by (simp add: applyClip_def zero_state_def renew_clip_def Let_def indexed_def split: sum.splits if_splits)
qed

lemma applyClip_queued: "e_queued E \<subseteq> e_queued (applyClip lb ops os p c E)"
proof (cases rule: applyClip_cases [where E = E and p = p and lb = lb and os = os and c = c])
  case (renewed input origin key)
  let ?st = "case map_of (e_clips E) p of Some st \<Rightarrow> st | None \<Rightarrow> zero_state"
  show ?thesis
    unfolding renewed(1)
    by (cases rule: renew_clip_cases [where c = c and input = input and origin = origin
          and key = key and st = ?st and E = E and p = p and lb = lb and os = os]) auto
qed (auto simp: fail_clip_def keep_clip_def Let_def)

lemma want_loop_queued:
  "e_queued E \<subseteq> e_queued (foldl (\<lambda>E p. want_clip lb ops os_at want p E) E ps)"
  by (rule foldl_inv [where P = "\<lambda>E'. e_queued E \<subseteq> e_queued E'"])
    (auto simp: want_clip_def split: option.split dest: applyClip_queued [THEN subsetD])

lemma want_loop_queues:
  assumes "e_stuck (foldl (\<lambda>E p. want_clip lb ops os_at want p E) E ps) = None"
    and "p \<in> set ps" "map_of want p = Some c" "lib_ok lb"
    and "ResolveInput (lb_ul lb) (os_at p) (o_MediaRoot (e_opt E)) (c_input c) = Inr input"
    and "Stat (stat_text lb (os_at p)) input = Inr origin" "indexed lb (os_at p) (e_opt E) c = None"
    and "map_of (e_clips E) p = None"
  shows "p \<in> e_queued (foldl (\<lambda>E p. want_clip lb ops os_at want p E) E ps)"
  using assms(1,2,5-)
proof (induction ps arbitrary: E)
  case (Cons q ps)
  let ?E = "want_clip lb ops os_at want q E"
  have s: "e_stuck E = None"
    using Cons.prems(1) want_loop_stuck [of E] want_clip_simps(2) [of E] by (cases "e_stuck E") auto
  show ?case
  proof (cases "q = p")
    case True
    then have "p \<in> e_queued ?E"
      using applyClip_queues [OF Cons.prems(6) assms(4) Cons.prems(3-5)]
      by (simp add: want_clip_simps(3) [OF assms(3) s])
    from subsetD [OF want_loop_queued this] show ?thesis by simp
  next
    case False
    have "e_opt ?E = e_opt E \<and> map_of (e_clips ?E) p = map_of (e_clips E) p"
      using applyClip_keeps applyClip_other [OF False] by (simp add: want_clip_def split: option.split)
    with Cons.IH [of ?E] Cons.prems False show ?thesis by simp
  qed
qed simp

text \<open>The first \<open>Apply\<close> does not return when more clips have to be built than the queue holds.\<close>

lemma Apply_fills_queue:
  assumes "e_clips E = []" "\<And>p. clips (e_sink E) p = None" "lib_ok lb" "is_order ord"
    and "queue_ok E []" "\<And>p. index_law lb (e_opt E) (os_at p)" "e_stuck E = None"
    and "\<And>c. c \<in> U \<Longrightarrow> c \<in> set (valid_clips lb os (o_MediaRoot (e_opt E)) fl)"
    and "\<And>c. c \<in> U \<Longrightarrow> \<exists>input origin. ResolveInput (lb_ul lb) (os_at (Path c)) (o_MediaRoot (e_opt E)) (c_input c) = Inr input
      \<and> Stat (stat_text lb (os_at (Path c))) input = Inr origin \<and> indexed lb (os_at (Path c)) (e_opt E) c = None"
    and "queue_size < card (Path ` U)"
  shows "e_stuck (Apply lb ops os os_at ord fl E) = Some QueueFull"
proof (rule ccontr)
  let ?E = "Apply lb ops os os_at ord fl E"
  assume "e_stuck ?E \<noteq> Some QueueFull"
  have inv: "engine_inv lb clips E []" using assms(1,2,5) by (simp add: engine_inv_def good_at_def)
  then have "engine_inv lb clips ?E []" 
    using Apply_inv [where lb = lb and os_at = os_at and ord = ord and E = E] assms(3,4,6) by blast
  then have q: "e_stuck ?E = None" "e_queued ?E = set (e_queue ?E)" "length (e_queue ?E) \<le> queue_size"
    using \<open>e_stuck ?E \<noteq> Some QueueFull\<close> by (auto simp: engine_inv_def queue_ok_def received_def)
  have "Path c \<in> e_queued ?E" if cU: "c \<in> U" for c
  proof -
    obtain input origin where i: "ResolveInput (lb_ul lb) (os_at (Path c)) (o_MediaRoot (e_opt E)) (c_input c) = Inr input"
      "Stat (stat_text lb (os_at (Path c))) input = Inr origin" "indexed lb (os_at (Path c)) (e_opt E) c = None"
      using assms(9) [OF cU] by blast
    from Apply_wants [OF assms(1,2,4) q(1) assms(8) [OF cU]] obtain want E2 ps where
      W: "map_of want (Path c) = Some c" "e_opt E2 = e_opt E" "map_of (e_clips E2) (Path c) = None"
      "Path c \<in> set ps" "e_stuck (foldl (\<lambda>E p. want_clip lb ops os_at want p E) E2 ps) = None"
      "?E = (foldl (\<lambda>E p. want_clip lb ops os_at want p E) E2 ps)\<lparr>e_dirty := True\<rparr>" by metis
    show ?thesis
      unfolding W(6) using want_loop_queues [OF W(5,4,1) assms(3) _ _ _ W(3)] i by (simp add: W(2))
  qed
  then have "Path ` U \<subseteq> set (e_queue ?E)" using q(2) by auto
  then have "card (Path ` U) \<le> length (e_queue ?E)"
    using card_mono [OF finite_set] card_length le_trans by metis
  with q(3) assms(10) show False by simp
qed

end

text \<open>The workers start after the first \<open>Apply\<close>, so the process then waits for ever, with nothing
  mounted.\<close>

lemma too_many_new_clips_block:
  assumes "envInt (m_getenv m) ''SMARTCLIPS_WORKERS'' 2 = Inr workers"
    and "envInt (m_getenv m) ''SMARTCLIPS_RECHECK_MINUTES'' 15 = Inr recheck"
    and "mount_ids (m_getenv m) (p_creds P) = Inr ids"
    and "config_Load (m_os m) (lb_sha256 (m_lib m)) (m_decode m) (cfgPath_of (m_getenv m)) = Inr fl"
    and "lib_ok (m_lib m)" "is_order (m_ord m)" "\<And>p opt. index_law (m_lib m) opt (m_os_at m p)"
    and "U \<subseteq> set (valid_clips (m_lib m) (m_os m) media fl)"
    and "media = env (m_getenv m) ''SMARTCLIPS_MEDIA'' ''/media''"
    and "\<And>c opt. c \<in> U \<Longrightarrow> \<exists>input origin. indexed (m_lib m) (m_os_at m (Path c)) opt c = None
      \<and> ResolveInput (lb_ul (m_lib m)) (m_os_at m (Path c)) media (c_input c) = Inr input
      \<and> Stat (stat_text (m_lib m) (m_os_at m (Path c))) input = Inr origin"
    and "65536 < card (Path ` U)"
  shows "snd (runMount m P) = Blocked"
proof -
  obtain asRoot uid gid where ids: "ids = (asRoot, uid, gid)" by (cases ids)
  let ?E = "engine_New (engine_options (m_getenv m) workers recheck)
      (New (of_int uid) (of_int gid) True (m_now m) (m_tree m))"
  have E: "e_clips ?E = []" "root_clips (e_sink ?E) p = None" "queue_ok ?E []" "e_stuck ?E = None"
    "o_MediaRoot (e_opt ?E) = media" for p
    by (simp_all add: engine_New_def root_clips_def New_def queue_ok_def queue_size_def engine_options_def
        received_def building_paths_def assms(9))
  have "e_stuck (first_engine m workers recheck uid gid fl) = Some QueueFull"
    unfolding first_engine_def
  proof (rule mount.Apply_fills_queue [OF E(1,2) assms(5,6) E(3) assms(7) E(4), where U = U], unfold E(5))
    show "c \<in> U \<Longrightarrow> c \<in> set (valid_clips (m_lib m) (m_os m) media fl)" for c using assms(8) by blast
    show "c \<in> U \<Longrightarrow> \<exists>input origin.
        ResolveInput (lb_ul (m_lib m)) (m_os_at m (Path c)) media (c_input c) = Inr input
        \<and> Stat (stat_text (m_lib m) (m_os_at m (Path c))) input = Inr origin
        \<and> indexed (m_lib m) (m_os_at m (Path c)) (e_opt ?E) c = None" for c
      using assms(10) [of c "e_opt ?E"] by blast
    show "queue_size < card (Path ` U)" using assms(11) by (simp add: queue_size_def)
  qed
  then show ?thesis using assms(1-4) by (simp add: runMount_def ids Let_def)
qed

text \<open>\<open>Validate\<close> accepts a clip whose folder has the name of another clip's file; the tree then
  shows the file, below which the other clip cannot be opened.\<close>

definition twins :: "clip_def list" where
  "twins = [demo_clip\<lparr>c_output := ''B'', c_group := []\<rparr>, demo_clip\<lparr>c_output := ''C'', c_group := ''B.mkv''\<rparr>]"

lemma names_collide:
  "Validate id demo_os twins ''/m'' = []" "\<not> conflict_free (Path ` set twins)"
  "view heap_ops (r_tree (SetClip heap_ops ''B.mkv/C'' demo_final None 7 (SetClip heap_ops ''B'' demo_final None 5
     (OnAdd heap_ops [] (New 1 1 True 0 empty_heap))))) [''B.mkv''] = Some (ClipNode ''B'' demo_final)"
proof -
  show "Validate id demo_os twins ''/m'' = []" by code_simp
  have "Path ` set twins = {''B'', ''B.mkv/C''}"
    by (auto simp: twins_def Path_def trim_char_def)
  then show "\<not> conflict_free (Path ` set twins)"
    by (simp add: conflict_free_def mkv_of_def dirs_of_def name_of_def elements_def)
  show "view heap_ops (r_tree (SetClip heap_ops ''B.mkv/C'' demo_final None 7 (SetClip heap_ops ''B'' demo_final None 5
     (OnAdd heap_ops [] (New 1 1 True 0 empty_heap))))) [''B.mkv''] = Some (ClipNode ''B'' demo_final)"
    by code_simp
qed

end
