(* ===== verification/Spec2Isabelle.thy ===== *)
theory Spec2Isabelle
  imports Prelude Float64 Ebml Layout Mkv MkvBlocks MkvSource MkvClip Paths Sink Clipfs
    Config Nfo Backup Privs Engine EngineRun EngineMount Ui Command Startup
begin

text \<open>
  SmartClips serves clips of media files as a read-only file system.  A clip is never copied
  when its source is a Matroska file: it is a list of literal bytes and of byte ranges of the
  source, assembled so that the result is a playable Matroska file.  Other sources are remuxed
  into a cache.  One process mounts the clips of a JSON file and follows its changes; another
  one serves a web page that edits it.

  \<^bold>\<open>The program and its model.\<close>

  \<^item> \<open>Prelude\<close>: Go's integers as words, the interface \<open>io.ReaderAt\<close> as the locale
    \<open>reader_at\<close> (interpreted on a file with fixed content), \<open>sort.Search\<close> as the binary
    search of the \<open>sort\<close> package.
  \<^item> \<open>Float64\<close>: \<open>float64\<close> with rounding to nearest even, its conversions and bit patterns.
    The sign of zero is not kept; a conversion to \<open>uint64\<close> outside its range, which the
    language leaves to the implementation, is the parameter \<open>oor\<close>.
  \<^item> \<open>Ebml\<close>: \<^verbatim>\<open>internal/ebml/ebml.go\<close>, the element framing.  The locales \<open>prefix_codec\<close> and
    \<open>codec_pair\<close> state what a writer owes its reader and are interpreted on IDs and sizes.
  \<^item> \<open>Layout\<close>: \<^verbatim>\<open>internal/layout/layout.go\<close>, virtual files made of parts, and atomic saves.
  \<^item> \<open>Mkv\<close>: \<^verbatim>\<open>internal/mkv/mkv.go\<close>, parsing a file's metadata and laying out a clip; its
    lemmas are in \<open>MkvBlocks\<close> (blocks and their timestamps), \<open>MkvSource\<close> (what an opened
    file promises, the locale \<open>cue_sorter\<close> for \<open>sort.Slice\<close>) and \<open>MkvClip\<close> (the assembled
    file).
  \<^item> \<open>Paths\<close>: the functions of \<open>path\<close>, \<open>path/filepath\<close> and \<open>strings\<close> that the program uses, on
    Linux, with what they do to clean absolute paths.
  \<^item> \<open>Config\<close>: \<^verbatim>\<open>internal/config/config.go\<close>, the clips file, its validation, and the resolution
    of a clip's input, links and replaced files included.
  \<^item> \<open>Nfo\<close>, \<open>Backup\<close>: \<^verbatim>\<open>internal/nfo/nfo.go\<close> and \<^verbatim>\<open>internal/backup/backup.go\<close>.
  \<^item> \<open>Sink\<close>: the interface through which the engine publishes clips, as the locale \<open>clip_sink\<close>;
    \<open>Clipfs\<close>: \<^verbatim>\<open>internal/clipfs/clipfs.go\<close>, the tree behind the mount, over the locale
    \<open>inode_tree\<close> of go-fuse's inode operations (interpreted on a heap of inodes); it
    interprets \<open>clip_sink\<close>.
  \<^item> \<open>Engine\<close>: \<^verbatim>\<open>internal/engine/engine.go\<close>.  \<open>EngineRun\<close> has its workers and housekeeping as the
    step relations \<open>work\<close> and \<open>engine_step\<close>, and the invariants of all runs, over the locale
    \<open>engine_sink\<close>; \<open>EngineMount\<close> interprets it on the mount and states what runs promise.
  \<^item> \<open>Privs\<close>: \<^verbatim>\<open>internal/privs/privs.go\<close>, over the locale \<open>linux\<close> of the system calls, and over
    \<open>linux_effects\<close>, in which any of them may fail.
  \<^item> \<open>Ui\<close>: \<^verbatim>\<open>internal/ui/server.go\<close>, each handler a function of the files and the request.
  \<^item> \<open>Command\<close>: \<^verbatim>\<open>cmd/smartclips/main.go\<close>; \<open>Startup\<close> has what the start and the reload loop
    promise, composed from the engine, the mount and the privileges.

  \<^bold>\<open>Correspondence.\<close>  Records are the structs, with their fields in order; each Go
  function is the definition of the same name, prefixed by its package where two packages have
  it (\<open>config_Load\<close>, \<open>clip_Open\<close>, \<open>ui_New\<close>).  The body of a loop with several exits is a
  function of its own (\<open>OpenWalk\<close> and \<open>open_step\<close> for the loop of \<open>Open\<close>), as are the parts of
  a function that run at different moments: \<open>worker\<close> is \<open>receive\<close>, \<open>begin_build\<close>, \<open>build\<close> and
  \<open>finish_build\<close>, \<open>putClips\<close> is \<open>put_checked\<close> and, under the mutex, \<open>put_locked\<close>, and \<open>runMount\<close>
  is its stages.  Errors are constructors (\<open>ebml_err\<close>, \<open>layout_err\<close>, \<open>mkv_err\<close>, \<open>engine_err\<close>,
  \<open>main_err\<close>) in a sum; a run-time panic is \<open>IndexPanic\<close>, \<open>NilPointer\<close> or \<open>None\<close>, and a send
  that waits for ever is \<open>QueueFull\<close>.  A map is an association list where its order can be
  seen, and every order in which Go may iterate over it is a parameter.  The file system is a
  map from paths to contents and modes; an atomic save gives the states it goes through, and
  the result of every system call is a parameter, of those the code ignores, too.
  Operations under the engine's mutex are atomic.  Where the code gives a mutex up in between,
  or has none against another process, the rest of the operation gets what was read before
  and what the others did since: \<open>Recheck\<close>, \<open>cleanCache\<close>, \<open>put_locked\<close> and the turns of
  \<open>watch_run\<close>.
  Every loop is a total function: the walks over a file end because an element is at least
  two bytes long, those over paths because \<open>path.Dir\<close> shortens them.

  \<^bold>\<open>What is shown.\<close>  \<open>Ebml\<close>, \<open>Layout\<close> and \<open>Mkv\<close>: round trips, the refinement of a virtual
  file by its content, and that a clip is a well-formed Matroska file with the source's
  blocks, times and index.  \<open>Clipfs\<close>, \<open>EngineRun\<close>, \<open>EngineMount\<close>: the tree of the mount, as
  \<open>view\<close> reads it from the inodes, has exactly the clips that the engine holds ready, in every
  interleaving (the runs of \<open>library\<close>), as long as the names of clips and folders do not
  collide; the engine comes to rest; finished clips survive a restart; housekeeping keeps the
  clips that were current when it looked.  \<open>Config\<close>, \<open>Nfo\<close>, \<open>Backup\<close>, \<open>Privs\<close>: inputs stay inside the
  media folder, NFOs are well nested, the newest copies are kept, privileges are dropped and
  regained.  \<open>Ui\<close>, \<open>Startup\<close>: no update of the clips is lost, nothing else changes a file, the
  start happens in its order whichever system call fails, the library is complete when it is
  mounted, and no change of the clips file that the watcher reports is missed.  Lemmas named in
  these texts show where the code falls short: \<open>Finalize_wraps\<close>, \<open>cleanCache_races\<close>,
  \<open>Recheck_reverts\<close>, \<open>hand_edit_lost\<close>, \<open>Once_same_second\<close>, \<open>names_collide\<close>,
  \<open>largest_id_stays_root\<close>, \<open>invalid_message_lost\<close> and \<open>too_many_new_clips_block\<close>.

  \<^bold>\<open>Bounds.\<close>  Timestamps and IDs are words and wrap as in the code, and so does the recheck
  period in minutes.  The offsets of a layout, which may come from an index file with any
  numbers, are added with the wrap-around of \<open>int64\<close>; \<open>fits\<close> says that a layout does not reach
  it.  The other file offsets are integers: they are sums of a file's size and of element
  sizes below \<open>2 ^ 56\<close>, so they stay inside \<open>int64\<close> for every file below \<open>2 ^ 62\<close> bytes.  The
  clip's total size is assumed to be below \<open>2 ^ 56 - 1\<close> where the eight-byte sizes matter.
  The engine's queue has 65536 places; a path enters it once, so only more clips than that
  can fill it.  User and group ids are integers that the kernel cuts to 32 bits.

  \<^bold>\<open>Not modelled.\<close>  Error texts, logging, timeouts and signals, what ffmpeg and ffprobe do,
  \<open>encoding/json\<close>, the digests, the formatting and parsing of floats and durations, the
  kernel's side of FUSE, fsnotify and the errors it reports, HTTP framing, and the browser code.  What the code relies on of them
  is a hypothesis of the property that needs it.
\<close>

end
